(* ===== verification/KR_Error.thy ===== *)
theory KR_Error
  imports KR_Prelude
begin

text \<open>
  The errors of the daemon. The sources build them as \<open>anyhow\<close> messages; here every message is
  a constructor, and \<open>show_err\<close> is the text the client receives (\<open>e.to_string()\<close> in
  \<open>server.rs\<close>). A constructor that embeds the text of a foreign error carries that text.
\<close>

datatype err =
    ETruncated | EBadMagic | EVersion byte | EKdfId byte
  | EKdfParams | EArgonParams rstring | EDerive rstring | EEncrypt | EWrongPassword
  | ESerialize rstring | EMkdir rstring | EOpenTmp rstring | EWriteTmp rstring
  | EFsync rstring | EReplace rstring | EVaultExists rstring | ERead rstring | EBody rstring
  | ELocked | ENoSecret rstring | EEmptyName | ENeedsValue | EEmptyNewName | EExists rstring
  | EUnknownMethod rstring | ESerde rstring | EInternal rstring
  | ETotpParams | ETotpSecret | ETotpLength

definition quoted :: "rstring \<Rightarrow> rstring" where
  "quoted s = 39 # s @ [39]"

fun show_err :: "err \<Rightarrow> rstring" where
  "show_err ETruncated = lit ''vault file is truncated''"
| "show_err EBadMagic = lit ''not a keyring vault file (bad magic)''"
| "show_err (EVersion b) = lit ''unsupported vault version '' @ show_nat (unat b)"
| "show_err (EKdfId b) = lit ''unsupported KDF id '' @ show_nat (unat b)"
| "show_err EKdfParams = lit ''invalid KDF parameters''"
| "show_err (EArgonParams e) = lit ''argon2 params: '' @ e"
| "show_err (EDerive e) = lit ''key derivation failed: '' @ e"
| "show_err EEncrypt = lit ''encryption failed''"
| "show_err EWrongPassword = lit ''wrong master password (or the vault file is corrupt)''"
| "show_err (ESerialize e) = lit ''serialize: '' @ e"
| "show_err (EMkdir e) = lit ''create vault dir: '' @ e"
| "show_err (EOpenTmp e) = lit ''open temp vault: '' @ e"
| "show_err (EWriteTmp e) = lit ''write temp vault: '' @ e"
| "show_err (EFsync e) = lit ''fsync temp vault: '' @ e"
| "show_err (EReplace e) = lit ''replace vault: '' @ e"
| "show_err (EVaultExists p) = lit ''a vault already exists at '' @ p"
| "show_err (ERead e) = lit ''read vault: '' @ e"
| "show_err (EBody e) = lit ''vault body is not valid: '' @ e"
| "show_err ELocked = lit ''locked''"
| "show_err (ENoSecret n) = lit ''no secret named '' @ quoted n"
| "show_err EEmptyName = lit ''secret name cannot be empty''"
| "show_err ENeedsValue = lit ''a new secret needs a value''"
| "show_err EEmptyNewName = lit ''new name cannot be empty''"
| "show_err (EExists n) = lit ''a secret named '' @ quoted n @ lit '' already exists''"
| "show_err (EUnknownMethod m) = lit ''unknown method '' @ quoted m"
| "show_err (ESerde e) = e"
| "show_err (EInternal e) = lit ''internal task error: '' @ e"
| "show_err ETotpParams = lit ''invalid TOTP parameters''"
| "show_err ETotpSecret = lit ''not a valid base32 TOTP secret''"
| "show_err ETotpLength = lit ''invalid TOTP secret length''"

text \<open>
  The client recognises a locked wallet by comparing the text with \<open>locked\<close>; no other message
  the daemon composes has that text (a message of the JSON library is passed on as it is).
\<close>

lemma show_err_locked:
  "show_err e = lit ''locked'' \<Longrightarrow> e = ELocked \<or> (\<exists>t. e = ESerde t)"
  by (cases e) (simp_all add: lit_def)

end
