(* ===== verification/KR_Crypto.thy ===== *)
theory KR_Crypto
  imports KR_Error
begin

text \<open>
  \<open>native/src/crypto.rs\<close>: the KDF parameters and their check, the key buffer, and the wrappers
  around Argon2id and XChaCha20-Poly1305. The two primitives are third-party code: they are the
  fields of \<open>crypto_ext\<close>, and what the daemon relies on is stated as the named hypotheses
  \<open>kdf_len\<close>, \<open>aead_ok\<close>, \<open>aead_tight\<close> and \<open>aead_auth\<close>.
\<close>

subsection \<open>Constants and parameters\<close>

definition KEY_LEN :: nat where "KEY_LEN = 32"
definition SALT_LEN :: nat where "SALT_LEN = 16"
definition NONCE_LEN :: nat where "NONCE_LEN = 24"

record KdfParams =
  m_cost :: u32
  t_cost :: u32
  p_cost :: u32

definition KdfParams_default :: KdfParams where
  "KdfParams_default = \<lparr>m_cost = 64 * 1024, t_cost = 3, p_cost = 4\<rparr>"

definition validate :: "KdfParams \<Rightarrow> err + unit" where
  "validate p =
     (if m_cost p < 8 \<or> t_cost p < 1 \<or> p_cost p < 1 then Inl EKdfParams else Inr ())"

subsection \<open>The third-party primitives\<close>

record crypto_ext =
  argon2_params :: "u32 \<Rightarrow> u32 \<Rightarrow> u32 \<Rightarrow> nat \<Rightarrow> rstring option"
    \<comment> \<open>\<open>Params::new\<close>: the error text, if it refuses\<close>
  argon2_hash :: "KdfParams \<Rightarrow> byte list \<Rightarrow> byte list \<Rightarrow> rstring + byte list"
    \<comment> \<open>\<open>hash_password_into\<close> a buffer of \<open>KEY_LEN\<close> bytes\<close>
  aead_encrypt :: "byte list \<Rightarrow> byte list \<Rightarrow> byte list \<Rightarrow> byte list \<Rightarrow> byte list option"
  aead_decrypt :: "byte list \<Rightarrow> byte list \<Rightarrow> byte list \<Rightarrow> byte list \<Rightarrow> byte list option"

subsection \<open>The key buffer\<close>

text \<open>
  \<open>Key32\<close> owns a boxed buffer; \<open>pinned\<close> records whether \<open>mlock\<close> was last asked to keep its page out
  of swap (best effort: the results of \<open>mlock\<close> and \<open>munlock\<close> are ignored). \<open>key32_drop\<close> is what the
  destructor leaves in that memory.
\<close>

record Key32 =
  inner :: "byte list"
  pinned :: bool

definition lock_pages :: "Key32 \<Rightarrow> Key32" where
  "lock_pages k = k\<lparr>pinned := True\<rparr>"

definition unlock_pages :: "Key32 \<Rightarrow> Key32" where
  "unlock_pages k = k\<lparr>pinned := False\<rparr>"

definition key32_zeroed :: Key32 where
  "key32_zeroed = lock_pages \<lparr>inner = replicate KEY_LEN 0, pinned = False\<rparr>"

definition key32_drop :: "Key32 \<Rightarrow> Key32" where
  "key32_drop k = unlock_pages (k\<lparr>inner := replicate (length (inner k)) 0\<rparr>)"

lemma key32_simps [simp]:
  "inner key32_zeroed = replicate KEY_LEN 0" "pinned key32_zeroed"
  "inner (key32_drop k) = replicate (length (inner k)) 0" "\<not> pinned (key32_drop k)"
  "key32_zeroed\<lparr>inner := bs\<rparr> = \<lparr>inner = bs, pinned = True\<rparr>"
  by (simp_all add: key32_zeroed_def key32_drop_def lock_pages_def unlock_pages_def)

subsection \<open>Key derivation, sealing and opening\<close>

definition derive_key ::
  "'x crypto_ext_scheme \<Rightarrow> byte list \<Rightarrow> byte list \<Rightarrow> KdfParams \<Rightarrow> err + Key32" where
  "derive_key x password salt params =
     (case validate params of Inl e \<Rightarrow> Inl e | Inr _ \<Rightarrow>
       (case argon2_params x (m_cost params) (t_cost params) (p_cost params) KEY_LEN of
          Some e \<Rightarrow> Inl (EArgonParams e)
        | None \<Rightarrow>
          (case argon2_hash x params password salt of
             Inl e \<Rightarrow> Inl (EDerive e)
           | Inr out \<Rightarrow> Inr (key32_zeroed\<lparr>inner := out\<rparr>))))"

definition seal ::
  "'x crypto_ext_scheme \<Rightarrow> byte list \<Rightarrow> byte list \<Rightarrow> byte list \<Rightarrow> byte list \<Rightarrow> err + byte list" where
  "seal x key nonce aad plaintext =
     (case aead_encrypt x key nonce aad plaintext of None \<Rightarrow> Inl EEncrypt | Some c \<Rightarrow> Inr c)"

definition aead_open ::
  "'x crypto_ext_scheme \<Rightarrow> byte list \<Rightarrow> byte list \<Rightarrow> byte list \<Rightarrow> byte list \<Rightarrow> err + byte list" where
  "aead_open x key nonce aad ciphertext =
     (case aead_decrypt x key nonce aad ciphertext of
        None \<Rightarrow> Inl EWrongPassword | Some p \<Rightarrow> Inr p)"

subsection \<open>What the daemon relies on\<close>

text \<open>Argon2 fills the whole buffer it is given.\<close>

definition kdf_len :: "'x crypto_ext_scheme \<Rightarrow> bool" where
  "kdf_len x \<longleftrightarrow> (\<forall>p pw s out. argon2_hash x p pw s = Inr out \<longrightarrow> length out = KEY_LEN)"

text \<open>Opening what was sealed under the same key, nonce and associated data gives it back.\<close>

definition aead_ok :: "'x crypto_ext_scheme \<Rightarrow> bool" where
  "aead_ok x \<longleftrightarrow>
     (\<forall>k n a p c. aead_encrypt x k n a p = Some c \<longrightarrow> aead_decrypt x k n a c = Some p)"

text \<open>
  Sealing is deterministic and a ciphertext opens only when its tag is the recomputed one, so
  whatever opens is the sealing of what it opens to.
\<close>

definition aead_tight :: "'x crypto_ext_scheme \<Rightarrow> bool" where
  "aead_tight x \<longleftrightarrow>
     (\<forall>k n a c p. aead_decrypt x k n a c = Some p \<longrightarrow> aead_encrypt x k n a p = Some c)"

text \<open>
  Authentication, in the idealised form the comments of \<open>crypto.rs\<close> state: a ciphertext sealed
  under one key, nonce and header does not open under another.
\<close>

definition aead_auth :: "'x crypto_ext_scheme \<Rightarrow> bool" where
  "aead_auth x \<longleftrightarrow>
     (\<forall>k n a p c k' n' a'. aead_encrypt x k n a p = Some c \<longrightarrow>
        length k' = length k \<longrightarrow> length n' = length n \<longrightarrow> length a' = length a \<longrightarrow>
        (k', n', a') \<noteq> (k, n, a) \<longrightarrow> aead_decrypt x k' n' a' c = None)"

subsection \<open>Lemmas\<close>

lemma validate_Inr [simp]:
  "validate p = Inr u \<longleftrightarrow> 8 \<le> m_cost p \<and> t_cost p \<noteq> 0 \<and> p_cost p \<noteq> 0"
  by (auto simp: validate_def not_less)

lemma validate_Inl: "validate p = Inl e \<Longrightarrow> e = EKdfParams"
  by (auto simp: validate_def split: if_splits)

lemma derive_key_Inr:
  "derive_key x pw salt p = Inr k \<longleftrightarrow>
     8 \<le> m_cost p \<and> t_cost p \<noteq> 0 \<and> p_cost p \<noteq> 0 \<and>
     argon2_params x (m_cost p) (t_cost p) (p_cost p) KEY_LEN = None \<and>
     (\<exists>out. argon2_hash x p pw salt = Inr out \<and> k = \<lparr>inner = out, pinned = True\<rparr>)"
  by (auto simp: derive_key_def validate_def not_less
      split: option.splits sum.splits if_splits)

lemma derive_key_len:
  "kdf_len x \<Longrightarrow> derive_key x pw salt p = Inr k \<Longrightarrow> length (inner k) = KEY_LEN \<and> pinned k"
  by (auto simp: derive_key_Inr kdf_len_def)

lemma seal_Inr [simp]: "seal x k n a p = Inr c \<longleftrightarrow> aead_encrypt x k n a p = Some c"
  by (simp add: seal_def split: option.splits)

lemma aead_open_Inr [simp]: "aead_open x k n a c = Inr p \<longleftrightarrow> aead_decrypt x k n a c = Some p"
  by (simp add: aead_open_def split: option.splits)

lemma aead_open_Inl: "aead_open x k n a c = Inl e \<longleftrightarrow> e = EWrongPassword \<and> aead_decrypt x k n a c = None"
  by (auto simp: aead_open_def split: option.splits)

lemma aead_okD: "aead_ok x \<Longrightarrow> aead_encrypt x k n a p = Some c \<Longrightarrow> aead_decrypt x k n a c = Some p"
  by (simp add: aead_ok_def)

lemma aead_tightD: "aead_tight x \<Longrightarrow> aead_decrypt x k n a c = Some p \<Longrightarrow> aead_encrypt x k n a p = Some c"
  by (simp add: aead_tight_def)

lemma aead_authD:
  "aead_auth x \<Longrightarrow> aead_encrypt x k n a p = Some c \<Longrightarrow> length k' = length k \<Longrightarrow>
   length n' = length n \<Longrightarrow> length a' = length a \<Longrightarrow> k' \<noteq> k \<or> n' \<noteq> n \<or> a' \<noteq> a \<Longrightarrow>
   aead_decrypt x k' n' a' c = None"
  by (simp add: aead_auth_def)

end
