(* ===== verification/KR_Totp.thy ===== *)
theory KR_Totp
  imports KR_Crypto
begin

text \<open>
  \<open>native/src/totp.rs\<close>: the current code of a TOTP entry. Base32 decoding and HMAC-SHA1 are
  third-party code and fields of \<open>totp_ext\<close>, as is the non-ASCII part of \<open>char::to_uppercase\<close>
  (a Unicode table). The dynamic truncation, done in the code with 32-bit shifts and masks, is
  proved equal to the arithmetic definition of RFC 4226.
\<close>

record totp_ext = crypto_ext +
  upper_ext :: "rchar \<Rightarrow> rstring"
  base32_decode :: "byte list \<Rightarrow> byte list option"
  hmac_sha1 :: "byte list \<Rightarrow> byte list \<Rightarrow> byte list option"

text \<open>HMAC-SHA1 yields 20 bytes (the type of \<open>finalize().into_bytes()\<close>).\<close>

definition hmac_len :: "'x totp_ext_scheme \<Rightarrow> bool" where
  "hmac_len x \<longleftrightarrow> (\<forall>k m hs. hmac_sha1 x k m = Some hs \<longrightarrow> length hs = 20)"

subsection \<open>The code\<close>

definition to_uppercase :: "'x totp_ext_scheme \<Rightarrow> rchar \<Rightarrow> rstring" where
  "to_uppercase x c =
     (if 97 \<le> c \<and> c \<le> 122 then [c - 32] else if c < 128 then [c] else upper_ext x c)"

definition clean_secret :: "'x totp_ext_scheme \<Rightarrow> rstring \<Rightarrow> rstring" where
  "clean_secret x s =
     concat (map (to_uppercase x) (filter (\<lambda>c. \<not> is_whitespace c \<and> c \<noteq> 61) s))"

definition be_bytes64 :: "u64 \<Rightarrow> byte list" where
  "be_bytes64 w = map (\<lambda>i. ucast (drop_bit (56 - 8 * i) w)) [0..<8]"

definition truncation_offset :: "byte list \<Rightarrow> nat" where
  "truncation_offset hs = unat ((hs ! (length hs - 1)) AND 15)"

definition truncation_bin :: "byte list \<Rightarrow> nat \<Rightarrow> u32" where
  "truncation_bin hs offset =
     push_bit 24 (ucast (hs ! offset) AND 127)
     OR push_bit 16 (ucast (hs ! (offset + 1)))
     OR push_bit 8 (ucast (hs ! (offset + 2)))
     OR ucast (hs ! (offset + 3))"

definition truncate_digits :: "byte list \<Rightarrow> nat \<Rightarrow> rstring" where
  "truncate_digits hs digits =
     pad0 digits (show_nat (unat (truncation_bin hs (truncation_offset hs) mod 10 ^ digits)))"

definition totp_code ::
  "'x totp_ext_scheme \<Rightarrow> rstring \<Rightarrow> u64 \<Rightarrow> u64 \<Rightarrow> nat \<Rightarrow> err + rstring" where
  "totp_code x secret_b32 unix_time period digits =
     (if period = 0 \<or> \<not> (1 \<le> digits \<and> digits \<le> 9) then Inl ETotpParams
      else case base32_decode x (as_bytes (clean_secret x secret_b32)) of
        None \<Rightarrow> Inl ETotpSecret
      | Some key \<Rightarrow>
        (case hmac_sha1 x key (be_bytes64 (unix_time div period)) of
           None \<Rightarrow> Inl ETotpLength
         | Some hs \<Rightarrow> Inr (truncate_digits hs digits)))"

subsection \<open>The arithmetic definition (RFC 4226, section 5.3)\<close>

definition rfc4226 :: "nat list \<Rightarrow> nat \<Rightarrow> nat" where
  "rfc4226 hs digits =
     (let off = last hs mod 16
      in ((((hs ! off) mod 128 * 256 + hs ! (off + 1)) * 256 + hs ! (off + 2)) * 256
          + hs ! (off + 3)) mod 10 ^ digits)"

subsection \<open>Truncation\<close>

lemma truncation_offset_less: "truncation_offset hs < 16"
proof -
  have "unat (hs ! (length hs - 1) AND 15) \<le> unat (15 :: byte)"
    by (rule word_and_le1 [THEN word_le_nat_alt [THEN iffD1]])
  then show ?thesis by (simp add: truncation_offset_def)
qed

lemma unat_ucast_byte: "unat (ucast (b :: byte) :: u32) = unat b"
  using unat_byte_less [of b] by (simp add: unsigned_ucast_eq take_bit_nat_eq_self)

lemma unat_and_127: "unat (ucast (b :: byte) AND 127 :: u32) = unat b mod 128"
proof -
  have "unat (ucast b AND mask 7 :: u32) = unat b mod 2 ^ 7"
    by (simp only: take_bit_eq_mask [symmetric] unsigned_take_bit_eq unat_ucast_byte
        take_bit_eq_mod [where 'a = nat])
  then show ?thesis by (simp add: mask_eq_exp_minus_1)
qed

lemma unat_and_15: "unat ((b :: byte) AND 15) = unat b mod 16"
proof -
  have "unat (b AND mask 4) = unat b mod 2 ^ 4"
    by (simp only: take_bit_eq_mask [symmetric] unsigned_take_bit_eq
        take_bit_eq_mod [where 'a = nat])
  then show ?thesis by (simp add: mask_eq_exp_minus_1)
qed

lemma truncation_bin_unat:
  "unat (truncation_bin hs off) =
     (((unat (hs ! off) mod 128 * 256 + unat (hs ! (off + 1))) * 256
       + unat (hs ! (off + 2))) * 256 + unat (hs ! (off + 3)))"
proof -
  define a b c d where "a = unat (hs ! off) mod 128" and "b = unat (hs ! (off + 1))"
    and "c = unat (hs ! (off + 2))" and "d = unat (hs ! (off + 3))"
  have bounds: "a < 128" "b < 256" "c < 256" "d < 256"
    by (simp_all add: a_def b_def c_def d_def unat_byte_less)
  have unat_shift: "unat (push_bit n w) = push_bit n (unat w)"
    if "unat w * 2 ^ n < 2 ^ 32" for n and w :: u32
    using that unat_push_bit_less [of w n] by (simp add: push_bit_eq_mult [where 'a = nat])
  have parts: "unat (push_bit 24 (ucast (hs ! off) AND 127 :: u32)) = push_bit 24 a"
    "unat (push_bit 16 (ucast (hs ! (off + 1)) :: u32)) = push_bit 16 b"
    "unat (push_bit 8 (ucast (hs ! (off + 2)) :: u32)) = push_bit 8 c"
    "unat (ucast (hs ! (off + 3)) :: u32) = d"
    using bounds
      unat_shift [of "ucast (hs ! off) AND 127" 24] unat_shift [of "ucast (hs ! (off + 1))" 16]
      unat_shift [of "ucast (hs ! (off + 2))" 8]
    by (simp_all only: unat_and_127 unat_ucast_byte a_def [symmetric] b_def [symmetric]
        c_def [symmetric] d_def [symmetric]) simp_all
  have "unat (truncation_bin hs off) = push_bit 24 a OR push_bit 16 b OR push_bit 8 c OR d"
    by (simp only: truncation_bin_def unsigned_or_eq parts)
  also have "\<dots> = a * 2 ^ 24 + (b * 2 ^ 16 + (c * 2 ^ 8 + d))"
    using bounds by (simp add: or_push_bit_nat)
  finally show ?thesis by (simp add: a_def b_def c_def d_def)
qed

lemma pow10_small:
  assumes "digits \<le> 9"
  shows "unat ((10 :: u32) ^ digits) = 10 ^ digits"
proof -
  have "(10 :: nat) ^ digits \<le> 10 ^ 9" using assms by (intro power_increasing) auto
  then have lt: "(10 :: nat) ^ digits < 2 ^ LENGTH(32)" by simp
  have "unat (of_nat (10 ^ digits) :: u32) = 10 ^ digits"
    using lt by (simp only: unsigned_of_nat take_bit_nat_eq_self of_nat_id)
  then show ?thesis by simp
qed

text \<open>The digits are the value of RFC 4226, written with exactly \<open>digits\<close> decimal digits.\<close>

lemma truncate_digits_value:
  assumes "length hs = 20" and "digits \<le> 9"
  shows "digits_value 0 (truncate_digits hs digits) = rfc4226 (map unat hs) digits"
proof -
  have off: "truncation_offset hs = last (map unat hs) mod 16"
    using assms(1) by (cases hs rule: rev_cases)
      (simp_all add: truncation_offset_def unat_and_15 nth_append)
  have "truncation_offset hs + 3 < length hs"
    using truncation_offset_less [of hs] assms(1) by simp
  then show ?thesis
    using assms(2) off
    by (simp add: truncate_digits_def rfc4226_def Let_def unat_mod pow10_small truncation_bin_unat)
qed

lemma truncate_digits_shape:
  assumes "1 \<le> digits" and "digits \<le> 9"
  shows "length (truncate_digits hs digits) = digits \<and> list_all is_digit (truncate_digits hs digits)"
proof -
  have "unat (truncation_bin hs (truncation_offset hs) mod 10 ^ digits) < 10 ^ digits"
    using assms(2) by (simp add: unat_mod pow10_small)
  then show ?thesis
    using assms(1) by (simp add: truncate_digits_def length_pad0 pad0_digits)
qed

subsection \<open>The secret's spelling\<close>

lemma clean_secret_simps [simp]:
  "clean_secret x [] = []"
  "clean_secret x (c # s) =
     (if is_whitespace c \<or> c = 61 then [] else to_uppercase x c) @ clean_secret x s"
  "clean_secret x (s @ t) = clean_secret x s @ clean_secret x t"
  by (simp_all add: clean_secret_def)

lemma clean_secret_blank: "blank s \<Longrightarrow> clean_secret x s = []"
  by (induction s) simp_all

definition ascii_upper :: "rchar \<Rightarrow> rchar" where
  "ascii_upper c = (if 97 \<le> c \<and> c \<le> 122 then c - 32 else c)"

lemma clean_secret_upper_char: "clean_secret x [ascii_upper c] = clean_secret x [c]"
proof (cases "97 \<le> c \<and> c \<le> 122")
  case True
  then obtain d where c: "c = d + 32" and d: "65 \<le> d" "d \<le> 90"
    by (intro that [of "c - 32"]) auto
  then show ?thesis
    by (simp add: ascii_upper_def to_uppercase_def is_whitespace_def)
next
  case False
  then have "ascii_upper c = c" by (auto simp: ascii_upper_def)
  then show ?thesis by simp
qed

lemma clean_secret_upper: "clean_secret x (map ascii_upper s) = clean_secret x s"
proof (induction s)
  case (Cons c s)
  have "clean_secret x (map ascii_upper (c # s)) =
      clean_secret x [ascii_upper c] @ clean_secret x (map ascii_upper s)"
    by simp
  also have "\<dots> = clean_secret x [c] @ clean_secret x s"
    by (simp only: clean_secret_upper_char Cons.IH)
  finally show ?case by simp
qed simp

lemma totp_code_cong:
  "clean_secret x s = clean_secret x t \<Longrightarrow> totp_code x s = totp_code x t"
  by (simp add: totp_code_def fun_eq_iff)

lemma totp_code_Inr:
  "totp_code x s t p d = Inr c \<longleftrightarrow>
     p \<noteq> 0 \<and> 1 \<le> d \<and> d \<le> 9 \<and>
     (\<exists>key hs. base32_decode x (as_bytes (clean_secret x s)) = Some key \<and>
        hmac_sha1 x key (be_bytes64 (t div p)) = Some hs \<and> c = truncate_digits hs d)"
  by (auto simp: totp_code_def split: option.splits)

lemma totp_code_Inl:
  "totp_code x s t p d = Inl e \<Longrightarrow> e = ETotpParams \<or> e = ETotpSecret \<or> e = ETotpLength"
  by (auto simp: totp_code_def split: option.splits if_splits)

end
