(* ===== verification/KR_Btree.thy ===== *)
theory KR_Btree
  imports KR_Prelude "HOL-Library.List_Lexorder"
begin

text \<open>
  \<open>std::collections::BTreeMap\<close>, the container of the vault's entries: an association list kept
  strictly sorted by key, so that iteration is in key order as the sources rely on for listing.
  String keys compare by their scalar values, which is the byte order of their UTF-8 form.
  The contract \<open>ordered_map\<close> states what the callers rely on; the callers' derived laws are
  proved once inside it and reach the rest of the development through its interpretation here.
\<close>

subsection \<open>The operations\<close>

type_synonym ('k, 'v) btree = "('k \<times> 'v) list"

fun bt_get :: "('k, 'v) btree \<Rightarrow> 'k \<Rightarrow> 'v option" where
  "bt_get [] k = None"
| "bt_get ((a, v) # m) k = (if k = a then Some v else bt_get m k)"

fun bt_insert :: "'k::linorder \<Rightarrow> 'v \<Rightarrow> ('k, 'v) btree \<Rightarrow> ('k, 'v) btree" where
  "bt_insert k v [] = [(k, v)]"
| "bt_insert k v ((a, w) # m) =
     (if k = a then (k, v) # m
      else if k < a then (k, v) # (a, w) # m
      else (a, w) # bt_insert k v m)"

fun bt_remove :: "'k \<Rightarrow> ('k, 'v) btree \<Rightarrow> ('k, 'v) btree" where
  "bt_remove k [] = []"
| "bt_remove k ((a, w) # m) = (if k = a then m else (a, w) # bt_remove k m)"

definition bt_keys :: "('k, 'v) btree \<Rightarrow> 'k list" where
  "bt_keys m = map fst m"

definition bt_wf :: "('k::linorder, 'v) btree \<Rightarrow> bool" where
  "bt_wf m \<longleftrightarrow> sorted_wrt (<) (bt_keys m)"

text \<open>\<open>values_mut\<close>: the same change on every value, keys and order untouched.\<close>

definition bt_map :: "('v \<Rightarrow> 'w) \<Rightarrow> ('k, 'v) btree \<Rightarrow> ('k, 'w) btree" where
  "bt_map f m = map (\<lambda>(k, v). (k, f v)) m"

subsection \<open>The contract\<close>

locale ordered_map =
  fixes empty :: 'm
    and get :: "'m \<Rightarrow> 'k::linorder \<Rightarrow> 'v option"
    and put :: "'k \<Rightarrow> 'v \<Rightarrow> 'm \<Rightarrow> 'm"
    and del :: "'k \<Rightarrow> 'm \<Rightarrow> 'm"
    and keys :: "'m \<Rightarrow> 'k list"
    and wf :: "'m \<Rightarrow> bool"
  assumes wf_empty: "wf empty"
    and wf_put: "wf m \<Longrightarrow> wf (put k v m)"
    and wf_del: "wf m \<Longrightarrow> wf (del k m)"
    and get_empty: "get empty k = None"
    and get_put: "wf m \<Longrightarrow> get (put k v m) j = (if j = k then Some v else get m j)"
    and get_del: "wf m \<Longrightarrow> get (del k m) j = (if j = k then None else get m j)"
    and keys_get: "wf m \<Longrightarrow> k \<in> set (keys m) \<longleftrightarrow> get m k \<noteq> None"
    and keys_sorted: "wf m \<Longrightarrow> sorted_wrt (<) (keys m)"
    and extensional: "wf m \<Longrightarrow> wf n \<Longrightarrow> (\<And>k. get m k = get n k) \<Longrightarrow> m = n"
begin

lemma put_put: "wf m \<Longrightarrow> put k v (put k w m) = put k v m"
  by (rule extensional) (simp_all add: wf_put get_put)

lemma put_get: "wf m \<Longrightarrow> get m k = Some v \<Longrightarrow> put k v m = m"
  by (rule extensional) (simp_all add: wf_put get_put)

lemma del_put: "wf m \<Longrightarrow> get m k = None \<Longrightarrow> del k (put k v m) = m"
  by (rule extensional) (simp_all add: wf_put wf_del get_put get_del)

lemma put_del: "wf m \<Longrightarrow> get m k = Some v \<Longrightarrow> put k v (del k m) = m"
  by (rule extensional) (simp_all add: wf_put wf_del get_put get_del)

lemma del_absent: "wf m \<Longrightarrow> get m k = None \<Longrightarrow> del k m = m"
  by (rule extensional) (simp_all add: wf_del get_del)

lemma distinct_keys: "wf m \<Longrightarrow> distinct (keys m)"
  using keys_sorted strict_sorted_iff by blast

lemma set_keys: "wf m \<Longrightarrow> set (keys m) = {k. get m k \<noteq> None}"
  by (auto simp: keys_get)

lemma length_keys_put:
  "wf m \<Longrightarrow> length (keys (put k v m)) = (if get m k = None then Suc else id) (length (keys m))"
proof -
  assume wf: "wf m"
  have "set (keys (put k v m)) = insert k (set (keys m))"
    using wf by (auto simp: keys_get wf_put get_put split: if_splits)
  then have "length (keys (put k v m)) = card (insert k (set (keys m)))"
    by (metis distinct_card distinct_keys wf wf_put)
  moreover have "card (set (keys m)) = length (keys m)"
    by (rule distinct_card) (rule distinct_keys [OF wf])
  ultimately show ?thesis
    using wf by (simp add: card_insert_if keys_get)
qed

lemma length_keys_del:
  "wf m \<Longrightarrow> get m k = Some v \<Longrightarrow> Suc (length (keys (del k m))) = length (keys m)"
  using length_keys_put [of "del k m" k v] by (simp add: wf_del get_del put_del)

text \<open>Moving the value of one key to a free key, and back.\<close>

lemma move_get:
  "wf m \<Longrightarrow> get m a = Some v \<Longrightarrow> get m b = None \<Longrightarrow>
   get (put b v (del a m)) k = (if k = b then Some v else if k = a then None else get m k)"
  by (auto simp: get_put get_del wf_del)

lemma move_back:
  "wf m \<Longrightarrow> get m a = Some v \<Longrightarrow> get m b = None \<Longrightarrow>
   put a v (del b (put b v (del a m))) = m"
  by (rule extensional) (auto simp: get_put get_del wf_del wf_put)

end

subsection \<open>The association list keeps the contract\<close>

lemma bt_keys_simps [simp]: "bt_keys [] = []" "bt_keys ((a, v) # m) = a # bt_keys m"
  by (simp_all add: bt_keys_def)

lemma bt_wf_Nil [simp]: "bt_wf []"
  by (simp add: bt_wf_def)

lemma bt_wf_Cons [simp]:
  "bt_wf ((a, v) # m) \<longleftrightarrow> (\<forall>k \<in> set (bt_keys m). a < k) \<and> bt_wf m"
  by (simp add: bt_wf_def)

lemma bt_keys_insert: "set (bt_keys (bt_insert k v m)) = insert k (set (bt_keys m))"
  by (induction m rule: bt_insert.induct [of _ k v]) auto

lemma bt_keys_remove: "set (bt_keys (bt_remove k m)) \<subseteq> set (bt_keys m)"
  by (induction k m rule: bt_remove.induct) auto

lemma bt_get_keys: "k \<in> set (bt_keys m) \<longleftrightarrow> bt_get m k \<noteq> None"
  by (induction m k rule: bt_get.induct) auto

lemma bt_get_None: "bt_get m k = None \<longleftrightarrow> k \<notin> set (bt_keys m)"
  by (simp add: bt_get_keys)

lemma bt_wf_insert: "bt_wf m \<Longrightarrow> bt_wf (bt_insert k v m)"
  by (induction k v m rule: bt_insert.induct) (auto simp: bt_keys_insert)

lemma bt_wf_remove: "bt_wf m \<Longrightarrow> bt_wf (bt_remove k m)"
  using bt_keys_remove by (induction k m rule: bt_remove.induct) fastforce+

lemma bt_get_insert: "bt_get (bt_insert k v m) j = (if j = k then Some v else bt_get m j)"
  by (induction k v m rule: bt_insert.induct) auto

lemma bt_get_remove: "bt_wf m \<Longrightarrow> bt_get (bt_remove k m) j = (if j = k then None else bt_get m j)"
  by (induction k m rule: bt_remove.induct) (auto simp: bt_get_None)

lemma bt_extensional:
  "bt_wf m \<Longrightarrow> bt_wf n \<Longrightarrow> (\<And>k. bt_get m k = bt_get n k) \<Longrightarrow> m = n"
proof (induction m arbitrary: n)
  case Nil
  show ?case
  proof (cases n)
    case (Cons x n')
    with Nil.prems(3) [of "fst x"] show ?thesis by (cases x) simp
  qed simp
next
  case (Cons x m)
  obtain a v where x: "x = (a, v)" by (cases x)
  obtain b w n' where n: "n = (b, w) # n'"
    using Cons.prems(3) [of a] x by (cases n) auto
  have ab: "a = b"
  proof (rule ccontr)
    assume ne: "a \<noteq> b"
    from Cons.prems(3) [of a, symmetric] x n ne have "a \<in> set (bt_keys n')"
      by (simp add: bt_get_keys)
    moreover from Cons.prems(3) [of b] x n ne have "b \<in> set (bt_keys m)"
      by (simp add: bt_get_keys)
    ultimately show False
      using Cons.prems(1,2) x n by (auto dest: order_less_trans)
  qed
  have vw: "v = w" using Cons.prems(3) [of a] x n ab by simp
  have "bt_get m k = bt_get n' k" for k
  proof (cases "k = a")
    case True
    have "bt_get m a = None" "bt_get n' a = None"
      using Cons.prems(1,2) x n ab by (auto simp: bt_get_None)
    with True show ?thesis by simp
  next
    case False
    with Cons.prems(3) [of k] x n ab show ?thesis by simp
  qed
  with Cons.IH Cons.prems(1,2) x n ab vw show ?case by simp
qed

interpretation bt: ordered_map "[]" bt_get bt_insert bt_remove bt_keys bt_wf
  by unfold_locales
    (simp_all add: bt_wf_insert bt_wf_remove bt_get_insert bt_get_remove bt_get_keys
      bt_wf_def [THEN iffD1] bt_extensional)

lemma bt_map_simps [simp]:
  "bt_map f [] = []" "bt_map f ((k, v) # m) = (k, f v) # bt_map f m"
  by (simp_all add: bt_map_def)

lemma bt_keys_map [simp]: "bt_keys (bt_map f m) = bt_keys m"
  by (induction m) auto

lemma bt_wf_map [simp]: "bt_wf (bt_map f m) = bt_wf m"
  by (simp add: bt_wf_def)

lemma bt_get_map [simp]: "bt_get (bt_map f m) k = map_option f (bt_get m k)"
  by (induction m k rule: bt_get.induct) auto

lemma bt_map_map [simp]: "bt_map f (bt_map g m) = bt_map (f \<circ> g) m"
  by (induction m) auto

lemma bt_map_insert: "bt_map f (bt_insert k v m) = bt_insert k (f v) (bt_map f m)"
  by (induction k v m rule: bt_insert.induct) auto

lemma bt_map_remove: "bt_map f (bt_remove k m) = bt_remove k (bt_map f m)"
  by (induction k m rule: bt_remove.induct) auto

text \<open>Every stored value is the value of its key, which turns list quantifiers into lookups.\<close>

lemma bt_get_mem: "bt_wf m \<Longrightarrow> (k, v) \<in> set m \<longleftrightarrow> bt_get m k = Some v"
proof (induction m k rule: bt_get.induct)
  case (2 a w m k)
  have "k \<in> set (bt_keys m)" if "(k, v) \<in> set m"
    using that by (force simp: bt_keys_def)
  with 2 show ?case by auto
qed simp

text \<open>Iteration gives the map's keys in order, each with its value.\<close>

lemma bt_keys_dom: "bt_wf m \<Longrightarrow> sorted_list_of_set (dom (bt_get m)) = bt_keys m"
proof -
  assume wf: "bt_wf m"
  have "dom (bt_get m) = set (bt_keys m)" by (auto simp: bt_get_keys)
  moreover have "sorted (bt_keys m)" using wf by (auto simp: bt_wf_def intro: strict_sorted_imp_sorted)
  ultimately show ?thesis using bt.distinct_keys [OF wf] by (simp add: sorted_list_of_set.idem_if_sorted_distinct)
qed

lemma bt_entries: "bt_wf m \<Longrightarrow> map (\<lambda>k. (k, the (bt_get m k))) (bt_keys m) = m"
  unfolding bt_keys_def map_map by (rule map_idI) (auto simp: bt_get_mem)

end
