(* ===== verification/KR_Os.thy ===== *)
theory KR_Os
  imports KR_Error
begin

text \<open>
  The operating system as the daemon uses it through the standard library: files and directories
  with their permission bits, the clocks and the random source. Every fallible call consumes one
  outcome of \<open>faults\<close>, so a theorem quantified over the state covers every pattern of I/O errors.
  \<open>crash\<close> is a ghost: each call appends every disk image that a crash or a concurrent reader could
  see while it runs (a \<open>write_all\<close> or a copy passes through all prefixes of its data).
\<close>

subsection \<open>State\<close>

record filerec =
  content :: "byte list"
  fmode :: nat

record disk =
  files :: "rstring \<Rightarrow> filerec option"
  dirs :: "rstring \<Rightarrow> nat option"

datatype io = IoOk | IoErr nat rstring
  \<comment> \<open>how many bytes got through before the error, and its text\<close>

record os =
  disk :: disk
  faults :: "nat \<Rightarrow> io"
  crash :: "disk list"
  rng :: "nat \<Rightarrow> byte"
  new_mode :: nat \<comment> \<open>mode of a newly created file or directory (from the umask)\<close>
  mono :: nat \<comment> \<open>\<open>Instant::now()\<close>, in nanoseconds\<close>
  unix :: u64 \<comment> \<open>\<open>SystemTime::now()\<close>, seconds since the epoch\<close>

subsection \<open>Fallible steps\<close>

definition with_io ::
  "(os \<Rightarrow> (rstring + 'a) \<times> os) \<Rightarrow> (nat \<Rightarrow> rstring \<Rightarrow> os \<Rightarrow> (rstring + 'a) \<times> os) \<Rightarrow> (os, rstring, 'a) act" where
  "with_io ok bad s =
     (let t = s\<lparr>faults := (\<lambda>n. faults s (Suc n))\<rparr>
      in case faults s 0 of IoOk \<Rightarrow> ok t | IoErr k e \<Rightarrow> bad k e t)"

definition refuse :: "nat \<Rightarrow> rstring \<Rightarrow> os \<Rightarrow> (rstring + 'a) \<times> os" where
  "refuse k e s = (Inl e, s)"

definition commit :: "disk \<Rightarrow> os \<Rightarrow> os" where
  "commit d s = s\<lparr>disk := d, crash := crash s @ [d]\<rparr>"

definition set_file :: "rstring \<Rightarrow> filerec option \<Rightarrow> disk \<Rightarrow> disk" where
  "set_file p f d = d\<lparr>files := (files d)(p := f)\<rparr>"

definition NOT_FOUND :: rstring where
  "NOT_FOUND = lit ''No such file or directory (os error 2)''"

text \<open>Passing through all prefixes of the data, ending with the first \<open>k\<close> bytes.\<close>

definition stream_file :: "rstring \<Rightarrow> (nat \<Rightarrow> filerec) \<Rightarrow> nat \<Rightarrow> os \<Rightarrow> os" where
  "stream_file p f k s = foldl (\<lambda>t i. commit (set_file p (Some (f i)) (disk t)) t) s [0..<Suc k]"

subsection \<open>The calls\<close>

definition fs_is_file :: "rstring \<Rightarrow> os \<Rightarrow> bool" where
  "fs_is_file p s \<longleftrightarrow> files (disk s) p \<noteq> None"

definition fs_read :: "rstring \<Rightarrow> (os, rstring, byte list) act" where
  "fs_read p = with_io
     (\<lambda>s. case files (disk s) p of None \<Rightarrow> (Inl NOT_FOUND, s) | Some f \<Rightarrow> (Inr (content f), s))
     refuse"

definition fs_create_dir_all :: "rstring \<Rightarrow> (os, rstring, unit) act" where
  "fs_create_dir_all p = with_io
     (\<lambda>s. (Inr (), if dirs (disk s) p = None
                   then commit ((disk s)\<lparr>dirs := (dirs (disk s))(p \<mapsto> new_mode s)\<rparr>) s else s))
     refuse"

definition fs_set_dir_mode :: "rstring \<Rightarrow> nat \<Rightarrow> (os, rstring, unit) act" where
  "fs_set_dir_mode p m = with_io
     (\<lambda>s. (Inr (), commit ((disk s)\<lparr>dirs := (dirs (disk s))(p \<mapsto> m)\<rparr>) s))
     refuse"

text \<open>\<open>OpenOptions::new().write(true).create(true).truncate(true).open(p)\<close>\<close>

definition fs_open_trunc :: "rstring \<Rightarrow> (os, rstring, unit) act" where
  "fs_open_trunc p = with_io
     (\<lambda>s. (Inr (), commit (set_file p (Some \<lparr>content = [],
                     fmode = (case files (disk s) p of Some f \<Rightarrow> fmode f | None \<Rightarrow> new_mode s)\<rparr>)
                     (disk s)) s))
     refuse"

definition fs_set_mode :: "rstring \<Rightarrow> nat \<Rightarrow> (os, rstring, unit) act" where
  "fs_set_mode p m = with_io
     (\<lambda>s. case files (disk s) p of
            None \<Rightarrow> (Inl NOT_FOUND, s)
          | Some f \<Rightarrow> (Inr (), commit (set_file p (Some (f\<lparr>fmode := m\<rparr>)) (disk s)) s))
     refuse"

text \<open>Writing from the start of a file that has just been truncated.\<close>

definition fs_write_all :: "rstring \<Rightarrow> byte list \<Rightarrow> (os, rstring, unit) act" where
  "fs_write_all p bs = with_io
     (\<lambda>s. case files (disk s) p of
            None \<Rightarrow> (Inl NOT_FOUND, s)
          | Some f \<Rightarrow> (Inr (), stream_file p (\<lambda>i. f\<lparr>content := take i bs\<rparr>) (length bs) s))
     (\<lambda>k e s. case files (disk s) p of
            None \<Rightarrow> (Inl e, s)
          | Some f \<Rightarrow> (Inl e, stream_file p (\<lambda>i. f\<lparr>content := take i bs\<rparr>) k s))"

definition fs_sync_all :: "rstring \<Rightarrow> (os, rstring, unit) act" where
  "fs_sync_all p = with_io (\<lambda>s. (Inr (), s)) refuse"

text \<open>\<open>fs::copy\<close> also copies the permission bits.\<close>

definition fs_copy :: "rstring \<Rightarrow> rstring \<Rightarrow> (os, rstring, unit) act" where
  "fs_copy p q = with_io
     (\<lambda>s. case files (disk s) p of
            None \<Rightarrow> (Inl NOT_FOUND, s)
          | Some f \<Rightarrow> (Inr (), stream_file q (\<lambda>i. f\<lparr>content := take i (content f)\<rparr>)
                               (length (content f)) s))
     (\<lambda>k e s. case files (disk s) p of
            None \<Rightarrow> (Inl e, s)
          | Some f \<Rightarrow> (Inl e, stream_file q (\<lambda>i. f\<lparr>content := take i (content f)\<rparr>) k s))"

definition fs_rename :: "rstring \<Rightarrow> rstring \<Rightarrow> (os, rstring, unit) act" where
  "fs_rename p q = with_io
     (\<lambda>s. case files (disk s) p of
            None \<Rightarrow> (Inl NOT_FOUND, s)
          | Some f \<Rightarrow> (Inr (), commit (set_file q (Some f) (set_file p None (disk s))) s))
     refuse"

text \<open>\<open>OsRng.fill_bytes\<close> and the clocks.\<close>

definition fill_bytes :: "nat \<Rightarrow> (os, err, byte list) act" where
  "fill_bytes n s = (Inr (map (rng s) [0..<n]), s\<lparr>rng := (\<lambda>i. rng s (n + i))\<rparr>)"

definition rand_bytes :: "nat \<Rightarrow> os \<Rightarrow> byte list \<times> os" where
  "rand_bytes n s = (map (rng s) [0..<n], s\<lparr>rng := (\<lambda>i. rng s (n + i))\<rparr>)"

definition NANOS :: nat where "NANOS = 1000000000"

definition sleep_secs :: "nat \<Rightarrow> os \<Rightarrow> os" where
  "sleep_secs n s = s\<lparr>mono := mono s + n * NANOS, unix := unix s + of_nat n\<rparr>"

subsection \<open>Error mapping and ignored results\<close>

definition map_errE :: "('e \<Rightarrow> 'f) \<Rightarrow> ('s, 'e, 'a) act \<Rightarrow> ('s, 'f, 'a) act" where
  "map_errE g m s = (case m s of (Inl e, t) \<Rightarrow> (Inl (g e), t) | (Inr x, t) \<Rightarrow> (Inr x, t))"

definition ignoreE :: "('s, 'e, 'a) act \<Rightarrow> ('s, 'f, unit) act" where
  "ignoreE m s = (Inr (), snd (m s))"

lemma map_errE_Inr [simp]: "map_errE g m s = (Inr x, t) \<longleftrightarrow> m s = (Inr x, t)"
  by (auto simp: map_errE_def split: prod.splits sum.splits)

lemma map_errE_Inl: "map_errE g m s = (Inl f, t) \<longleftrightarrow> (\<exists>e. m s = (Inl e, t) \<and> f = g e)"
  by (auto simp: map_errE_def split: prod.splits sum.splits)

lemma snd_map_errE [simp]: "snd (map_errE g m s) = snd (m s)"
  by (auto simp: map_errE_def split: prod.splits sum.splits)

lemma ignoreE_apply [simp]: "ignoreE m s = (Inr (), snd (m s))"
  by (simp add: ignoreE_def)

lemma keeps_map_errE [kr_frame]: "keeps R m \<Longrightarrow> keeps R (map_errE g m)"
  by (simp add: keeps_def)

lemma keeps_ignoreE [kr_frame]: "keeps R m \<Longrightarrow> keeps R (ignoreE m)"
  by (simp add: keeps_def)

subsection \<open>What a call can touch\<close>

text \<open>
  \<open>same_file p\<close>: the file \<open>p\<close> keeps its content in the final state and in every image in
  between. \<open>same_env\<close>: clocks and creation mode are untouched. \<open>grows\<close>: images are only added.
\<close>

definition grows :: "os \<Rightarrow> os \<Rightarrow> bool" where
  "grows s t \<longleftrightarrow> (\<exists>ds. crash t = crash s @ ds)"

definition new_images :: "os \<Rightarrow> os \<Rightarrow> disk list" where
  "new_images s t = drop (length (crash s)) (crash t)"

definition same_file :: "rstring \<Rightarrow> os \<Rightarrow> os \<Rightarrow> bool" where
  "same_file p s t \<longleftrightarrow>
     files (disk t) p = files (disk s) p \<and>
     (\<exists>ds. crash t = crash s @ ds \<and> (\<forall>d \<in> set ds. files d p = files (disk s) p))"

definition same_env :: "os \<Rightarrow> os \<Rightarrow> bool" where
  "same_env s t \<longleftrightarrow> mono t = mono s \<and> unix t = unix s \<and> new_mode t = new_mode s"

lemma reflp_same_file [simp]: "reflp (same_file p)"
  by (simp add: reflp_def same_file_def)

lemma transp_same_file [simp]: "transp (same_file p)"
  unfolding transp_def same_file_def by fastforce

lemma reflp_same_env [simp]: "reflp same_env"
  by (simp add: reflp_def same_env_def)

lemma transp_same_env [simp]: "transp same_env"
  by (auto simp: transp_def same_env_def)

lemma same_file_new_images:
  "same_file p s t \<Longrightarrow> d \<in> set (new_images s t) \<Longrightarrow> files d p = files (disk s) p"
  by (auto simp: same_file_def new_images_def)

lemma disk_set_file [simp]:
  "files (set_file p f d) q = (if q = p then f else files d q)"
  "dirs (set_file p f d) = dirs d"
  by (simp_all add: set_file_def)

lemma commit_simps [simp]:
  "disk (commit d s) = d" "crash (commit d s) = crash s @ [d]" "faults (commit d s) = faults s"
  "rng (commit d s) = rng s" "mono (commit d s) = mono s" "unix (commit d s) = unix s"
  "new_mode (commit d s) = new_mode s"
  by (simp_all add: commit_def)

lemma stream_file_0: "stream_file p f 0 s = commit (set_file p (Some (f 0)) (disk s)) s"
  by (simp add: stream_file_def)

lemma stream_file_Suc:
  "stream_file p f (Suc k) s =
     (let t = stream_file p f k s in commit (set_file p (Some (f (Suc k))) (disk t)) t)"
  by (simp add: stream_file_def)

lemma stream_file_simps [simp]:
  "faults (stream_file p f k s) = faults s" "rng (stream_file p f k s) = rng s"
  "mono (stream_file p f k s) = mono s" "unix (stream_file p f k s) = unix s"
  "new_mode (stream_file p f k s) = new_mode s"
  "files (disk (stream_file p f k s)) q = (if q = p then Some (f k) else files (disk s) q)"
  "dirs (disk (stream_file p f k s)) = dirs (disk s)"
  by (induction k) (simp_all add: stream_file_0 stream_file_Suc Let_def)

lemma stream_file_images:
  "\<exists>ds. crash (stream_file p f k s) = crash s @ ds \<and>
     (\<forall>d \<in> set ds. dirs d = dirs (disk s) \<and>
        (\<forall>q. q \<noteq> p \<longrightarrow> files d q = files (disk s) q) \<and> (\<exists>i \<le> k. files d p = Some (f i)))"
proof (induction k)
  case 0
  show ?case by (auto simp: stream_file_0)
next
  case (Suc k)
  then obtain ds where ds: "crash (stream_file p f k s) = crash s @ ds"
    "\<forall>d \<in> set ds. dirs d = dirs (disk s) \<and>
        (\<forall>q. q \<noteq> p \<longrightarrow> files d q = files (disk s) q) \<and> (\<exists>i \<le> k. files d p = Some (f i))"
    by blast
  let ?d = "set_file p (Some (f (Suc k))) (disk (stream_file p f k s))"
  have "crash (stream_file p f (Suc k) s) = crash s @ (ds @ [?d])"
    using ds(1) by (simp add: stream_file_Suc Let_def)
  moreover have "\<forall>d \<in> set (ds @ [?d]). dirs d = dirs (disk s) \<and>
        (\<forall>q. q \<noteq> p \<longrightarrow> files d q = files (disk s) q) \<and> (\<exists>i \<le> Suc k. files d p = Some (f i))"
    using ds(2) by (auto simp: le_Suc_eq)
  ultimately show ?case by blast
qed

lemma stream_file_same: "q \<noteq> p \<Longrightarrow> same_file q s (stream_file p f k s)"
  using stream_file_images [of p f k s] by (auto simp: same_file_def)

lemmas os_call_defs =
  fs_is_file_def fs_read_def fs_create_dir_all_def fs_set_dir_mode_def fs_open_trunc_def
  fs_set_mode_def fs_write_all_def fs_sync_all_def fs_copy_def fs_rename_def

lemma with_io_keeps:
  assumes "\<And>s f. R s (s\<lparr>faults := f\<rparr>)" and "transp R"
    and "\<And>s. R s (snd (ok s))" and "\<And>k e s. R s (snd (bad k e s))"
  shows "keeps R (with_io ok bad)"
proof (rule keepsI)
  fix s :: os
  let ?t = "s\<lparr>faults := (\<lambda>n. faults s (Suc n))\<rparr>"
  have "R ?t (snd (with_io ok bad s))"
    using assms(3,4) by (simp add: with_io_def Let_def split: io.split)
  then show "R s (snd (with_io ok bad s))"
    by (rule transpD [OF assms(2) assms(1)])
qed

lemma same_file_oracle [simp]: "same_file p s (s\<lparr>faults := f\<rparr>)"
  by (simp add: same_file_def)

lemma same_file_refl [simp]: "same_file p s s"
  by (simp add: same_file_def)

lemma same_file_commit: "files d p = files (disk s) p \<Longrightarrow> same_file p s (commit d s)"
  by (simp add: same_file_def)

lemma same_env_simps [simp]:
  "same_env s s" "same_env s (s\<lparr>faults := f\<rparr>)" "same_env s (commit d s)"
  "same_env s (stream_file p g k s)"
  by (simp_all add: same_env_def)

lemma calls_same_file [kr_frame]:
  "keeps (same_file q) (fs_read p)"
  "keeps (same_file q) (fs_create_dir_all p)"
  "keeps (same_file q) (fs_set_dir_mode p m)"
  "q \<noteq> p \<Longrightarrow> keeps (same_file q) (fs_open_trunc p)"
  "q \<noteq> p \<Longrightarrow> keeps (same_file q) (fs_set_mode p m)"
  "q \<noteq> p \<Longrightarrow> keeps (same_file q) (fs_write_all p bs)"
  "keeps (same_file q) (fs_sync_all p)"
  "q \<noteq> p' \<Longrightarrow> keeps (same_file q) (fs_copy p p')"
  "q \<noteq> p \<Longrightarrow> q \<noteq> p' \<Longrightarrow> keeps (same_file q) (fs_rename p p')"
  unfolding os_call_defs
  by (rule with_io_keeps;
      auto simp: refuse_def split: option.splits intro: same_file_commit stream_file_same)+

lemma calls_same_env [kr_frame]:
  "keeps same_env (fs_read p)"
  "keeps same_env (fs_create_dir_all p)"
  "keeps same_env (fs_set_dir_mode p m)"
  "keeps same_env (fs_open_trunc p)"
  "keeps same_env (fs_set_mode p m)"
  "keeps same_env (fs_write_all p bs)"
  "keeps same_env (fs_sync_all p)"
  "keeps same_env (fs_copy p p')"
  "keeps same_env (fs_rename p p')"
  unfolding os_call_defs
  by (rule with_io_keeps; auto simp: refuse_def split: option.splits)+

lemma fill_bytes_keeps [kr_frame]:
  "keeps (same_file q) (fill_bytes n)" "keeps same_env (fill_bytes n)"
  by (simp_all add: keeps_def fill_bytes_def same_file_def same_env_def)

lemma fill_bytes_Inr:
  "fill_bytes n s = (Inr bs, t) \<Longrightarrow> length bs = n \<and> bs = map (rng s) [0..<n]"
  by (auto simp: fill_bytes_def)

text \<open>Effects of the successful calls.\<close>

lemma with_io_Inr:
  "with_io ok refuse s = (Inr x, t) \<longleftrightarrow>
     faults s 0 = IoOk \<and> ok (s\<lparr>faults := (\<lambda>n. faults s (Suc n))\<rparr>) = (Inr x, t)"
  by (auto simp: with_io_def Let_def refuse_def split: io.splits)

lemma fs_read_Inr:
  "fs_read p s = (Inr bs, t) \<Longrightarrow>
     t = s\<lparr>faults := (\<lambda>n. faults s (Suc n))\<rparr> \<and> (\<exists>f. files (disk s) p = Some f \<and> content f = bs)"
  by (auto simp: fs_read_def with_io_Inr split: option.splits)

lemma fs_read_ok:
  "faults s 0 = IoOk \<Longrightarrow> files (disk s) p = Some f \<Longrightarrow>
     fs_read p s = (Inr (content f), s\<lparr>faults := (\<lambda>n. faults s (Suc n))\<rparr>)"
  by (simp add: fs_read_def with_io_def)

lemma fs_open_trunc_Inr:
  "fs_open_trunc p s = (Inr u, t) \<Longrightarrow>
     \<exists>m. files (disk t) = (files (disk s))(p \<mapsto> \<lparr>content = [], fmode = m\<rparr>)"
  by (auto simp: fs_open_trunc_def with_io_Inr set_file_def)

lemma fs_write_all_Inr:
  "fs_write_all p bs s = (Inr u, t) \<Longrightarrow>
     \<exists>f. files (disk s) p = Some f \<and> files (disk t) = (files (disk s))(p \<mapsto> f\<lparr>content := bs\<rparr>)"
  by (auto simp: fs_write_all_def with_io_def Let_def fun_eq_iff split: io.splits option.splits)

lemma fs_sync_all_Inr: "fs_sync_all p s = (Inr u, t) \<Longrightarrow> files (disk t) = files (disk s)"
  by (auto simp: fs_sync_all_def with_io_Inr)

lemma fs_rename_Inr:
  "fs_rename p q s = (Inr u, t) \<Longrightarrow>
     \<exists>f. files (disk s) p = Some f \<and> files (disk t) = (files (disk s))(p := None, q \<mapsto> f) \<and>
       crash t = crash s @ [disk t]"
  by (auto simp: fs_rename_def with_io_Inr set_file_def split: option.splits)

lemma fs_rename_Inl: "fs_rename p q s = (Inl e, t) \<Longrightarrow> disk t = disk s \<and> crash t = crash s"
  by (auto simp: fs_rename_def with_io_def Let_def refuse_def split: option.splits io.splits)

text \<open>A run without I/O errors.\<close>

definition reliable :: "os \<Rightarrow> bool" where
  "reliable s \<longleftrightarrow> faults s = (\<lambda>_. IoOk)"

lemma reliable_with_io [simp]: "reliable s \<Longrightarrow> with_io ok bad s = ok s"
proof -
  assume r: "reliable s"
  then have "s\<lparr>faults := (\<lambda>n. faults s (Suc n))\<rparr> = s" "faults s 0 = IoOk"
    by (cases s; simp add: reliable_def)+
  then show ?thesis by (simp only: with_io_def Let_def io.case)
qed

end
