(* ===== verification/KR_Vault.thy ===== *)
theory KR_Vault
  imports KR_Totp KR_Btree KR_Os
begin

text \<open>
  \<open>native/src/vault.rs\<close>: the on-disk format and the unlocked session. First the data and the
  binary header with its parser (a codec in both directions), then the atomic write with its
  temporary file and one-deep backup, then create, unlock, save and rotate. The JSON form of the
  body is third-party code: the two functions of \<open>vault_ext\<close>.
\<close>

subsection \<open>Data\<close>

record Entry =
  e_value :: rstring
  e_user :: "rstring option"
  e_url :: "rstring option"
  e_notes :: "rstring option"
  e_tags :: "rstring list"
  e_totp :: bool
  e_created :: u64
  e_updated :: u64

record Body =
  entries :: "(rstring, Entry) btree"

text \<open>\<open>Debug for Entry\<close>: the fields it shows, in order, and what it shows of them.\<close>

datatype shown = ShowStr rstring | ShowOpt "rstring option" | ShowList "rstring list" | ShowNum u64

definition entry_debug :: "Entry \<Rightarrow> (rstring \<times> shown) list" where
  "entry_debug e =
     [(lit ''value'', ShowStr (lit ''<redacted>'')), (lit ''user'', ShowOpt (e_user e)),
      (lit ''url'', ShowOpt (e_url e)), (lit ''tags'', ShowList (e_tags e)),
      (lit ''created'', ShowNum (e_created e)), (lit ''updated'', ShowNum (e_updated e))]"

lemma entry_debug_redacted: "entry_debug (e\<lparr>e_value := v, e_notes := n\<rparr>) = entry_debug e"
  by (simp add: entry_debug_def)

definition Body_default :: Body where
  "Body_default = \<lparr>entries = []\<rparr>"

definition entry_zeroize :: "Entry \<Rightarrow> Entry" where
  "entry_zeroize e = e\<lparr>e_value := [], e_notes := map_option (\<lambda>_. []) (e_notes e)\<rparr>"

definition body_zeroize :: "Body \<Rightarrow> Body" where
  "body_zeroize b = b\<lparr>entries := bt_map entry_zeroize (entries b)\<rparr>"

record Session =
  body :: Body
  skey :: Key32
  salt :: "byte list"
  params :: KdfParams

lemma session_eta [simp]:
  "\<lparr>body = body s, skey = skey s, salt = salt s, params = params s\<rparr> = (s :: Session)"
  by (cases s) simp

text \<open>What dropping a session leaves in its memory: \<open>Drop for Body\<close> and \<open>Drop for Key32\<close>.\<close>

definition session_drop :: "Session \<Rightarrow> Session" where
  "session_drop s = s\<lparr>body := body_zeroize (body s), skey := key32_drop (skey s)\<rparr>"

record vault_ext = totp_ext +
  body_to_vec :: "Body \<Rightarrow> rstring + byte list"
  body_from_slice :: "byte list \<Rightarrow> rstring + Body"

text \<open>
  What is relied on of the JSON library: a body reads back as itself, and what it reads is a
  well-formed map.
\<close>

definition body_codec :: "'x vault_ext_scheme \<Rightarrow> bool" where
  "body_codec x \<longleftrightarrow>
     (\<forall>b bs. bt_wf (entries b) \<longrightarrow> body_to_vec x b = Inr bs \<longrightarrow> body_from_slice x bs = Inr b) \<and>
     (\<forall>b bs. body_from_slice x bs = Inr b \<longrightarrow> bt_wf (entries b))"

lemma body_codec_read:
  "body_codec x \<Longrightarrow> bt_wf (entries b) \<Longrightarrow> body_to_vec x b = Inr bs \<Longrightarrow> body_from_slice x bs = Inr b"
  unfolding body_codec_def by blast

lemma body_codec_wf: "body_codec x \<Longrightarrow> body_from_slice x bs = Inr b \<Longrightarrow> bt_wf (entries b)"
  unfolding body_codec_def by blast

subsection \<open>Slices and little-endian words\<close>

definition slice :: "nat \<Rightarrow> nat \<Rightarrow> 'a list \<Rightarrow> 'a list" where
  "slice a b xs = take (b - a) (drop a xs)"

definition to_le_bytes :: "u32 \<Rightarrow> byte list" where
  "to_le_bytes w =
     [ucast w, ucast (drop_bit 8 w), ucast (drop_bit 16 w), ucast (drop_bit 24 w)]"

definition from_le_bytes :: "byte list \<Rightarrow> u32" where
  "from_le_bytes bs =
     ucast (bs ! 0) OR push_bit 8 (ucast (bs ! 1)) OR push_bit 16 (ucast (bs ! 2))
     OR push_bit 24 (ucast (bs ! 3))"

text \<open>\<open>raw[a..b].try_into()\<close> into \<open>[u8; 4]\<close> fails unless the slice has four bytes.\<close>

definition try_le_bytes :: "byte list \<Rightarrow> u32 option" where
  "try_le_bytes bs = (if length bs = 4 then Some (from_le_bytes bs) else None)"

lemma slice_append: "a \<le> b \<Longrightarrow> b \<le> c \<Longrightarrow> slice a b xs @ slice b c xs = slice a c xs"
proof -
  assume ab: "a \<le> b" and bc: "b \<le> c"
  have "take (b - a) (drop a xs) @ take (c - b) (drop (b - a) (drop a xs)) = take (c - a) (drop a xs)"
    using ab bc by (simp add: take_add [symmetric] del: drop_drop)
  with ab show ?thesis by (simp add: slice_def)
qed

lemma slice_all: "length xs \<le> b \<Longrightarrow> slice a b xs = drop a xs"
  by (simp add: slice_def)

lemma length_slice [simp]: "b \<le> length xs \<Longrightarrow> length (slice a b xs) = b - a"
  by (simp add: slice_def)

lemma slice_left: "b \<le> length xs \<Longrightarrow> slice a b (xs @ ys) = slice a b xs"
  by (simp add: slice_def)

lemma slice_right: "length xs \<le> a \<Longrightarrow> slice a b (xs @ ys) = slice (a - length xs) (b - length xs) ys"
  by (simp add: slice_def)

lemma le_bytes_roundtrip: "from_le_bytes (to_le_bytes w) = w"
proof (rule bit_word_eqI)
  fix n
  assume "n < LENGTH(32)"
  then consider "n < 8" | "8 \<le> n" "n < 16" | "16 \<le> n" "n < 24" | "24 \<le> n" "n < 32"
    by fastforce
  then show "bit (from_le_bytes (to_le_bytes w)) n = bit w n"
    by cases (auto simp: from_le_bytes_def to_le_bytes_def bit_simps)
qed

lemma le_bytes_onto: "length bs = 4 \<Longrightarrow> to_le_bytes (from_le_bytes bs) = bs"
proof -
  assume "length bs = 4"
  then obtain a b c d where bs: "bs = [a, b, c, d]"
    by (auto simp: length_Suc_conv eval_nat_numeral)
  have "ucast (from_le_bytes bs) = a" "ucast (drop_bit 8 (from_le_bytes bs)) = b"
    "ucast (drop_bit 16 (from_le_bytes bs)) = c" "ucast (drop_bit 24 (from_le_bytes bs)) = d"
    by (rule bit_word_eqI; auto simp: bs from_le_bytes_def bit_simps dest: bit_imp_le_length)+
  then show ?thesis by (simp add: to_le_bytes_def bs)
qed

lemma length_to_le_bytes [simp]: "length (to_le_bytes w) = 4"
  by (simp add: to_le_bytes_def)

interpretation le32: codec to_le_bytes try_le_bytes "\<lambda>_. True"
  by unfold_locales
    (auto simp: try_le_bytes_def le_bytes_roundtrip le_bytes_onto split: if_splits)

subsection \<open>The header\<close>

definition MAGIC :: "byte list" where "MAGIC = [76, 86, 75, 82]" \<comment> \<open>\<open>b"LVKR"\<close>\<close>
definition VERSION :: byte where "VERSION = 1"
definition KDF_ARGON2ID :: byte where "KDF_ARGON2ID = 1"
definition AAD_LEN :: nat where "AAD_LEN = 4 + 1 + 1 + 4 + 4 + 4 + SALT_LEN"
definition HEADER_LEN :: nat where "HEADER_LEN = AAD_LEN + NONCE_LEN"

definition aad :: "KdfParams \<Rightarrow> byte list \<Rightarrow> byte list" where
  "aad p s =
     MAGIC @ [VERSION] @ [KDF_ARGON2ID] @ to_le_bytes (m_cost p) @ to_le_bytes (t_cost p)
     @ to_le_bytes (p_cost p) @ s"

record Header =
  h_params :: KdfParams
  h_salt :: "byte list"
  h_nonce :: "byte list"

definition parse :: "byte list \<Rightarrow> err + (Header \<times> byte list)" where
  "parse raw =
     (if length raw < HEADER_LEN then Inl ETruncated
      else if slice 0 4 raw \<noteq> MAGIC then Inl EBadMagic
      else if raw ! 4 \<noteq> VERSION then Inl (EVersion (raw ! 4))
      else if raw ! 5 \<noteq> KDF_ARGON2ID then Inl (EKdfId (raw ! 5))
      else
        let m = from_le_bytes (slice 6 10 raw);
            t = from_le_bytes (slice 10 14 raw);
            p = from_le_bytes (slice 14 18 raw);
            s = slice 18 34 raw;
            n = slice AAD_LEN HEADER_LEN raw
        in Inr (\<lparr>h_params = \<lparr>m_cost = m, t_cost = t, p_cost = p\<rparr>, h_salt = s, h_nonce = n\<rparr>,
                drop HEADER_LEN raw))"

text \<open>The file a header and a ciphertext stand for, as \<open>write\<close> lays it out.\<close>

fun file_image :: "Header \<times> byte list \<Rightarrow> byte list" where
  "file_image (h, c) = aad (h_params h) (h_salt h) @ h_nonce h @ c"

fun header_ok :: "Header \<times> byte list \<Rightarrow> bool" where
  "header_ok (h, c) \<longleftrightarrow> length (h_salt h) = SALT_LEN \<and> length (h_nonce h) = NONCE_LEN"

definition try_parse :: "byte list \<Rightarrow> (Header \<times> byte list) option" where
  "try_parse raw = (case parse raw of Inl _ \<Rightarrow> None | Inr r \<Rightarrow> Some r)"

lemmas header_sizes = AAD_LEN_def HEADER_LEN_def SALT_LEN_def NONCE_LEN_def

lemma length_aad [simp]: "length s = SALT_LEN \<Longrightarrow> length (aad p s) = AAD_LEN"
  by (simp add: aad_def MAGIC_def header_sizes)

lemma parse_image:
  assumes "header_ok (h, c)"
  shows "parse (file_image (h, c)) = Inr (h, c)"
proof -
  obtain s n where h: "h = \<lparr>h_params = h_params h, h_salt = s, h_nonce = n\<rparr>"
    and len: "length s = 16" "length n = 24"
    using assms by (cases h) (simp add: header_sizes)
  let ?m = "to_le_bytes (m_cost (h_params h))" and ?t = "to_le_bytes (t_cost (h_params h))"
    and ?p = "to_le_bytes (p_cost (h_params h))"
  define raw where "raw = [76, 86, 75, 82, 1, 1] @ ?m @ ?t @ ?p @ s @ n @ c"
  have img: "file_image (h, c) = raw"
    by (subst h) (simp add: raw_def aad_def MAGIC_def VERSION_def KDF_ARGON2ID_def)
  have "slice 6 10 raw = ?m" "slice 10 14 raw = ?t" "slice 14 18 raw = ?p" "slice 18 34 raw = s"
    "slice 34 58 raw = n" "drop 58 raw = c" "slice 0 4 raw = MAGIC" "raw ! 4 = 1" "raw ! 5 = 1"
    "58 \<le> length raw"
    by (simp_all add: raw_def len slice_def MAGIC_def)
  then have "parse raw = Inr (\<lparr>h_params = h_params h, h_salt = s, h_nonce = n\<rparr>, c)"
    by (simp add: parse_def header_sizes VERSION_def KDF_ARGON2ID_def Let_def le_bytes_roundtrip)
  then show ?thesis using h img by simp
qed

lemma parse_Inr:
  assumes "parse raw = Inr (h, c)"
  shows "header_ok (h, c) \<and> file_image (h, c) = raw"
proof -
  from assms have len: "58 \<le> length raw" and magic: "slice 0 4 raw = MAGIC"
    and ver: "raw ! 4 = VERSION" and kdf: "raw ! 5 = KDF_ARGON2ID"
    and h: "h = \<lparr>h_params = \<lparr>m_cost = from_le_bytes (slice 6 10 raw),
                 t_cost = from_le_bytes (slice 10 14 raw),
                 p_cost = from_le_bytes (slice 14 18 raw)\<rparr>,
               h_salt = slice 18 34 raw, h_nonce = slice 34 58 raw\<rparr>"
    and c: "c = drop 58 raw"
    by (auto simp: parse_def header_sizes Let_def split: if_splits)
  have one: "slice i (Suc i) raw = [raw ! i]" if "i < length raw" for i
    using that by (simp add: slice_def take_Suc_conv_app_nth Cons_nth_drop_Suc [symmetric])
  have "file_image (h, c) = slice 0 4 raw @ slice 4 5 raw @ slice 5 6 raw @ slice 6 10 raw
      @ slice 10 14 raw @ slice 14 18 raw @ slice 18 34 raw @ slice 34 58 raw @ drop 58 raw"
    using len magic ver kdf one [of 4] one [of 5] by (simp add: h c aad_def le_bytes_onto)
  also have "\<dots> = slice 0 58 raw @ drop 58 raw"
    by (simp add: slice_append append_assoc [symmetric] del: append_assoc)
  also have "\<dots> = raw" by (simp add: slice_def)
  finally show ?thesis using len by (simp add: h header_sizes)
qed

interpretation hdr: codec file_image try_parse header_ok
proof
  fix x :: "Header \<times> byte list" and y
  show "header_ok x \<Longrightarrow> try_parse (file_image x) = Some x"
    by (cases x) (simp add: try_parse_def parse_image del: file_image.simps)
  show "try_parse y = Some x \<Longrightarrow> file_image x = y \<and> header_ok x"
    using parse_Inr [of y "fst x" "snd x"]
    by (simp add: try_parse_def split: sum.splits)
qed

subsection \<open>The atomic write\<close>

record vpath =
  v_file :: rstring
  v_dir :: "rstring option" \<comment> \<open>\<open>path.parent()\<close>\<close>

definition vault_exists :: "vpath \<Rightarrow> os \<Rightarrow> bool" where
  "vault_exists p s \<longleftrightarrow> fs_is_file (v_file p) s"

definition tmp_path :: "vpath \<Rightarrow> rstring" where
  "tmp_path p = v_file p @ lit ''.tmp''"

definition bak_path :: "vpath \<Rightarrow> rstring" where
  "bak_path p = v_file p @ lit ''.bak''"

definition set_dir_private :: "rstring \<Rightarrow> (os, err, unit) act" where
  "set_dir_private d = ignoreE (fs_set_dir_mode d 448)" \<comment> \<open>\<open>0o700\<close>\<close>

definition set_file_private :: "rstring \<Rightarrow> (os, err, unit) act" where
  "set_file_private f = ignoreE (fs_set_mode f 384)" \<comment> \<open>\<open>0o600\<close>\<close>

definition make_parent :: "vpath \<Rightarrow> (os, err, unit) act" where
  "make_parent p =
     (case v_dir p of None \<Rightarrow> returnE ()
      | Some d \<Rightarrow> bindE (map_errE EMkdir (fs_create_dir_all d)) (\<lambda>_. set_dir_private d))"

definition write_tmp :: "rstring \<Rightarrow> byte list \<Rightarrow> (os, err, unit) act" where
  "write_tmp tmp out =
     bindE (map_errE EOpenTmp (fs_open_trunc tmp)) (\<lambda>_.
     bindE (set_file_private tmp) (\<lambda>_.
     bindE (map_errE EWriteTmp (fs_write_all tmp out)) (\<lambda>_.
     map_errE EFsync (fs_sync_all tmp))))"

definition backup :: "vpath \<Rightarrow> (os, err, unit) act" where
  "backup p s =
     (if fs_is_file (v_file p) s then ignoreE (fs_copy (v_file p) (bak_path p)) s
      else (Inr (), s))"

definition vault_write ::
  "'x vault_ext_scheme \<Rightarrow> vpath \<Rightarrow> Body \<Rightarrow> Key32 \<Rightarrow> byte list \<Rightarrow> KdfParams \<Rightarrow> (os, err, unit) act" where
  "vault_write x p b key s ps =
     bindE (liftE (map_errS ESerialize (body_to_vec x b))) (\<lambda>json.
     bindE (fill_bytes NONCE_LEN) (\<lambda>nonce.
     let a = aad ps s in
     bindE (liftE (seal x (inner key) nonce a json)) (\<lambda>ciphertext.
     let out = a @ nonce @ ciphertext in
     bindE (make_parent p) (\<lambda>_.
     bindE (write_tmp (tmp_path p) out) (\<lambda>_.
     bindE (backup p) (\<lambda>_.
     map_errE EReplace (fs_rename (tmp_path p) (v_file p))))))))"

subsection \<open>Create, unlock, save, rotate\<close>

definition vault_create ::
  "'x vault_ext_scheme \<Rightarrow> vpath \<Rightarrow> byte list \<Rightarrow> KdfParams \<Rightarrow> (os, err, Session) act" where
  "vault_create x p password ps os =
     (if vault_exists p os then (Inl (EVaultExists (v_file p)), os)
      else bindE (fill_bytes SALT_LEN) (\<lambda>s.
           bindE (liftE (derive_key x password s ps)) (\<lambda>key.
           bindE (vault_write x p Body_default key s ps) (\<lambda>_.
           returnE \<lparr>body = Body_default, skey = key, salt = s, params = ps\<rparr>))) os)"

text \<open>What \<open>unlock\<close> makes of the bytes it has read.\<close>

definition decode_vault ::
  "'x vault_ext_scheme \<Rightarrow> byte list \<Rightarrow> byte list \<Rightarrow> err + Session" where
  "decode_vault x password raw =
     bindS (parse raw) (\<lambda>(h, ciphertext).
     bindS (derive_key x password (h_salt h) (h_params h)) (\<lambda>key.
     let a = aad (h_params h) (h_salt h) in
     bindS (aead_open x (inner key) (h_nonce h) a ciphertext) (\<lambda>plain.
     bindS (map_errS EBody (body_from_slice x plain)) (\<lambda>b.
     Inr \<lparr>body = b, skey = key, salt = h_salt h, params = h_params h\<rparr>))))"

definition vault_unlock ::
  "'x vault_ext_scheme \<Rightarrow> vpath \<Rightarrow> byte list \<Rightarrow> (os, err, Session) act" where
  "vault_unlock x p password =
     bindE (map_errE ERead (fs_read (v_file p))) (\<lambda>raw. liftE (decode_vault x password raw))"

definition vault_save :: "'x vault_ext_scheme \<Rightarrow> vpath \<Rightarrow> Session \<Rightarrow> (os, err, unit) act" where
  "vault_save x p s = vault_write x p (body s) (skey s) (salt s) (params s)"

definition vault_rotate ::
  "'x vault_ext_scheme \<Rightarrow> vpath \<Rightarrow> byte list \<Rightarrow> byte list \<Rightarrow> KdfParams \<Rightarrow> (os, err, Session) act" where
  "vault_rotate x p old_password new_password new_params =
     bindE (vault_unlock x p old_password) (\<lambda>current.
     bindE (fill_bytes SALT_LEN) (\<lambda>s.
     bindE (liftE (derive_key x new_password s new_params)) (\<lambda>key.
     let b = \<lparr>entries = entries (body current)\<rparr> in
     bindE (vault_write x p b key s new_params) (\<lambda>_.
     returnE \<lparr>body = b, skey = key, salt = s, params = new_params\<rparr>))))"

subsection \<open>Sealing and opening an image\<close>

definition session_ok :: "Session \<Rightarrow> bool" where
  "session_ok s \<longleftrightarrow>
     length (salt s) = SALT_LEN \<and> length (inner (skey s)) = KEY_LEN \<and> bt_wf (entries (body s))"

text \<open>The session was opened or created with this password.\<close>

definition keyed_by :: "'x vault_ext_scheme \<Rightarrow> byte list \<Rightarrow> Session \<Rightarrow> bool" where
  "keyed_by x pw s \<longleftrightarrow> derive_key x pw (salt s) (params s) = Inr (skey s)"

text \<open>\<open>raw\<close> is what \<open>write\<close> puts on disk for the session's body under some nonce.\<close>

definition seals :: "'x vault_ext_scheme \<Rightarrow> Session \<Rightarrow> byte list \<Rightarrow> bool" where
  "seals x s raw \<longleftrightarrow>
     (\<exists>json nonce c. body_to_vec x (body s) = Inr json \<and> length nonce = NONCE_LEN \<and>
        aead_encrypt x (inner (skey s)) nonce (aad (params s) (salt s)) json = Some c \<and>
        raw = aad (params s) (salt s) @ nonce @ c)"

lemma aad_inject:
  "length s = SALT_LEN \<Longrightarrow> length t = SALT_LEN \<Longrightarrow> aad p s = aad q t \<longleftrightarrow> p = q \<and> s = t"
proof -
  assume len: "length s = SALT_LEN" "length t = SALT_LEN"
  let ?h = "\<lambda>p s. \<lparr>h_params = p, h_salt = s, h_nonce = replicate NONCE_LEN 0\<rparr>"
  have "file_image (?h p s, []) = file_image (?h q t, []) \<longleftrightarrow> ?h p s = ?h q t"
    using hdr.enc_inject [of "(?h p s, [])" "(?h q t, [])"] len by simp
  then show ?thesis by simp
qed

lemma decode_sealed:
  assumes "aead_ok x" "body_codec x" "session_ok s" "keyed_by x pw s" "seals x s raw"
  shows "decode_vault x pw raw = Inr s"
proof -
  from assms(5) obtain json nonce c where
    json: "body_to_vec x (body s) = Inr json" and n: "length nonce = NONCE_LEN"
    and c: "aead_encrypt x (inner (skey s)) nonce (aad (params s) (salt s)) json = Some c"
    and raw: "raw = aad (params s) (salt s) @ nonce @ c"
    by (auto simp: seals_def)
  let ?h = "\<lparr>h_params = params s, h_salt = salt s, h_nonce = nonce\<rparr>"
  have "parse raw = Inr (?h, c)"
    using parse_image [of ?h c] assms(3) n by (simp add: raw session_ok_def)
  moreover have "body_from_slice x json = Inr (body s)"
    using body_codec_read [OF assms(2) _ json] assms(3) by (simp add: session_ok_def)
  ultimately show ?thesis
    using assms(4) aead_okD [OF assms(1) c]
    by (simp add: decode_vault_def keyed_by_def aead_open_def)
qed

lemma decode_Inr:
  assumes "decode_vault x pw raw = Inr s"
  obtains nonce plain c where "raw = aad (params s) (salt s) @ nonce @ c"
    and "length (salt s) = SALT_LEN" and "length nonce = NONCE_LEN" and "keyed_by x pw s"
    and "aead_decrypt x (inner (skey s)) nonce (aad (params s) (salt s)) c = Some plain"
    and "body_from_slice x plain = Inr (body s)"
proof -
  from assms obtain h c key plain b where parse: "parse raw = Inr (h, c)"
    and key: "derive_key x pw (h_salt h) (h_params h) = Inr key"
    and plain: "aead_decrypt x (inner key) (h_nonce h) (aad (h_params h) (h_salt h)) c = Some plain"
    and b: "body_from_slice x plain = Inr b"
    and s: "s = \<lparr>body = b, skey = key, salt = h_salt h, params = h_params h\<rparr>"
    by (auto simp: decode_vault_def bindS_eq_Inr Let_def)
  have "raw = aad (params s) (salt s) @ h_nonce h @ c" "length (salt s) = SALT_LEN"
    "length (h_nonce h) = NONCE_LEN"
    using parse_Inr [OF parse] by (simp_all add: s)
  moreover have "keyed_by x pw s" using key by (simp add: keyed_by_def s)
  moreover have
    "aead_decrypt x (inner (skey s)) (h_nonce h) (aad (params s) (salt s)) c = Some plain"
    "body_from_slice x plain = Inr (body s)"
    using plain b by (simp_all add: s)
  ultimately show thesis by (rule that)
qed

lemma decode_session_ok:
  assumes "kdf_len x" "body_codec x" "decode_vault x pw raw = Inr s"
  shows "session_ok s \<and> keyed_by x pw s"
proof -
  obtain nonce plain c where "length (salt s) = SALT_LEN" and k: "keyed_by x pw s"
    and b: "body_from_slice x plain = Inr (body s)"
    using assms(3) by (rule decode_Inr)
  moreover have "bt_wf (entries (body s))" using assms(2) b by (rule body_codec_wf)
  moreover from k have "length (inner (skey s)) = KEY_LEN"
    using derive_key_len [OF assms(1)] unfolding keyed_by_def by blast
  ultimately show ?thesis by (simp add: session_ok_def)
qed

lemma decode_wrong_key:
  assumes "aead_auth x" "kdf_len x" "session_ok s" "seals x s raw"
    and "derive_key x pw (salt s) (params s) = Inr k" "inner k \<noteq> inner (skey s)"
  shows "decode_vault x pw raw = Inl EWrongPassword"
proof -
  from assms(4) obtain json nonce c where n: "length nonce = NONCE_LEN"
    and c: "aead_encrypt x (inner (skey s)) nonce (aad (params s) (salt s)) json = Some c"
    and raw: "raw = aad (params s) (salt s) @ nonce @ c"
    by (auto simp: seals_def)
  let ?h = "\<lparr>h_params = params s, h_salt = salt s, h_nonce = nonce\<rparr>"
  have "parse raw = Inr (?h, c)"
    using parse_image [of ?h c] assms(3) n by (simp add: raw session_ok_def)
  moreover have "aead_decrypt x (inner k) nonce (aad (params s) (salt s)) c = None"
    using aead_authD [OF assms(1) c] assms(3,6) derive_key_len [OF assms(2,5)]
    by (simp add: session_ok_def)
  ultimately show ?thesis
    using assms(5) by (simp add: decode_vault_def aead_open_def)
qed

text \<open>Any change of the header, the ciphertext kept, makes the file unusable with any password.\<close>

lemma decode_tampered_header:
  assumes "aead_auth x" "kdf_len x" "session_ok s" "seals x s (hb @ c)"
    and "length hb = HEADER_LEN" "length hb' = HEADER_LEN" "hb' \<noteq> hb"
  shows "decode_vault x pw (hb' @ c) \<noteq> Inr t"
proof
  assume dec: "decode_vault x pw (hb' @ c) = Inr t"
  from assms(4,5) obtain json nonce where n: "length nonce = NONCE_LEN"
    and c: "aead_encrypt x (inner (skey s)) nonce (aad (params s) (salt s)) json = Some c"
    and hb: "hb = aad (params s) (salt s) @ nonce"
    using assms(3) by (auto simp: seals_def session_ok_def HEADER_LEN_def append_eq_append_conv
        simp flip: append_assoc)
  from dec obtain nonce' plain c' where hb': "hb' @ c = aad (params t) (salt t) @ nonce' @ c'"
    and t: "length (salt t) = SALT_LEN" "length nonce' = NONCE_LEN" "keyed_by x pw t"
    and plain: "aead_decrypt x (inner (skey t)) nonce' (aad (params t) (salt t)) c' = Some plain"
    by (rule decode_Inr)
  from hb' t assms(6) have eq: "hb' = aad (params t) (salt t) @ nonce'" "c' = c"
    by (auto simp: HEADER_LEN_def append_eq_append_conv simp flip: append_assoc)
  have "nonce' \<noteq> nonce \<or> aad (params t) (salt t) \<noteq> aad (params s) (salt s)"
    using assms(7) hb eq by auto
  then have "aead_decrypt x (inner (skey t)) nonce' (aad (params t) (salt t)) c = None"
    using aead_authD [OF assms(1) c] assms(2,3) t n
    by (auto simp: session_ok_def keyed_by_def dest: derive_key_len)
  with plain eq show False by simp
qed

end
