(* ===== verification/KR_Rpc.thy ===== *)
theory KR_Rpc
  imports KR_Vault
begin

text \<open>
  \<open>native/src/rpc.rs\<close> and the JSON values the daemon exchanges. \<open>json\<close> is \<open>serde_json::Value\<close>;
  its text form and parser, and the decoding of request parameters into the structs of
  \<open>server.rs\<close>, are third-party (derived) code: the fields of \<open>rpc_ext\<close>. What the daemon relies on
  of them is \<open>json_codec\<close>, \<open>request_codec\<close> and \<open>serde_name\<close>.
\<close>

subsection \<open>Values\<close>

datatype json =
    JNull | JBool bool | JInt int | JFloat rstring | JStr rstring
  | JArr "json list" | JObj "(rstring \<times> json) list"

abbreviation JNat :: "'a::len word \<Rightarrow> json" where
  "JNat n \<equiv> JInt (uint n)"

fun json_get :: "rstring \<Rightarrow> json \<Rightarrow> json option" where
  "json_get k (JObj m) = map_of m k"
| "json_get k _ = None"

text \<open>\<open>v[key] = value\<close> for a key the object does not have.\<close>

fun json_put :: "rstring \<Rightarrow> json \<Rightarrow> json \<Rightarrow> json" where
  "json_put k v (JObj m) = JObj (m @ [(k, v)])"
| "json_put k v j = j"

fun as_bool :: "json \<Rightarrow> bool option" where
  "as_bool (JBool b) = Some b"
| "as_bool _ = None"

fun as_str :: "json \<Rightarrow> rstring option" where
  "as_str (JStr s) = Some s"
| "as_str _ = None"

fun as_u64 :: "json \<Rightarrow> int option" where
  "as_u64 (JInt n) = (if 0 \<le> n \<and> n < 2 ^ 64 then Some n else None)"
| "as_u64 _ = None"

text \<open>
  An object is written here as its fields in the order the source inserts them; \<open>serde_json\<close> keeps
  them in a \<open>BTreeMap\<close>, so what is read back is \<open>canon\<close>: each object's fields sorted by key.
\<close>

definition bt_of_list :: "('k::linorder \<times> 'v) list \<Rightarrow> ('k, 'v) btree" where
  "bt_of_list m = fold (\<lambda>(k, v). bt_insert k v) m []"

fun canon :: "json \<Rightarrow> json" where
  "canon (JArr l) = JArr (map canon l)"
| "canon (JObj m) = JObj (bt_of_list (map (\<lambda>(k, v). (k, canon v)) m))"
| "canon j = j"

lemma bt_get_map_of: "bt_get m k = map_of m k"
  by (induction m k rule: bt_get.induct) auto

lemma map_of_bt_fold:
  "distinct (map fst m) \<Longrightarrow>
   map_of (fold (\<lambda>(k, v). bt_insert k v) m t) k = (case map_of m k of Some v \<Rightarrow> Some v | None \<Rightarrow> map_of t k)"
proof (induction m arbitrary: t)
  case (Cons x m)
  obtain a v where x: "x = (a, v)" by (cases x)
  have "map_of m a = None" using Cons.prems x by (simp add: map_of_eq_None_iff)
  with Cons x show ?case
    using bt_get_insert [of a v t k] by (auto simp: bt_get_map_of split: option.split)
qed simp

lemma map_of_bt_of_list: "distinct (map fst m) \<Longrightarrow> map_of (bt_of_list m) k = map_of m k"
  by (simp add: bt_of_list_def map_of_bt_fold split: option.split)

lemma json_get_canon:
  "distinct (map fst m) \<Longrightarrow> json_get k (canon (JObj m)) = map_option canon (map_of m k)"
  by (simp add: map_of_bt_of_list comp_def case_prod_beta map_of_map)

definition json_opt :: "rstring option \<Rightarrow> json" where
  "json_opt v = (case v of None \<Rightarrow> JNull | Some s \<Rightarrow> JStr s)"

subsection \<open>Requests and their parameters\<close>

record Request =
  r_id :: u64
  r_method :: rstring
  r_params :: json

record PasswordParam =
  pp_password :: rstring

record RotateParam =
  rp_old :: rstring
  rp_new :: rstring

record NameParam =
  np_name :: rstring
  np_wait :: bool

record RenameParam =
  rn_from :: rstring
  rn_to :: rstring
  rn_wait :: bool

record MetaIn =
  mi_user :: "rstring option"
  mi_url :: "rstring option"
  mi_notes :: "rstring option"
  mi_tags :: "rstring list option"
  mi_totp :: "bool option"

record SetParam =
  sp_name :: rstring
  sp_value :: "rstring option"
  sp_meta :: "MetaIn option"
  sp_wait :: bool

record WaitParam =
  wp_wait :: bool

record GenerateParam =
  gp_length :: "nat option"
  gp_symbols :: "bool option"
  gp_store_as :: "rstring option"

definition default_true :: bool where
  "default_true = True"

definition WaitParam_default :: WaitParam where
  "WaitParam_default = \<lparr>wp_wait = True\<rparr>"

definition GenerateParam_default :: GenerateParam where
  "GenerateParam_default = \<lparr>gp_length = None, gp_symbols = None, gp_store_as = None\<rparr>"

subsection \<open>The third-party functions\<close>

record rpc_ext = vault_ext +
  json_text :: "json \<Rightarrow> rstring"
  json_parse :: "rstring \<Rightarrow> json option"
  request_parse :: "rstring \<Rightarrow> Request option"
  de_password :: "json \<Rightarrow> rstring + PasswordParam"
  de_rotate :: "json \<Rightarrow> rstring + RotateParam"
  de_name :: "json \<Rightarrow> rstring + NameParam"
  de_rename :: "json \<Rightarrow> rstring + RenameParam"
  de_set :: "json \<Rightarrow> rstring + SetParam"
  de_wait :: "json \<Rightarrow> rstring + WaitParam"
  de_generate :: "json \<Rightarrow> rstring + GenerateParam"

subsection \<open>Envelopes\<close>

definition PROTO :: u32 where "PROTO = 1"

definition ok_value :: "u64 \<Rightarrow> json \<Rightarrow> json" where
  "ok_value i r = JObj [(lit ''id'', JNat i), (lit ''ok'', JBool True), (lit ''result'', r)]"

definition err_value :: "u64 \<Rightarrow> rstring \<Rightarrow> json" where
  "err_value i e = JObj [(lit ''id'', JNat i), (lit ''ok'', JBool False), (lit ''error'', JStr e)]"

definition note_value :: "rstring \<Rightarrow> json \<Rightarrow> json" where
  "note_value m p = JObj [(lit ''method'', JStr m), (lit ''params'', p)]"

definition response_ok :: "'x rpc_ext_scheme \<Rightarrow> u64 \<Rightarrow> json \<Rightarrow> rstring" where
  "response_ok x i r = json_text x (ok_value i r)"

definition response_err :: "'x rpc_ext_scheme \<Rightarrow> u64 \<Rightarrow> rstring \<Rightarrow> rstring" where
  "response_err x i e = json_text x (err_value i e)"

definition notification :: "'x rpc_ext_scheme \<Rightarrow> rstring \<Rightarrow> json \<Rightarrow> rstring" where
  "notification x m p = json_text x (note_value m p)"

subsection \<open>What is relied on\<close>

text \<open>
  The text of a value is one line (the writer is the compact one) without white space at its ends, is
  valid Unicode, and parses back to the value, its objects' fields in key order.
\<close>

definition json_codec :: "'x rpc_ext_scheme \<Rightarrow> bool" where
  "json_codec x \<longleftrightarrow>
     (\<forall>v. json_parse x (json_text x v) = Some (canon v)) \<and>
     (\<forall>v. 10 \<notin> set (json_text x v) \<and> trim (json_text x v) = json_text x v \<and> json_text x v \<noteq> [] \<and>
       list_all scalar (json_text x v))"

text \<open>
  A request object with the three fields of \<open>Request\<close> parses to them.
\<close>

definition request_value :: "u64 \<Rightarrow> rstring \<Rightarrow> json \<Rightarrow> json" where
  "request_value i m p = JObj [(lit ''id'', JNat i), (lit ''method'', JStr m), (lit ''params'', p)]"

definition request_codec :: "'x rpc_ext_scheme \<Rightarrow> bool" where
  "request_codec x \<longleftrightarrow>
     (\<forall>i m p. request_parse x (json_text x (request_value i m p)) =
        Some \<lparr>r_id = i, r_method = m, r_params = canon p\<rparr>)"

text \<open>
  The derived decoders on parameter objects: fields are read by name, a missing \<open>wait\<close> takes
  \<open>default_true\<close>, missing optional fields are absent.
\<close>

definition serde_name :: "'x rpc_ext_scheme \<Rightarrow> bool" where
  "serde_name x \<longleftrightarrow>
     (\<forall>m n. distinct (map fst m) \<and> map_of m (lit ''name'') = Some (JStr n) \<longrightarrow>
        (map_of m (lit ''wait'') = None \<longrightarrow>
           de_name x (JObj m) = Inr \<lparr>np_name = n, np_wait = default_true\<rparr>) \<and>
        (\<forall>b. map_of m (lit ''wait'') = Some (JBool b) \<longrightarrow>
           de_name x (JObj m) = Inr \<lparr>np_name = n, np_wait = b\<rparr>))"

definition serde_set :: "'x rpc_ext_scheme \<Rightarrow> bool" where
  "serde_set x \<longleftrightarrow>
     (\<forall>m n v b. distinct (map fst m) \<and> map_of m (lit ''name'') = Some (JStr n) \<and>
        map_of m (lit ''value'') = Some (JStr v) \<and> map_of m (lit ''wait'') = Some (JBool b) \<longrightarrow>
        (map_of m (lit ''meta'') = None \<longrightarrow>
           de_set x (JObj m) = Inr \<lparr>sp_name = n, sp_value = Some v, sp_meta = None, sp_wait = b\<rparr>) \<and>
        (\<forall>u. map_of m (lit ''meta'') = Some (JObj [(lit ''user'', JStr u)]) \<longrightarrow>
           de_set x (JObj m) = Inr \<lparr>sp_name = n, sp_value = Some v,
             sp_meta = Some \<lparr>mi_user = Some u, mi_url = None, mi_notes = None, mi_tags = None,
                             mi_totp = None\<rparr>, sp_wait = b\<rparr>))"

lemma serde_nameD:
  "serde_name x \<Longrightarrow> distinct (map fst m) \<Longrightarrow> map_of m (lit ''name'') = Some (JStr n) \<Longrightarrow>
   map_of m (lit ''wait'') = Some (JBool b) \<Longrightarrow> de_name x (JObj m) = Inr \<lparr>np_name = n, np_wait = b\<rparr>"
  unfolding serde_name_def by blast

lemma serde_setD:
  assumes "serde_set x" "distinct (map fst m)" "map_of m (lit ''name'') = Some (JStr n)"
    and "map_of m (lit ''value'') = Some (JStr v)" "map_of m (lit ''wait'') = Some (JBool b)"
  shows "map_of m (lit ''meta'') = None \<Longrightarrow>
      de_set x (JObj m) = Inr \<lparr>sp_name = n, sp_value = Some v, sp_meta = None, sp_wait = b\<rparr>"
    and "map_of m (lit ''meta'') = Some (JObj [(lit ''user'', JStr u)]) \<Longrightarrow>
      de_set x (JObj m) = Inr \<lparr>sp_name = n, sp_value = Some v,
        sp_meta = Some \<lparr>mi_user = Some u, mi_url = None, mi_notes = None, mi_tags = None, mi_totp = None\<rparr>,
        sp_wait = b\<rparr>"
  using assms unfolding serde_set_def by blast+

lemma bt_of_list_wf: "bt_wf (bt_of_list m)"
proof -
  have "bt_wf t \<Longrightarrow> bt_wf (fold (\<lambda>(k, v). bt_insert k v) m t)" for t
    by (induction m arbitrary: t) (auto simp: bt_wf_insert)
  then show ?thesis by (simp add: bt_of_list_def)
qed

lemma distinct_bt_of_list: "distinct (map fst (bt_of_list m))"
  using bt.distinct_keys [OF bt_of_list_wf] by (simp add: bt_keys_def)

lemma canon_single [simp]: "canon (JObj [(k, JStr s)]) = JObj [(k, JStr s)]"
  by (simp add: bt_of_list_def)

lemma json_codecD: "json_codec x \<Longrightarrow> json_parse x (json_text x v) = Some (canon v)"
  by (simp add: json_codec_def)

lemma json_text_inject: "json_codec x \<Longrightarrow> json_text x v = json_text x w \<Longrightarrow> canon v = canon w"
  by (metis json_codecD option.inject)

lemma json_get_envelopes [simp]:
  "json_get (lit ''id'') (ok_value i r) = Some (JNat i)"
  "json_get (lit ''ok'') (ok_value i r) = Some (JBool True)"
  "json_get (lit ''result'') (ok_value i r) = Some r"
  "json_get (lit ''id'') (err_value i e) = Some (JNat i)"
  "json_get (lit ''ok'') (err_value i e) = Some (JBool False)"
  "json_get (lit ''error'') (err_value i e) = Some (JStr e)"
  "json_get (lit ''id'') (note_value m p) = None"
  "json_get (lit ''method'') (note_value m p) = Some (JStr m)"
  by (simp_all add: ok_value_def err_value_def note_value_def)

lemma json_get_canon_envelopes [simp]:
  "json_get (lit ''id'') (canon (ok_value i r)) = Some (JNat i)"
  "json_get (lit ''ok'') (canon (ok_value i r)) = Some (JBool True)"
  "json_get (lit ''result'') (canon (ok_value i r)) = Some (canon r)"
  "json_get (lit ''id'') (canon (err_value i e)) = Some (JNat i)"
  "json_get (lit ''ok'') (canon (err_value i e)) = Some (JBool False)"
  "json_get (lit ''error'') (canon (err_value i e)) = Some (JStr e)"
  "json_get (lit ''id'') (canon (note_value m p)) = None"
  "json_get (lit ''method'') (canon (note_value m p)) = Some (JStr m)"
  "json_get (lit ''params'') (canon (note_value m p)) = Some (canon p)"
  by (simp_all add: ok_value_def err_value_def note_value_def json_get_canon del: canon.simps(2))

text \<open>A client tells the three kinds of line apart: only responses carry an \<open>id\<close>.\<close>

lemma envelopes_distinct:
  assumes "json_codec x"
  shows "response_ok x i r \<noteq> notification x m p"
    and "response_err x i e \<noteq> notification x m p"
    and "response_ok x i r \<noteq> response_err x j e"
proof -
  note inj = json_text_inject [OF assms, THEN arg_cong [where f = "json_get k" for k]]
  show "response_ok x i r \<noteq> notification x m p"
    using inj [of "ok_value i r" "note_value m p" "lit ''id''"]
    by (auto simp: response_ok_def notification_def)
  show "response_err x i e \<noteq> notification x m p"
    using inj [of "err_value i e" "note_value m p" "lit ''id''"]
    by (auto simp: response_err_def notification_def)
  show "response_ok x i r \<noteq> response_err x j e"
    using inj [of "ok_value i r" "err_value j e" "lit ''ok''"]
    by (auto simp: response_ok_def response_err_def)
qed

lemma notification_inject:
  "json_codec x \<Longrightarrow> notification x m p = notification x n q \<Longrightarrow> m = n \<and> canon p = canon q"
  unfolding notification_def
  by (metis json_get_canon_envelopes(8,9) json_text_inject json.inject(4) option.inject)

end
