(* ===== verification/KR_VaultWrite.thy ===== *)
theory KR_VaultWrite
  imports KR_Vault
begin

text \<open>
  The guarantees of \<open>vault.rs\<close>'s file operations: what every step of a write leaves alone, the
  outcome of a write (all of it or nothing, in every intermediate disk image), and the effect of
  create, unlock, save and rotate on the file and on the session.
\<close>

subsection \<open>Frame of the write\<close>

lemma paths_distinct [simp]:
  "tmp_path p \<noteq> v_file p" "v_file p \<noteq> tmp_path p"
  "bak_path p \<noteq> v_file p" "v_file p \<noteq> bak_path p"
  "tmp_path p \<noteq> bak_path p" "bak_path p \<noteq> tmp_path p"
  by (simp_all add: tmp_path_def bak_path_def)

lemma liftE_keeps [kr_frame]: "reflp R \<Longrightarrow> keeps R (liftE r)"
  by (simp add: keeps_def reflpD)

lemma make_parent_keeps [kr_frame]:
  "keeps (same_file q) (make_parent p)" "keeps same_env (make_parent p)"
  by (auto simp: make_parent_def set_dir_private_def split: option.split intro!: kr_frame)

lemma write_tmp_keeps [kr_frame]:
  "q \<noteq> tmp \<Longrightarrow> keeps (same_file q) (write_tmp tmp out)" "keeps same_env (write_tmp tmp out)"
  by (auto simp: write_tmp_def set_file_private_def intro!: kr_frame)

lemma backup_keeps [kr_frame]:
  "q \<noteq> bak_path p \<Longrightarrow> keeps (same_file q) (backup p)" "keeps same_env (backup p)"
  using calls_same_file(8) [of q "bak_path p" "v_file p"] calls_same_env(8) [of "v_file p" "bak_path p"]
  by (simp_all add: keeps_def backup_def)

lemma vault_write_same_env [kr_frame]: "keeps same_env (vault_write x p b key s ps)"
  by (auto simp: vault_write_def Let_def intro!: kr_frame)

lemma write_tmp_Inr:
  assumes "write_tmp tmp out s = (Inr u, t)"
  obtains f where "files (disk t) tmp = Some f" and "content f = out"
proof -
  from assms obtain s1 s2 s3 u1 u2 u3 where "set_file_private tmp s1 = (Inr u1, s2)"
    and w: "fs_write_all tmp out s2 = (Inr u2, s3)" and y: "fs_sync_all tmp s3 = (Inr u3, t)"
    by (auto simp: write_tmp_def bindE_eq_Inr)
  from fs_write_all_Inr [OF w] fs_sync_all_Inr [OF y] show thesis
    by (auto intro: that)
qed

subsection \<open>The outcome of a write\<close>

text \<open>
  The file at the vault's path either keeps its old content through every image, or is replaced
  in the last step by the complete new image.
\<close>

definition write_outcome ::
  "vpath \<Rightarrow> os \<Rightarrow> (err + unit) \<Rightarrow> os \<Rightarrow> (byte list \<Rightarrow> bool) \<Rightarrow> bool" where
  "write_outcome p s r t new \<longleftrightarrow>
     (case r of
        Inl e \<Rightarrow> same_file (v_file p) s t
      | Inr _ \<Rightarrow>
          (\<exists>u f. same_file (v_file p) s u \<and> new (content f) \<and>
             files (disk t) = (files (disk u))(tmp_path p := None, v_file p \<mapsto> f) \<and>
             crash t = crash u @ [disk t]))"

lemma same_file_trans: "same_file p s t \<Longrightarrow> same_file p t u \<Longrightarrow> same_file p s u"
  using transp_same_file [of p] by (rule transpD)

text \<open>Everything before the final rename.\<close>

definition write_prep :: "vpath \<Rightarrow> byte list \<Rightarrow> (os, err, unit) act" where
  "write_prep p out =
     bindE (make_parent p) (\<lambda>_. bindE (write_tmp (tmp_path p) out) (\<lambda>_. backup p))"

lemma write_prep_same: "keeps (same_file (v_file p)) (write_prep p out)"
  by (auto simp: write_prep_def intro!: kr_frame)

lemma write_prep_tmp:
  assumes "write_prep p out s = (Inr u, t)"
  obtains f where "files (disk t) (tmp_path p) = Some f" and "content f = out"
proof -
  from assms obtain s1 s2 where "write_tmp (tmp_path p) out s1 = (Inr (), s2)"
    and b: "backup p s2 = (Inr u, t)"
    by (auto simp: write_prep_def bindE_eq_Inr)
  then obtain f where f: "files (disk s2) (tmp_path p) = Some f" "content f = out"
    by (auto elim: write_tmp_Inr)
  have "same_file (tmp_path p) s2 t"
    using keepsD [OF backup_keeps(1) b] by simp
  then have "files (disk t) (tmp_path p) = Some f" using f by (simp add: same_file_def)
  with f(2) show thesis by (rule that [rotated])
qed

lemma bindE_assoc: "bindE (bindE m k) l = bindE m (\<lambda>x. bindE (k x) l)"
  by (rule ext) (auto simp: bindE_def split: prod.splits sum.splits)

definition replace_file :: "vpath \<Rightarrow> byte list \<Rightarrow> (os, err, unit) act" where
  "replace_file p out =
     bindE (write_prep p out) (\<lambda>_. map_errE EReplace (fs_rename (tmp_path p) (v_file p)))"

lemma vault_write_eq:
  "vault_write x p b key s ps =
     bindE (liftE (map_errS ESerialize (body_to_vec x b))) (\<lambda>json.
     bindE (fill_bytes NONCE_LEN) (\<lambda>nonce.
     bindE (liftE (seal x (inner key) nonce (aad ps s) json)) (\<lambda>c.
     replace_file p (aad ps s @ nonce @ c))))"
  by (simp add: vault_write_def replace_file_def write_prep_def Let_def bindE_assoc)

lemma replace_outcome:
  assumes "replace_file p out o1 = (r, t)"
  shows "write_outcome p o1 r t (\<lambda>bs. bs = out)"
proof -
  obtain r2 o2 where prep: "write_prep p out o1 = (r2, o2)" by (cases "write_prep p out o1")
  have same: "same_file (v_file p) o1 o2" using write_prep_same prep by (rule keepsD)
  show ?thesis
  proof (cases r2)
    case (Inl e)
    with assms prep same show ?thesis by (auto simp: write_outcome_def replace_file_def)
  next
    case (Inr u)
    with assms prep have ren: "map_errE EReplace (fs_rename (tmp_path p) (v_file p)) o2 = (r, t)"
      by (simp add: replace_file_def bindE_def)
    show ?thesis
    proof (cases r)
      case (Inl e)
      with ren have "disk t = disk o2" "crash t = crash o2"
        by (auto simp: map_errE_Inl dest: fs_rename_Inl)
      with same Inl show ?thesis by (simp add: write_outcome_def same_file_def)
    next
      case (Inr v)
      with ren have "fs_rename (tmp_path p) (v_file p) o2 = (Inr v, t)" by simp
      moreover obtain g where "files (disk o2) (tmp_path p) = Some g" "content g = out"
        using prep \<open>r2 = Inr u\<close> by (auto elim: write_prep_tmp)
      ultimately show ?thesis
        using fs_rename_Inr [of "tmp_path p" "v_file p" o2 v t] same Inr
        by (simp add: write_outcome_def) blast
    qed
  qed
qed

lemma write_outcome_mono:
  assumes "same_file (v_file p) s s'" "write_outcome p s' r t P" "\<And>bs. P bs \<Longrightarrow> Q bs"
  shows "write_outcome p s r t Q"
  using assms by (cases r) (auto simp: write_outcome_def intro: same_file_trans)

lemma vault_write_outcome:
  assumes "vault_write x p b key s ps o0 = (r, t)"
  shows "write_outcome p o0 r t (seals x \<lparr>body = b, skey = key, salt = s, params = ps\<rparr>)"
proof (cases "body_to_vec x b")
  case (Inl e)
  with assms show ?thesis by (auto simp: vault_write_eq write_outcome_def map_errS_def)
next
  case (Inr json)
  define nonce where "nonce = map (rng o0) [0..<NONCE_LEN]"
  define o1 where "o1 = o0\<lparr>rng := (\<lambda>i. rng o0 (NONCE_LEN + i))\<rparr>"
  have same: "same_file (v_file p) o0 o1" by (simp add: same_file_def o1_def)
  have w: "(r, t) = bindE (liftE (seal x (inner key) nonce (aad ps s) json)) (\<lambda>c.
     replace_file p (aad ps s @ nonce @ c)) o1"
    using assms Inr by (simp add: vault_write_eq fill_bytes_def nonce_def o1_def bindE_def)
  show ?thesis
  proof (cases "seal x (inner key) nonce (aad ps s) json")
    case (Inl e)
    with w same show ?thesis by (simp add: write_outcome_def bindE_def)
  next
    case c: (Inr c)
    have sealed: "seals x \<lparr>body = b, skey = key, salt = s, params = ps\<rparr> (aad ps s @ nonce @ c)"
      unfolding seals_def using c Inr
      by (intro exI [of _ json] exI [of _ nonce] exI [of _ c]) (simp add: nonce_def)
    have "replace_file p (aad ps s @ nonce @ c) o1 = (r, t)"
      using w c by (simp add: bindE_def)
    then show ?thesis
      using same sealed by (auto intro: write_outcome_mono replace_outcome)
  qed
qed

text \<open>The two readings of the outcome that callers use.\<close>

lemma write_outcome_images:
  assumes "write_outcome p s r t new" and "d \<in> set (new_images s t)"
  shows "files d (v_file p) = files (disk s) (v_file p) \<or>
     (\<exists>f. files d (v_file p) = Some f \<and> new (content f))"
proof (cases r)
  case (Inl e)
  with assms show ?thesis by (auto simp: write_outcome_def dest: same_file_new_images)
next
  case (Inr u)
  with assms(1) obtain o2 f where same: "same_file (v_file p) s o2" and new: "new (content f)"
    and t: "files (disk t) = (files (disk o2))(tmp_path p := None, v_file p \<mapsto> f)"
    "crash t = crash o2 @ [disk t]"
    by (auto simp: write_outcome_def)
  from same t(2) assms(2) have "d \<in> set (new_images s o2) \<or> d = disk t"
    by (auto simp: new_images_def same_file_def)
  then show ?thesis using same_file_new_images [OF same] new t(1) by auto
qed

lemma write_outcome_ok:
  "write_outcome p s (Inr u) t new \<Longrightarrow>
   \<exists>f. files (disk t) (v_file p) = Some f \<and> new (content f)"
  by (auto simp: write_outcome_def)

lemma write_outcome_error:
  "write_outcome p s (Inl e) t new \<Longrightarrow> files (disk t) (v_file p) = files (disk s) (v_file p)"
  by (auto simp: write_outcome_def same_file_def)

subsection \<open>Without I/O errors\<close>

lemma reliable_simps [simp]:
  "reliable (commit d s) = reliable s" "reliable (stream_file p f k s) = reliable s"
  "reliable (s\<lparr>rng := g\<rparr>) = reliable s"
  by (simp_all add: reliable_def)

lemma replace_file_reliable:
  assumes "reliable s"
  obtains t where "replace_file p out s = (Inr (), t)" and "reliable t"
    and "files (disk t) (v_file p) = Some \<lparr>content = out, fmode = 384\<rparr>"
    and "files (disk t) (tmp_path p) = None"
    and "files (disk t) (bak_path p) =
       (case files (disk s) (v_file p) of None \<Rightarrow> files (disk s) (bak_path p) | Some f \<Rightarrow> Some f)"
proof -
  obtain u where u: "make_parent p s = (Inr (), u)" "reliable u"
    using assms
    by (cases "v_dir p")
      (auto simp: make_parent_def set_dir_private_def fs_create_dir_all_def fs_set_dir_mode_def
        bindE_def map_errE_def)
  have files_u: "files (disk u) = files (disk s)"
  proof
    fix q show "files (disk u) q = files (disk s) q"
      using keepsD [OF make_parent_keeps(1) u(1)] by (simp add: same_file_def)
  qed
  obtain v where v: "write_tmp (tmp_path p) out u = (Inr (), v)" "reliable v"
    "files (disk v) = (files (disk s))(tmp_path p \<mapsto> \<lparr>content = out, fmode = 384\<rparr>)"
    using u(2)
    by (auto simp: write_tmp_def set_file_private_def fs_open_trunc_def fs_set_mode_def
        fs_write_all_def fs_sync_all_def bindE_def map_errE_def files_u fun_eq_iff)
  show thesis
  proof (cases "files (disk s) (v_file p)")
    case None
    with v that show thesis
      by (auto simp: replace_file_def write_prep_def bindE_def u v backup_def fs_is_file_def
          fs_rename_def map_errE_def)
  next
    case (Some f)
    with v that show thesis
      by (auto simp: replace_file_def write_prep_def bindE_def u v backup_def fs_is_file_def
          fs_rename_def fs_copy_def map_errE_def)
  qed
qed

text \<open>A body the libraries can serialise and seal under the given key and header.\<close>

definition sealable :: "'x vault_ext_scheme \<Rightarrow> Body \<Rightarrow> Key32 \<Rightarrow> byte list \<Rightarrow> KdfParams \<Rightarrow> bool" where
  "sealable x b key s ps \<longleftrightarrow>
     (\<exists>json. body_to_vec x b = Inr json \<and>
        (\<forall>n. aead_encrypt x (inner key) n (aad ps s) json \<noteq> None))"

lemma vault_write_reliable:
  assumes "reliable o0" "sealable x b key s ps"
  obtains o1 f where "vault_write x p b key s ps o0 = (Inr (), o1)" and "reliable o1"
    and "files (disk o1) (v_file p) = Some f" and "fmode f = 384"
    and "seals x \<lparr>body = b, skey = key, salt = s, params = ps\<rparr> (content f)"
    and "files (disk o1) (bak_path p) =
       (case files (disk o0) (v_file p) of None \<Rightarrow> files (disk o0) (bak_path p) | Some g \<Rightarrow> Some g)"
proof -
  from assms(2) obtain json where json: "body_to_vec x b = Inr json"
    and enc: "\<forall>n. aead_encrypt x (inner key) n (aad ps s) json \<noteq> None"
    by (auto simp: sealable_def)
  define nonce where "nonce = map (rng o0) [0..<NONCE_LEN]"
  obtain c where c: "aead_encrypt x (inner key) nonce (aad ps s) json = Some c"
    using enc by blast
  define o2 where "o2 = o0\<lparr>rng := (\<lambda>i. rng o0 (NONCE_LEN + i))\<rparr>"
  have o2: "reliable o2" "disk o2 = disk o0" using assms(1) by (simp_all add: o2_def)
  obtain o1 where r: "replace_file p (aad ps s @ nonce @ c) o2 = (Inr (), o1)" "reliable o1"
    "files (disk o1) (v_file p) = Some \<lparr>content = aad ps s @ nonce @ c, fmode = 384\<rparr>"
    "files (disk o1) (bak_path p) =
       (case files (disk o2) (v_file p) of None \<Rightarrow> files (disk o2) (bak_path p) | Some g \<Rightarrow> Some g)"
    using o2(1) by (rule replace_file_reliable)
  have "fill_bytes NONCE_LEN o0 = (Inr nonce, o2)"
    by (simp add: fill_bytes_def nonce_def o2_def)
  then have w: "vault_write x p b key s ps o0 = (Inr (), o1)"
    using r(1) json c by (simp add: vault_write_eq bindE_def seal_def)
  have "seals x \<lparr>body = b, skey = key, salt = s, params = ps\<rparr> (aad ps s @ nonce @ c)"
    unfolding seals_def using json c
    by (intro exI [of _ json] exI [of _ nonce] exI [of _ c]) (simp add: nonce_def)
  then show thesis
    using that [OF w r(2,3)] r(4) [unfolded o2(2)] by simp
qed

lemma vault_save_reliable:
  assumes "reliable o0" "sealable x (body s) (skey s) (salt s) (params s)"
  obtains o1 f where "vault_save x p s o0 = (Inr (), o1)" and "reliable o1"
    and "files (disk o1) (v_file p) = Some f" and "fmode f = 384" and "seals x s (content f)"
    and "files (disk o1) (bak_path p) =
       (case files (disk o0) (v_file p) of None \<Rightarrow> files (disk o0) (bak_path p) | Some g \<Rightarrow> Some g)"
  using vault_write_reliable [OF assms, of p] by (auto simp: vault_save_def)

end
