(* ===== verification/KR_Agent.thy ===== *)
theory KR_Agent
  imports KR_Rpc KR_VaultWrite
begin

text \<open>
  The live agent of \<open>native/src/server.rs\<close>: its state (\<open>Inner\<close>), the client registry and
  broadcasts, the lock state with the idle auto-lock, and the parking of a request until the vault
  is unlocked. The request handlers are in \<open>KR_Handlers\<close>.
\<close>

subsection \<open>State\<close>

record Config =
  c_vault_path :: vpath
  c_kdf :: KdfParams
  c_lock_timeout :: nat \<comment> \<open>nanoseconds; 0 = never\<close>
  c_linger :: nat \<comment> \<open>nanoseconds\<close>
  c_persist :: bool

text \<open>
  \<open>clients\<close> maps a client id to the lines its channel has accepted. \<open>notified\<close> counts the
  \<open>notify_all\<close> calls on the condition variable. \<open>sys\<close> is the operating system.
\<close>

record agent =
  cfg :: Config
  session :: "Session option"
  fail_count :: u32
  last_activity :: nat
  clients :: "(u64 \<times> rstring list) list"
  next_client :: u64
  unlock_gen :: u64
  notified :: nat
  sys :: os

definition Server_new :: "Config \<Rightarrow> os \<Rightarrow> agent" where
  "Server_new c o0 =
     \<lparr>cfg = c, session = None, fail_count = 0, last_activity = mono o0, clients = [],
      next_client = 1, unlock_gen = 0, notified = 0, sys = o0\<rparr>"

definition UNLOCK_WAIT :: nat where
  "UNLOCK_WAIT = 120 * NANOS"

definition now_secs :: "os \<Rightarrow> u64" where
  "now_secs s = unix s"

definition lift_sys :: "(os, err, 'a) act \<Rightarrow> (agent, err, 'a) act" where
  "lift_sys m a = (case m (sys a) of (r, s) \<Rightarrow> (r, a\<lparr>sys := s\<rparr>))"

subsection \<open>Client registry and broadcast\<close>

definition register_client :: "agent \<Rightarrow> u64 \<times> agent" where
  "register_client a =
     (let i = next_client a
      in (i, a\<lparr>next_client := i + 1,
               clients := (i, []) # filter (\<lambda>(j, _). j \<noteq> i) (clients a)\<rparr>))"

definition unregister_client :: "u64 \<Rightarrow> agent \<Rightarrow> nat \<times> agent" where
  "unregister_client i a =
     (let cs = filter (\<lambda>(j, _). j \<noteq> i) (clients a) in (length cs, a\<lparr>clients := cs\<rparr>))"

definition client_count :: "agent \<Rightarrow> nat" where
  "client_count a = length (clients a)"

definition broadcast :: "rstring \<Rightarrow> agent \<Rightarrow> agent" where
  "broadcast line a = a\<lparr>clients := map (\<lambda>(i, q). (i, q @ [line])) (clients a)\<rparr>"

definition state_line :: "'x rpc_ext_scheme \<Rightarrow> bool \<Rightarrow> rstring" where
  "state_line x locked = notification x (lit ''vault.state'') (JObj [(lit ''locked'', JBool locked)])"

definition broadcast_state :: "'x rpc_ext_scheme \<Rightarrow> bool \<Rightarrow> agent \<Rightarrow> agent" where
  "broadcast_state x locked = broadcast (state_line x locked)"

definition unlock_needed_line :: "'x rpc_ext_scheme \<Rightarrow> rstring" where
  "unlock_needed_line x = notification x (lit ''vault.unlock_needed'') (JObj [])"

definition broadcast_unlock_needed :: "'x rpc_ext_scheme \<Rightarrow> agent \<Rightarrow> agent" where
  "broadcast_unlock_needed x = broadcast (unlock_needed_line x)"

definition wake_unlock_waiters :: "agent \<Rightarrow> agent" where
  "wake_unlock_waiters a = a\<lparr>notified := notified a + 1\<rparr>"

subsection \<open>Lock state\<close>

definition touch :: "agent \<Rightarrow> agent" where
  "touch a = a\<lparr>last_activity := mono (sys a)\<rparr>"

definition is_locked :: "agent \<Rightarrow> bool" where
  "is_locked a \<longleftrightarrow> session a = None"

definition lock :: "agent \<Rightarrow> bool \<times> agent" where
  "lock a = (session a \<noteq> None, a\<lparr>session := None\<rparr>)"

definition elapsed :: "agent \<Rightarrow> nat" where
  "elapsed a = mono (sys a) - last_activity a"

definition autolock_tick :: "'x rpc_ext_scheme \<Rightarrow> agent \<Rightarrow> nat \<times> agent" where
  "autolock_tick x a =
     (let timeout = c_lock_timeout (cfg a)
      in if timeout = 0 \<or> is_locked a then (1, a)
         else
           let idle = elapsed a
           in if timeout \<le> idle then
                (1, case lock a of (was, a') \<Rightarrow> if was then broadcast_state x True a' else a')
              else (max 1 ((timeout - idle) div NANOS), a))"

subsection \<open>Parking\<close>

text \<open>
  One pass of the loop of \<open>wait_for_unlock\<close>, made while holding the generation mutex: a result,
  or \<open>None\<close> to sleep on the condition variable.
\<close>

definition wait_check :: "u64 \<Rightarrow> nat \<Rightarrow> agent \<Rightarrow> bool option" where
  "wait_check start deadline a =
     (if \<not> is_locked a then Some True
      else if unlock_gen a \<noteq> start then Some False
      else if deadline \<le> mono (sys a) then Some False
      else None)"

text \<open>
  The loop. Each element of the list is what the rest of the system does to the agent during one
  sleep, up to the wake-up (a notification, the timeout or a spurious one); \<open>None\<close>: still asleep
  when the list ends.
\<close>

fun wait_loop :: "u64 \<Rightarrow> nat \<Rightarrow> (agent \<Rightarrow> agent) list \<Rightarrow> agent \<Rightarrow> (bool \<times> agent) option" where
  "wait_loop start deadline ws a =
     (case wait_check start deadline a of
        Some b \<Rightarrow> Some (b, a)
      | None \<Rightarrow> (case ws of [] \<Rightarrow> None | w # ws' \<Rightarrow> wait_loop start deadline ws' (w a)))"

declare wait_loop.simps [simp del]

definition wait_for_unlock ::
  "'x rpc_ext_scheme \<Rightarrow> (agent \<Rightarrow> agent) list \<Rightarrow> agent \<Rightarrow> (bool \<times> agent) option" where
  "wait_for_unlock x ws a =
     (if \<not> is_locked a then Some (True, a)
      else
        let a1 = broadcast_unlock_needed x a;
            deadline = mono (sys a1) + UNLOCK_WAIT;
            start = unlock_gen a1
        in wait_loop start deadline ws a1)"

subsection \<open>Frame\<close>

lemma broadcast_simps [simp]:
  "cfg (broadcast l a) = cfg a" "session (broadcast l a) = session a"
  "fail_count (broadcast l a) = fail_count a" "last_activity (broadcast l a) = last_activity a"
  "next_client (broadcast l a) = next_client a" "unlock_gen (broadcast l a) = unlock_gen a"
  "notified (broadcast l a) = notified a" "sys (broadcast l a) = sys a"
  "map fst (clients (broadcast l a)) = map fst (clients a)"
  "length (clients (broadcast l a)) = length (clients a)"
  by (simp_all add: broadcast_def case_prod_beta comp_def)

lemma clients_broadcast:
  "(i, q) \<in> set (clients (broadcast l a)) \<longleftrightarrow> (\<exists>q'. (i, q') \<in> set (clients a) \<and> q = q' @ [l])"
  by (force simp: broadcast_def)

lemma lock_simps [simp]:
  "fst (lock a) = (session a \<noteq> None)" "snd (lock a) = a\<lparr>session := None\<rparr>"
  by (simp_all add: lock_def)

lemma touch_simps [simp]:
  "cfg (touch a) = cfg a" "session (touch a) = session a" "fail_count (touch a) = fail_count a"
  "last_activity (touch a) = mono (sys a)" "clients (touch a) = clients a"
  "next_client (touch a) = next_client a" "unlock_gen (touch a) = unlock_gen a"
  "notified (touch a) = notified a" "sys (touch a) = sys a" "is_locked (touch a) = is_locked a"
  by (simp_all add: touch_def is_locked_def)

lemma wake_simps [simp]:
  "cfg (wake_unlock_waiters a) = cfg a" "session (wake_unlock_waiters a) = session a"
  "fail_count (wake_unlock_waiters a) = fail_count a"
  "last_activity (wake_unlock_waiters a) = last_activity a"
  "clients (wake_unlock_waiters a) = clients a"
  "next_client (wake_unlock_waiters a) = next_client a"
  "unlock_gen (wake_unlock_waiters a) = unlock_gen a" "sys (wake_unlock_waiters a) = sys a"
  by (simp_all add: wake_unlock_waiters_def)

lemma lift_sys_eq: "lift_sys m a = (fst (m (sys a)), a\<lparr>sys := snd (m (sys a))\<rparr>)"
  by (simp add: lift_sys_def case_prod_beta)

lemma is_locked_iff: "is_locked a \<longleftrightarrow> session a = None"
  by (simp add: is_locked_def)

subsection \<open>The wait\<close>

lemma wait_loop_Nil: "wait_loop start d [] a = map_option (\<lambda>b. (b, a)) (wait_check start d a)"
  by (subst wait_loop.simps) (simp split: option.split)

lemma wait_loop_Cons:
  "wait_loop start d (w # ws) a =
     (case wait_check start d a of Some b \<Rightarrow> Some (b, a) | None \<Rightarrow> wait_loop start d ws (w a))"
  by (subst wait_loop.simps) (simp split: option.split)

lemma wait_check_Some:
  "wait_check start d a = Some True \<longleftrightarrow> \<not> is_locked a"
  "wait_check start d a = Some False \<longleftrightarrow>
     is_locked a \<and> (unlock_gen a \<noteq> start \<or> d \<le> mono (sys a))"
  "wait_check start d a = None \<longleftrightarrow>
     is_locked a \<and> unlock_gen a = start \<and> mono (sys a) < d"
  by (auto simp: wait_check_def)

text \<open>
  The wait ends in the state of the first wake-up that finds the vault unlocked, the generation
  changed or the deadline past, with the result that state calls for.
\<close>

lemma wait_loop_result:
  "wait_loop start d ws a = Some (b, a') \<Longrightarrow>
     wait_check start d a' = Some b \<and>
     (\<exists>k \<le> length ws. a' = fold (\<lambda>w s. w s) (take k ws) a \<and>
        (\<forall>j < k. wait_check start d (fold (\<lambda>w s. w s) (take j ws) a) = None))"
proof (induction ws arbitrary: a)
  case Nil
  then show ?case by (auto simp: wait_loop_Nil)
next
  case (Cons w ws)
  show ?case
  proof (cases "wait_check start d a")
    case (Some c)
    with Cons.prems show ?thesis by (intro conjI exI [of _ 0]) (auto simp: wait_loop_Cons)
  next
    case None
    with Cons.prems have "wait_loop start d ws (w a) = Some (b, a')" by (simp add: wait_loop_Cons)
    from Cons.IH [OF this] obtain k where k: "k \<le> length ws"
      "wait_check start d a' = Some b" "a' = fold (\<lambda>w s. w s) (take k ws) (w a)"
      "\<forall>j < k. wait_check start d (fold (\<lambda>w s. w s) (take j ws) (w a)) = None"
      by blast
    have "wait_check start d (fold (\<lambda>w s. w s) (take j (w # ws)) a) = None" if "j < Suc k" for j
      using that None k(4) by (cases j) auto
    with k show ?thesis by (intro conjI exI [of _ "Suc k"]) auto
  qed
qed

lemma wait_loop_ends:
  assumes "\<exists>k \<le> length ws. wait_check start d (fold (\<lambda>w s. w s) (take k ws) a) \<noteq> None"
  shows "wait_loop start d ws a \<noteq> None"
  using assms
proof (induction ws arbitrary: a)
  case Nil
  then show ?case by (simp add: wait_loop_Nil)
next
  case (Cons w ws)
  then obtain k where k: "k \<le> Suc (length ws)"
    "wait_check start d (fold (\<lambda>w s. w s) (take k (w # ws)) a) \<noteq> None" by auto
  show ?case
  proof (cases "wait_check start d a")
    case None
    with k obtain j where "k = Suc j" by (cases k) auto
    with k have "wait_loop start d ws (w a) \<noteq> None" by (intro Cons.IH exI [of _ j]) auto
    with None show ?thesis by (simp add: wait_loop_Cons)
  qed (simp add: wait_loop_Cons)
qed

lemma wait_for_unlock_unlocked: "\<not> is_locked a \<Longrightarrow> wait_for_unlock x ws a = Some (True, a)"
  by (simp add: wait_for_unlock_def)

lemma wait_for_unlock_True:
  "wait_for_unlock x ws a = Some (True, a') \<Longrightarrow> \<not> is_locked a'"
  by (auto simp: wait_for_unlock_def Let_def wait_check_Some dest!: wait_loop_result split: if_splits)

lemma wait_for_unlock_False:
  "wait_for_unlock x ws a = Some (False, a') \<Longrightarrow> is_locked a'"
  by (auto simp: wait_for_unlock_def Let_def wait_check_Some dest!: wait_loop_result split: if_splits)

end
