(* ===== verification/KR_Handlers.thy ===== *)
theory KR_Handlers
  imports KR_Agent
begin

text \<open>
  The request handlers of \<open>native/src/server.rs\<close>: handshake and status, the vault lifecycle, the
  secret operations with the two ways of reaching the session, the password generator, and
  \<open>dispatch\<close> and \<open>handle\<close>. A handler that may park takes a schedule; \<open>None\<close> means the request
  is still parked when the schedule ends.
\<close>

subsection \<open>Views of the entries\<close>

definition entry_meta :: "Entry \<Rightarrow> json" where
  "entry_meta e = JObj
     [(lit ''user'', json_opt (e_user e)), (lit ''url'', json_opt (e_url e)),
      (lit ''notes'', json_opt (e_notes e)), (lit ''tags'', JArr (map JStr (e_tags e))),
      (lit ''totp'', JBool (e_totp e)), (lit ''created'', JNat (e_created e)),
      (lit ''updated'', JNat (e_updated e))]"

definition summary :: "rstring \<times> Entry \<Rightarrow> json" where
  "summary = (\<lambda>(name, e). JObj
     [(lit ''name'', JStr name), (lit ''meta'', entry_meta e),
      (lit ''created'', JNat (e_created e)), (lit ''updated'', JNat (e_updated e))])"

definition summaries :: "agent \<Rightarrow> json option" where
  "summaries a = map_option (\<lambda>s. JArr (map summary (entries (body s)))) (session a)"

definition hello :: "agent \<Rightarrow> (err + json) \<times> agent" where
  "hello a =
     (let v = JObj [(lit ''proto'', JNat PROTO), (lit ''locked'', JBool (is_locked a)),
                    (lit ''vault_exists'', JBool (vault_exists (c_vault_path (cfg a)) (sys a)))];
          v = (case summaries a of Some l \<Rightarrow> json_put (lit ''entries'') l v | None \<Rightarrow> v)
      in (Inr v, a))"

definition status :: "agent \<Rightarrow> json" where
  "status a =
     (let v = JObj [(lit ''locked'', JBool (is_locked a)),
                    (lit ''vault_exists'', JBool (vault_exists (c_vault_path (cfg a)) (sys a)))];
          v = (case summaries a of Some l \<Rightarrow> json_put (lit ''entries'') l v | None \<Rightarrow> v)
      in if c_lock_timeout (cfg a) \<noteq> 0 \<and> \<not> is_locked a
         then json_put (lit ''autolock_in_s'')
                (JInt (int ((c_lock_timeout (cfg a) - elapsed a) div NANOS))) v
         else v)"

subsection \<open>Vault lifecycle\<close>

text \<open>What \<open>create\<close>, \<open>unlock\<close> and \<open>rotate\<close> do with a session they obtained.\<close>

definition adopt :: "'x rpc_ext_scheme \<Rightarrow> Session \<Rightarrow> agent \<Rightarrow> agent" where
  "adopt x s a =
     wake_unlock_waiters (broadcast_state x False (a\<lparr>session := Some s, fail_count := 0\<rparr>))"

definition h_create :: "'x rpc_ext_scheme \<Rightarrow> json \<Rightarrow> (agent, err, json) act" where
  "h_create x ps a =
     (case de_password x ps of Inl e \<Rightarrow> (Inl (ESerde e), a)
      | Inr p \<Rightarrow>
        (case lift_sys (vault_create x (c_vault_path (cfg a)) (as_bytes (pp_password p)) (c_kdf (cfg a))) a of
           (Inl e, a1) \<Rightarrow> (Inl e, a1)
         | (Inr s, a1) \<Rightarrow> (Inr (JObj []), adopt x s a1)))"

definition saturating_inc :: "u32 \<Rightarrow> u32" where
  "saturating_inc n = (if n = - 1 then n else n + 1)"

definition backoff_delay :: "u32 \<Rightarrow> u64" where
  "backoff_delay n = push_bit (min (unat (n - 1)) 4) 1"

definition h_unlock :: "'x rpc_ext_scheme \<Rightarrow> json \<Rightarrow> (agent, err, json) act" where
  "h_unlock x ps a =
     (case de_password x ps of Inl e \<Rightarrow> (Inl (ESerde e), a)
      | Inr p \<Rightarrow>
        (case lift_sys (vault_unlock x (c_vault_path (cfg a)) (as_bytes (pp_password p))) a of
           (Inr s, a1) \<Rightarrow>
             let a2 = adopt x s a1
             in (Inr (JObj [(lit ''entries'', case summaries a2 of Some l \<Rightarrow> l | None \<Rightarrow> JArr [])]), a2)
         | (Inl e, a1) \<Rightarrow>
             let n = saturating_inc (fail_count a1);
                 a2 = a1\<lparr>fail_count := n\<rparr>
             in (Inl e, a2\<lparr>sys := sleep_secs (unat (backoff_delay n)) (sys a2)\<rparr>)))"

definition do_lock :: "'x rpc_ext_scheme \<Rightarrow> (agent, err, json) act" where
  "do_lock x a =
     (case lock a of (was, a1) \<Rightarrow> (Inr (JObj []), if was then broadcast_state x True a1 else a1))"

definition unlock_cancel :: "(agent, err, json) act" where
  "unlock_cancel a = (Inr (JObj []), wake_unlock_waiters (a\<lparr>unlock_gen := unlock_gen a + 1\<rparr>))"

definition h_rotate :: "'x rpc_ext_scheme \<Rightarrow> json \<Rightarrow> (agent, err, json) act" where
  "h_rotate x ps a =
     (case de_rotate x ps of Inl e \<Rightarrow> (Inl (ESerde e), a)
      | Inr p \<Rightarrow>
        (case lift_sys (vault_rotate x (c_vault_path (cfg a)) (as_bytes (rp_old p))
                (as_bytes (rp_new p)) (c_kdf (cfg a))) a of
           (Inl e, a1) \<Rightarrow> (Inl e, a1)
         | (Inr s, a1) \<Rightarrow> (Inr (JObj []), adopt x s a1)))"

subsection \<open>Reaching the session\<close>

text \<open>
  What the other threads do while a request runs: \<open>wakes\<close> during each sleep on the condition
  variable, \<open>gap\<close> between the end of the locked check and taking the session mutex.
\<close>

record sched =
  wakes :: "(agent \<Rightarrow> agent) list"
  gap :: "agent \<Rightarrow> agent"

definition quiet :: sched where
  "quiet = \<lparr>wakes = [], gap = (\<lambda>a. a)\<rparr>"

text \<open>
  \<open>is_locked() && !(wait && wait_for_unlock(..))\<close> and the mutex: the agent as the operation finds
  it, with \<open>Inl ELocked\<close> if there is no session then.
\<close>

definition acquire ::
  "'x rpc_ext_scheme \<Rightarrow> bool \<Rightarrow> sched \<Rightarrow> agent \<Rightarrow> ((err + Session) \<times> agent) option" where
  "acquire x wait sch a =
     (case (if \<not> is_locked a then Some (True, a)
            else if \<not> wait then Some (False, a)
            else wait_for_unlock x (wakes sch) a) of
        None \<Rightarrow> None
      | Some (False, a1) \<Rightarrow> Some (Inl ELocked, a1)
      | Some (True, a1) \<Rightarrow>
          let a2 = gap sch a1
          in Some (case session a2 of None \<Rightarrow> Inl ELocked | Some s \<Rightarrow> Inr s, a2))"

type_synonym 'r session_fun = "u64 \<Rightarrow> Session \<Rightarrow> (err + 'r) \<times> Session"

definition with_session ::
  "'x rpc_ext_scheme \<Rightarrow> bool \<Rightarrow> sched \<Rightarrow> 'r session_fun \<Rightarrow> agent \<Rightarrow> ((err + 'r) \<times> agent) option" where
  "with_session x wait sch f a =
     (case acquire x wait sch a of
        None \<Rightarrow> None
      | Some (Inl e, a1) \<Rightarrow> Some (Inl e, a1)
      | Some (Inr s, a1) \<Rightarrow>
          (case f (now_secs (sys a1)) s of
             (Inl e, s1) \<Rightarrow> Some (Inl e, a1\<lparr>session := Some s1\<rparr>)
           | (Inr r, s1) \<Rightarrow>
               (case lift_sys (vault_save x (c_vault_path (cfg a1)) s1) (a1\<lparr>session := Some s1\<rparr>) of
                  (Inl e, a2) \<Rightarrow> Some (Inl e, a2)
                | (Inr _, a2) \<Rightarrow> Some (Inr r, a2))))"

definition read_session ::
  "'x rpc_ext_scheme \<Rightarrow> bool \<Rightarrow> sched \<Rightarrow> (u64 \<Rightarrow> Session \<Rightarrow> err + 'r) \<Rightarrow> agent \<Rightarrow> ((err + 'r) \<times> agent) option" where
  "read_session x wait sch f a =
     (case acquire x wait sch a of
        None \<Rightarrow> None
      | Some (Inl e, a1) \<Rightarrow> Some (Inl e, a1)
      | Some (Inr s, a1) \<Rightarrow> Some (f (now_secs (sys a1)) s, a1))"

text \<open>\<open>with_session(..)?\<close> followed by \<open>Ok(json!(..))\<close>.\<close>

definition reply :: "('r \<Rightarrow> json) \<Rightarrow> ((err + 'r) \<times> agent) option \<Rightarrow> ((err + json) \<times> agent) option" where
  "reply g = map_option (\<lambda>(r, a). (case r of Inl e \<Rightarrow> Inl e | Inr v \<Rightarrow> Inr (g v), a))"

definition on_entries :: "((rstring, Entry) btree \<Rightarrow> (rstring, Entry) btree) \<Rightarrow> Session \<Rightarrow> Session" where
  "on_entries g s = s\<lparr>body := (body s)\<lparr>entries := g (entries (body s))\<rparr>\<rparr>"

subsection \<open>The secret operations\<close>

definition get_entry_op :: "rstring \<Rightarrow> Session \<Rightarrow> err + Entry" where
  "get_entry_op n s =
     (case bt_get (entries (body s)) n of None \<Rightarrow> Inl (ENoSecret n) | Some e \<Rightarrow> Inr e)"

definition secret_get ::
  "'x rpc_ext_scheme \<Rightarrow> sched \<Rightarrow> json \<Rightarrow> agent \<Rightarrow> ((err + json) \<times> agent) option" where
  "secret_get x sch ps a =
     (case de_name x ps of Inl e \<Rightarrow> Some (Inl (ESerde e), a)
      | Inr p \<Rightarrow>
        read_session x (np_wait p) sch (\<lambda>ts s.
          bindS (get_entry_op (np_name p) s) (\<lambda>e.
          Inr (JObj [(lit ''value'', JStr (e_value e)), (lit ''meta'', entry_meta e)]))) a)"

text \<open>\<open>Some(u.clone()).filter(|s| !s.is_empty())\<close>\<close>

definition nonempty :: "rstring \<Rightarrow> rstring option" where
  "nonempty u = (if u = [] then None else Some u)"

definition apply_meta :: "MetaIn \<Rightarrow> Entry \<Rightarrow> Entry" where
  "apply_meta m e =
     (let e = (case mi_user m of Some u \<Rightarrow> e\<lparr>e_user := nonempty u\<rparr> | None \<Rightarrow> e);
          e = (case mi_url m of Some u \<Rightarrow> e\<lparr>e_url := nonempty u\<rparr> | None \<Rightarrow> e);
          e = (case mi_notes m of Some u \<Rightarrow> e\<lparr>e_notes := nonempty u\<rparr> | None \<Rightarrow> e);
          e = (case mi_tags m of Some t \<Rightarrow> e\<lparr>e_tags := t\<rparr> | None \<Rightarrow> e)
      in (case mi_totp m of Some t \<Rightarrow> e\<lparr>e_totp := t\<rparr> | None \<Rightarrow> e))"

definition new_entry :: "rstring \<Rightarrow> u64 \<Rightarrow> Entry" where
  "new_entry v ts = \<lparr>e_value = v, e_user = None, e_url = None, e_notes = None, e_tags = [],
     e_totp = False, e_created = ts, e_updated = ts\<rparr>"

definition maybe_meta :: "MetaIn option \<Rightarrow> Entry \<Rightarrow> Entry" where
  "maybe_meta m e = (case m of None \<Rightarrow> e | Some mi \<Rightarrow> apply_meta mi e)"

definition set_op :: "SetParam \<Rightarrow> unit session_fun" where
  "set_op p ts s =
     (case bt_get (entries (body s)) (sp_name p) of
        Some e \<Rightarrow>
          let e = (case sp_value p of Some v \<Rightarrow> e\<lparr>e_value := v\<rparr> | None \<Rightarrow> e);
              e = maybe_meta (sp_meta p) e
          in (Inr (), on_entries (bt_insert (sp_name p) (e\<lparr>e_updated := ts\<rparr>)) s)
      | None \<Rightarrow>
          (case sp_value p of
             None \<Rightarrow> (Inl ENeedsValue, s)
           | Some v \<Rightarrow>
               (Inr (), on_entries (bt_insert (sp_name p) (maybe_meta (sp_meta p) (new_entry v ts))) s)))"

definition secret_set ::
  "'x rpc_ext_scheme \<Rightarrow> sched \<Rightarrow> json \<Rightarrow> agent \<Rightarrow> ((err + json) \<times> agent) option" where
  "secret_set x sch ps a =
     (case de_set x ps of Inl e \<Rightarrow> Some (Inl (ESerde e), a)
      | Inr p \<Rightarrow>
        if blank (sp_name p) then Some (Inl EEmptyName, a)
        else reply (\<lambda>_. JObj []) (with_session x (sp_wait p) sch (set_op p) a))"

definition delete_op :: "rstring \<Rightarrow> unit session_fun" where
  "delete_op n ts s =
     (if bt_get (entries (body s)) n = None then (Inl (ENoSecret n), s)
      else (Inr (), on_entries (bt_remove n) s))"

definition secret_delete ::
  "'x rpc_ext_scheme \<Rightarrow> sched \<Rightarrow> json \<Rightarrow> agent \<Rightarrow> ((err + json) \<times> agent) option" where
  "secret_delete x sch ps a =
     (case de_name x ps of Inl e \<Rightarrow> Some (Inl (ESerde e), a)
      | Inr p \<Rightarrow> reply (\<lambda>_. JObj []) (with_session x (np_wait p) sch (delete_op (np_name p)) a))"

definition rename_op :: "RenameParam \<Rightarrow> unit session_fun" where
  "rename_op p ts s =
     (if bt_get (entries (body s)) (rn_to p) \<noteq> None then (Inl (EExists (rn_to p)), s)
      else case bt_get (entries (body s)) (rn_from p) of
        None \<Rightarrow> (Inl (ENoSecret (rn_from p)), s)
      | Some e \<Rightarrow> (Inr (), on_entries (bt_insert (rn_to p) e) (on_entries (bt_remove (rn_from p)) s)))"

definition secret_rename ::
  "'x rpc_ext_scheme \<Rightarrow> sched \<Rightarrow> json \<Rightarrow> agent \<Rightarrow> ((err + json) \<times> agent) option" where
  "secret_rename x sch ps a =
     (case de_rename x ps of Inl e \<Rightarrow> Some (Inl (ESerde e), a)
      | Inr p \<Rightarrow>
        if blank (rn_to p) then Some (Inl EEmptyNewName, a)
        else reply (\<lambda>_. JObj []) (with_session x (rn_wait p) sch (rename_op p) a))"

text \<open>\<open>secret.list\<close> takes the session mutex only inside \<open>summaries\<close>, after the same check.\<close>

definition secret_list ::
  "'x rpc_ext_scheme \<Rightarrow> sched \<Rightarrow> json \<Rightarrow> agent \<Rightarrow> ((err + json) \<times> agent) option" where
  "secret_list x sch ps a =
     (let p = (case de_wait x ps of Inl e \<Rightarrow> WaitParam_default | Inr p \<Rightarrow> p)
      in case acquire x (wp_wait p) sch a of
           None \<Rightarrow> None
         | Some (Inl e, a1) \<Rightarrow> Some (Inl e, a1)
         | Some (Inr s, a1) \<Rightarrow>
             Some (case summaries a1 of None \<Rightarrow> Inl ELocked
                   | Some l \<Rightarrow> Inr (JObj [(lit ''entries'', l)]), a1))"

subsection \<open>The password generator\<close>

definition ALNUM :: rstring where
  "ALNUM = lit ''ABCDEFGHIJKLMNOPQRSTUVWXYZabcdefghijklmnopqrstuvwxyz0123456789''"

definition SYM :: rstring where
  "SYM = lit ''!@#$%^&*()-_=+[]{};:,.?''"

definition alphabet :: "bool \<Rightarrow> rstring" where
  "alphabet symbols = ALNUM @ (if symbols then SYM else [])"

text \<open>\<open>length.clamp(1, 512)\<close>\<close>

definition clamp_len :: "nat \<Rightarrow> nat" where
  "clamp_len n = max 1 (min n 512)"

definition pick_char :: "rstring \<Rightarrow> byte \<Rightarrow> rchar" where
  "pick_char al b = al ! (unat b mod length al)"

definition generate_password :: "nat \<Rightarrow> bool \<Rightarrow> os \<Rightarrow> rstring \<times> os" where
  "generate_password len symbols s =
     (case rand_bytes (clamp_len len) s of (bytes, t) \<Rightarrow> (map (pick_char (alphabet symbols)) bytes, t))"

definition upsert_op :: "rstring \<Rightarrow> rstring \<Rightarrow> unit session_fun" where
  "upsert_op n v ts s =
     (case bt_get (entries (body s)) n of
        Some e \<Rightarrow> (Inr (), on_entries (bt_insert n (e\<lparr>e_value := v, e_updated := ts\<rparr>)) s)
      | None \<Rightarrow> (Inr (), on_entries (bt_insert n (new_entry v ts)) s))"

definition secret_generate ::
  "'x rpc_ext_scheme \<Rightarrow> sched \<Rightarrow> json \<Rightarrow> agent \<Rightarrow> ((err + json) \<times> agent) option" where
  "secret_generate x sch ps a =
     (let p = (case de_generate x ps of Inl e \<Rightarrow> GenerateParam_default | Inr p \<Rightarrow> p);
          len = (case gp_length p of None \<Rightarrow> 24 | Some n \<Rightarrow> n);
          symbols = (case gp_symbols p of None \<Rightarrow> True | Some b \<Rightarrow> b)
      in case generate_password len symbols (sys a) of
           (v, os1) \<Rightarrow>
             (let a1 = a\<lparr>sys := os1\<rparr>; out = JObj [(lit ''value'', JStr v)]
              in case gp_store_as p of
                   None \<Rightarrow> Some (Inr out, a1)
                 | Some n \<Rightarrow>
                     if blank n then Some (Inr out, a1)
                     else reply (\<lambda>_. out) (with_session x True sch (upsert_op n v) a1)))"

definition TOTP_PERIOD :: u64 where "TOTP_PERIOD = 30"
definition TOTP_DIGITS :: nat where "TOTP_DIGITS = 6"

definition totp_op :: "'x rpc_ext_scheme \<Rightarrow> rstring \<Rightarrow> u64 \<Rightarrow> Session \<Rightarrow> err + json" where
  "totp_op x n now s =
     bindS (get_entry_op n s) (\<lambda>e.
     bindS (totp_code x (e_value e) now TOTP_PERIOD TOTP_DIGITS) (\<lambda>code.
     Inr (JObj [(lit ''code'', JStr code), (lit ''remaining'', JNat (TOTP_PERIOD - now mod TOTP_PERIOD)),
                (lit ''period'', JNat TOTP_PERIOD)])))"

definition secret_totp ::
  "'x rpc_ext_scheme \<Rightarrow> sched \<Rightarrow> json \<Rightarrow> agent \<Rightarrow> ((err + json) \<times> agent) option" where
  "secret_totp x sch ps a =
     (case de_name x ps of Inl e \<Rightarrow> Some (Inl (ESerde e), a)
      | Inr p \<Rightarrow> read_session x (np_wait p) sch (totp_op x (np_name p)) a)"

subsection \<open>Dispatch\<close>

definition no_touch :: "rstring list" where
  "no_touch = [lit ''vault.status'', lit ''rpc.hello'', lit ''vault.lock'', lit ''vault.unlock_cancel'']"

definition dispatch ::
  "'x rpc_ext_scheme \<Rightarrow> sched \<Rightarrow> rstring \<Rightarrow> json \<Rightarrow> agent \<Rightarrow> ((err + json) \<times> agent) option" where
  "dispatch x sch m ps a0 =
     (let a = (if m \<in> set no_touch then a0 else touch a0)
      in if m = lit ''rpc.hello'' then Some (hello a)
         else if m = lit ''vault.create'' then Some (h_create x ps a)
         else if m = lit ''vault.unlock'' then Some (h_unlock x ps a)
         else if m = lit ''vault.lock'' then Some (do_lock x a)
         else if m = lit ''vault.unlock_cancel'' then Some (unlock_cancel a)
         else if m = lit ''vault.status'' then Some (Inr (status a), a)
         else if m = lit ''vault.rotate'' then Some (h_rotate x ps a)
         else if m = lit ''secret.get'' then secret_get x sch ps a
         else if m = lit ''secret.set'' then secret_set x sch ps a
         else if m = lit ''secret.delete'' then secret_delete x sch ps a
         else if m = lit ''secret.rename'' then secret_rename x sch ps a
         else if m = lit ''secret.list'' then secret_list x sch ps a
         else if m = lit ''secret.generate'' then secret_generate x sch ps a
         else if m = lit ''secret.totp'' then secret_totp x sch ps a
         else Some (Inl (EUnknownMethod m), a))"

text \<open>\<open>tx.send\<close> on the channel of client \<open>i\<close>.\<close>

definition send_to :: "u64 \<Rightarrow> rstring \<Rightarrow> agent \<Rightarrow> agent" where
  "send_to i line a = a\<lparr>clients := map (\<lambda>(j, q). (j, if j = i then q @ [line] else q)) (clients a)\<rparr>"

definition handle ::
  "'x rpc_ext_scheme \<Rightarrow> sched \<Rightarrow> u64 \<Rightarrow> Request \<Rightarrow> agent \<Rightarrow> agent option" where
  "handle x sch i req a =
     map_option (\<lambda>(r, a1).
       send_to i (case r of Inr v \<Rightarrow> response_ok x (r_id req) v
                  | Inl e \<Rightarrow> response_err x (r_id req) (show_err e)) a1)
     (dispatch x sch (r_method req) (r_params req) a)"

end
