(* ===== verification/KR_Server.thy ===== *)
theory KR_Server
  imports KR_Handlers
begin

text \<open>
  How the request handlers act on the agent: the ways of reaching the session on every branch,
  the abstract store the secret operations implement, and what a request may change.
\<close>

subsection \<open>Reaching the session\<close>

lemma quiet_simps [simp]: "wakes quiet = []" "gap quiet = (\<lambda>a. a)"
  by (simp_all add: quiet_def)

lemma acquire_unlocked [simp]:
  "session a = Some s \<Longrightarrow> acquire x w quiet a = Some (Inr s, a)"
  by (simp add: acquire_def is_locked_def)

lemma acquire_nowait [simp]:
  "session a = None \<Longrightarrow> acquire x False sch a = Some (Inl ELocked, a)"
  by (simp add: acquire_def is_locked_def)

lemma acquire_wait:
  "session a = None \<Longrightarrow> acquire x True sch a =
     (case wait_for_unlock x (wakes sch) a of
        None \<Rightarrow> None
      | Some (False, a1) \<Rightarrow> Some (Inl ELocked, a1)
      | Some (True, a1) \<Rightarrow>
          Some (case session (gap sch a1) of None \<Rightarrow> Inl ELocked | Some s \<Rightarrow> Inr s, gap sch a1))"
  by (simp add: acquire_def is_locked_def Let_def split: option.split bool.split)

text \<open>Whatever the schedule, the outcome is the session then held, or \<open>ELocked\<close>.\<close>

lemma acquire_Some:
  assumes "acquire x w sch a = Some (r, a1)"
  shows "(\<exists>s. r = Inr s \<and> session a1 = Some s) \<or> r = Inl ELocked"
  using assms
  by (auto simp: acquire_def Let_def split: if_splits option.splits bool.splits)

lemma with_session_unlocked:
  "session a = Some s \<Longrightarrow> with_session x w quiet f a =
     (case f (unix (sys a)) s of
        (Inl e, s1) \<Rightarrow> Some (Inl e, a\<lparr>session := Some s1\<rparr>)
      | (Inr r, s1) \<Rightarrow>
          (case vault_save x (c_vault_path (cfg a)) s1 (sys a) of
             (Inl e, o1) \<Rightarrow> Some (Inl e, a\<lparr>session := Some s1, sys := o1\<rparr>)
           | (Inr _, o1) \<Rightarrow> Some (Inr r, a\<lparr>session := Some s1, sys := o1\<rparr>)))"
  by (simp add: with_session_def lift_sys_def now_secs_def split: sum.split prod.split)

lemma read_session_unlocked:
  "session a = Some s \<Longrightarrow> read_session x w quiet f a = Some (f (unix (sys a)) s, a)"
  by (simp add: read_session_def now_secs_def)

lemma sessions_nowait [simp]:
  "session a = None \<Longrightarrow> with_session x False sch f a = Some (Inl ELocked, a)"
  "session a = None \<Longrightarrow> read_session x False sch g a = Some (Inl ELocked, a)"
  by (simp_all add: with_session_def read_session_def)

lemma reply_simps [simp]:
  "reply g None = None" "reply g (Some (Inl e, a)) = Some (Inl e, a)"
  "reply g (Some (Inr v, a)) = Some (Inr (g v), a)"
  by (simp_all add: reply_def)

subsection \<open>The abstract store\<close>

text \<open>
  What the secret operations promise: a finite map from names to entries, and the answer to each
  request as a function of it. The time is the clock's second.
\<close>

type_synonym store = "rstring \<rightharpoonup> Entry"

definition store_of :: "Session \<Rightarrow> store" where
  "store_of s = bt_get (entries (body s))"

definition spec_get :: "rstring \<Rightarrow> store \<Rightarrow> (err + json) \<times> store" where
  "spec_get n m =
     (case m n of None \<Rightarrow> Inl (ENoSecret n)
      | Some e \<Rightarrow> Inr (JObj [(lit ''value'', JStr (e_value e)), (lit ''meta'', entry_meta e)]), m)"

definition spec_set :: "SetParam \<Rightarrow> u64 \<Rightarrow> store \<Rightarrow> (err + json) \<times> store" where
  "spec_set p ts m =
     (if blank (sp_name p) then (Inl EEmptyName, m)
      else case (m (sp_name p), sp_value p) of
        (None, None) \<Rightarrow> (Inl ENeedsValue, m)
      | (None, Some v) \<Rightarrow>
          (Inr (JObj []), m(sp_name p \<mapsto> maybe_meta (sp_meta p) (new_entry v ts)))
      | (Some e, None) \<Rightarrow>
          (Inr (JObj []), m(sp_name p \<mapsto> (maybe_meta (sp_meta p) e)\<lparr>e_updated := ts\<rparr>))
      | (Some e, Some v) \<Rightarrow>
          (Inr (JObj []),
           m(sp_name p \<mapsto> (maybe_meta (sp_meta p) e)\<lparr>e_value := v, e_updated := ts\<rparr>)))"

definition spec_delete :: "rstring \<Rightarrow> store \<Rightarrow> (err + json) \<times> store" where
  "spec_delete n m =
     (if n \<in> dom m then (Inr (JObj []), m(n := None)) else (Inl (ENoSecret n), m))"

definition spec_rename :: "rstring \<Rightarrow> rstring \<Rightarrow> store \<Rightarrow> (err + json) \<times> store" where
  "spec_rename p q m =
     (if blank q then (Inl EEmptyNewName, m)
      else if q \<in> dom m then (Inl (EExists q), m)
      else if p \<in> dom m then (Inr (JObj []), m(p := None, q := m p))
      else (Inl (ENoSecret p), m))"

definition spec_totp :: "'x rpc_ext_scheme \<Rightarrow> rstring \<Rightarrow> u64 \<Rightarrow> store \<Rightarrow> (err + json) \<times> store" where
  "spec_totp x n now m =
     (case m n of None \<Rightarrow> Inl (ENoSecret n)
      | Some e \<Rightarrow> bindS (totp_code x (e_value e) now TOTP_PERIOD TOTP_DIGITS) (\<lambda>c.
          Inr (JObj [(lit ''code'', JStr c), (lit ''remaining'', JNat (TOTP_PERIOD - now mod TOTP_PERIOD)),
                     (lit ''period'', JNat TOTP_PERIOD)])), m)"

text \<open>The listing, in the order of the names.\<close>

definition spec_list :: "store \<Rightarrow> (err + json) \<times> store" where
  "spec_list m =
     (Inr (JObj [(lit ''entries'',
        JArr (map (\<lambda>n. summary (n, the (m n))) (sorted_list_of_set (dom m))))]), m)"

definition decoded :: "(rstring + 'p) \<Rightarrow> ('p \<Rightarrow> (err + json) \<times> store) \<Rightarrow> store \<Rightarrow> (err + json) \<times> store" where
  "decoded d k m = (case d of Inl e \<Rightarrow> (Inl (ESerde e), m) | Inr p \<Rightarrow> k p)"

definition store_methods :: "rstring list" where
  "store_methods = [lit ''secret.get'', lit ''secret.set'', lit ''secret.delete'',
     lit ''secret.rename'', lit ''secret.totp'', lit ''secret.list'']"

definition spec_request ::
  "'x rpc_ext_scheme \<Rightarrow> u64 \<Rightarrow> rstring \<Rightarrow> json \<Rightarrow> store \<Rightarrow> (err + json) \<times> store" where
  "spec_request x ts m ps st =
     (if m = lit ''secret.get'' then decoded (de_name x ps) (\<lambda>p. spec_get (np_name p) st) st
      else if m = lit ''secret.set'' then decoded (de_set x ps) (\<lambda>p. spec_set p ts st) st
      else if m = lit ''secret.delete'' then decoded (de_name x ps) (\<lambda>p. spec_delete (np_name p) st) st
      else if m = lit ''secret.rename'' then
        decoded (de_rename x ps) (\<lambda>p. spec_rename (rn_from p) (rn_to p) st) st
      else if m = lit ''secret.totp'' then decoded (de_name x ps) (\<lambda>p. spec_totp x (np_name p) ts st) st
      else spec_list st)"

subsection \<open>The operations on a session implement it\<close>

lemma on_entries_simps [simp]:
  "entries (body (on_entries g s)) = g (entries (body s))" "skey (on_entries g s) = skey s"
  "salt (on_entries g s) = salt s" "params (on_entries g s) = params s"
  by (simp_all add: on_entries_def)

lemma apply_meta_simps [simp]:
  "e_value (apply_meta m e) = e_value e" "e_created (apply_meta m e) = e_created e"
  "e_updated (apply_meta m e) = e_updated e"
  "apply_meta m (e\<lparr>e_value := v\<rparr>) = (apply_meta m e)\<lparr>e_value := v\<rparr>"
  by (cases e; auto simp: apply_meta_def Let_def split: option.split)+

lemma maybe_meta_simps [simp]:
  "e_value (maybe_meta m e) = e_value e" "e_created (maybe_meta m e) = e_created e"
  "maybe_meta m (e\<lparr>e_value := v\<rparr>) = (maybe_meta m e)\<lparr>e_value := v\<rparr>"
  by (simp_all add: maybe_meta_def split: option.split)

lemma bt_insert_fun: "bt_get (bt_insert k v m) = (bt_get m)(k \<mapsto> v)"
  by (simp add: fun_eq_iff bt_get_insert)

lemma bt_remove_fun: "bt_wf m \<Longrightarrow> bt_get (bt_remove k m) = (bt_get m)(k := None)"
  by (simp add: fun_eq_iff bt_get_remove)

lemmas store_defs = store_of_def spec_get_def spec_set_def spec_delete_def spec_rename_def
  spec_totp_def bt_insert_fun bt_remove_fun

lemma spec_list_entries:
  "bt_wf (entries (body s)) \<Longrightarrow>
   spec_list (store_of s) = (Inr (JObj [(lit ''entries'', JArr (map summary (entries (body s))))]), store_of s)"
proof -
  assume wf: "bt_wf (entries (body s))"
  have "map (\<lambda>n. summary (n, the (store_of s n))) (bt_keys (entries (body s))) =
      map summary (map (\<lambda>k. (k, the (bt_get (entries (body s)) k))) (bt_keys (entries (body s))))"
    by (simp add: store_of_def)
  then show ?thesis
    using wf by (simp add: spec_list_def store_of_def [of s] bt_keys_dom bt_entries)
qed

text \<open>An operation as a function of the session, with the answer it becomes.\<close>

definition implements :: "unit session_fun \<Rightarrow> (u64 \<Rightarrow> store \<Rightarrow> (err + json) \<times> store) \<Rightarrow> bool" where
  "implements f spec \<longleftrightarrow>
     (\<forall>ts s r s1. bt_wf (entries (body s)) \<longrightarrow> f ts s = (r, s1) \<longrightarrow>
        spec ts (store_of s) = (map_sum id (\<lambda>_. JObj []) r, store_of s1) \<and>
        bt_wf (entries (body s1)) \<and> skey s1 = skey s \<and> salt s1 = salt s \<and> params s1 = params s \<and>
        (\<forall>e. r = Inl e \<longrightarrow> s1 = s))"

lemma set_op_implements: "\<not> blank (sp_name p) \<Longrightarrow> implements (set_op p) (spec_set p)"
  unfolding implements_def
  by (auto simp: set_op_def store_defs Let_def bt.wf_put split: option.splits)

lemma delete_op_implements: "implements (delete_op n) (\<lambda>ts. spec_delete n)"
  unfolding implements_def
  by (auto simp: delete_op_def store_defs bt.wf_del split: if_splits)

lemma rename_op_implements:
  "\<not> blank (rn_to p) \<Longrightarrow> implements (rename_op p) (\<lambda>ts. spec_rename (rn_from p) (rn_to p))"
  unfolding implements_def
  by (auto simp: rename_op_def store_defs bt.wf_put bt.wf_del split: option.splits if_splits)

subsection \<open>The agent and the file together\<close>

text \<open>
  \<open>in_sync\<close>: the agent is unlocked with this session, which the vault file holds under this
  password. \<open>sealing_total\<close>: bodies always serialise and seal (serialising strings, numbers and
  booleans cannot fail, and the AEAD refuses only messages longer than a vault can be).
\<close>

definition in_sync :: "'x rpc_ext_scheme \<Rightarrow> byte list \<Rightarrow> agent \<Rightarrow> Session \<Rightarrow> bool" where
  "in_sync x pw a s \<longleftrightarrow>
     session a = Some s \<and> session_ok s \<and> keyed_by x pw s \<and>
     (\<exists>f. files (disk (sys a)) (v_file (c_vault_path (cfg a))) = Some f \<and> seals x s (content f))"

definition sealing_total :: "'x vault_ext_scheme \<Rightarrow> bool" where
  "sealing_total x \<longleftrightarrow> (\<forall>b key s ps. sealable x b key s ps)"

lemma in_sync_touch [simp]: "in_sync x pw (touch a) s = in_sync x pw a s"
  by (simp add: in_sync_def)

lemma in_sync_clock [simp]:
  "in_sync x pw (a\<lparr>sys := (sys a)\<lparr>unix := ts\<rparr>\<rparr>) s = in_sync x pw a s"
  "reliable ((sys a)\<lparr>unix := ts\<rparr>) = reliable (sys a)"
  by (simp_all add: in_sync_def reliable_def)

lemma implementsD:
  assumes "implements f spec" "bt_wf (entries (body s))" "f ts s = (r, s1)"
  shows "spec ts (store_of s) = (map_sum id (\<lambda>_. JObj []) r, store_of s1)"
    and "bt_wf (entries (body s1))" and "skey s1 = skey s" and "salt s1 = salt s"
    and "params s1 = params s" and "r = Inl e \<Longrightarrow> s1 = s"
  using assms unfolding implements_def by blast+

text \<open>
  A change that succeeds is in the file, sealed under the key of the session it was made on -
  whatever the file held before.
\<close>

lemma with_session_saves:
  assumes f: "implements f spec" and s: "session a = Some s" "session_ok s" "keyed_by x pw s"
    and rel: "reliable (sys a)" and tot: "sealing_total x" and fs: "f (unix (sys a)) s = (Inr v, s1)"
  shows "\<exists>o1. with_session x w quiet f a = Some (Inr v, a\<lparr>session := Some s1, sys := o1\<rparr>) \<and>
    in_sync x pw (a\<lparr>session := Some s1, sys := o1\<rparr>) s1 \<and> reliable o1"
proof -
  have wf: "bt_wf (entries (body s))" using s(2) by (simp add: session_ok_def)
  have ok1: "session_ok s1" "keyed_by x pw s1"
    using implementsD(2-5) [OF f wf fs] s(2,3) by (simp_all add: session_ok_def keyed_by_def)
  have "sealable x (body s1) (skey s1) (salt s1) (params s1)"
    using tot by (simp add: sealing_total_def)
  then obtain o1 g where save: "vault_save x (c_vault_path (cfg a)) s1 (sys a) = (Inr (), o1)"
    "reliable o1" "files (disk o1) (v_file (c_vault_path (cfg a))) = Some g" "seals x s1 (content g)"
    using vault_save_reliable [OF rel, where p = "c_vault_path (cfg a)"] by metis
  have "with_session x w quiet f a = Some (Inr v, a\<lparr>session := Some s1, sys := o1\<rparr>)"
    using fs save(1) by (simp add: with_session_unlocked [OF s(1)])
  with ok1 save(2-4) show ?thesis by (auto simp: in_sync_def)
qed

lemma with_session_implements:
  assumes f: "implements f spec" and sync: "in_sync x pw a s" and rel: "reliable (sys a)"
    and tot: "sealing_total x"
  shows "\<exists>a1 s1. reply (\<lambda>_. JObj []) (with_session x w quiet f a) =
      Some (fst (spec (unix (sys a)) (store_of s)), a1) \<and>
    in_sync x pw a1 s1 \<and> store_of s1 = snd (spec (unix (sys a)) (store_of s)) \<and>
    reliable (sys a1) \<and> cfg a1 = cfg a"
proof -
  from sync have s: "session a = Some s" and ok: "session_ok s" and key: "keyed_by x pw s"
    by (simp_all add: in_sync_def)
  obtain r s1 where fs: "f (unix (sys a)) s = (r, s1)" by (cases "f (unix (sys a)) s")
  note imp = implementsD [OF f _ fs]
  have wf: "bt_wf (entries (body s))" using ok by (simp add: session_ok_def)
  show ?thesis
  proof (cases r)
    case (Inl e)
    with imp(6) wf have "a\<lparr>session := Some s1\<rparr> = a" using s by simp
    then show ?thesis
      using Inl imp(1) wf fs s sync rel by (intro exI [of _ a] exI [of _ s1])
        (simp add: with_session_unlocked implementsD(6) [OF f wf fs])
  next
    case (Inr v)
    from fs Inr have "f (unix (sys a)) s = (Inr v, s1)" by simp
    from with_session_saves [OF f s ok key rel tot this, of w] obtain o1 where
      "with_session x w quiet f a = Some (Inr v, a\<lparr>session := Some s1, sys := o1\<rparr>)"
      "in_sync x pw (a\<lparr>session := Some s1, sys := o1\<rparr>) s1" "reliable o1" by blast
    then show ?thesis
      using imp(1) wf Inr by (intro exI [of _ "a\<lparr>session := Some s1, sys := o1\<rparr>"] exI [of _ s1]) simp
  qed
qed

lemma spec_error_keeps:
  "snd (spec_get n st) = st" "snd (spec_totp x n now st) = st"
  by (simp_all add: spec_get_def spec_totp_def)

lemma dispatch_methods:
  "dispatch x sch (lit ''rpc.hello'') ps a = Some (hello a)"
  "dispatch x sch (lit ''vault.create'') ps a = Some (h_create x ps (touch a))"
  "dispatch x sch (lit ''vault.unlock'') ps a = Some (h_unlock x ps (touch a))"
  "dispatch x sch (lit ''vault.lock'') ps a = Some (do_lock x a)"
  "dispatch x sch (lit ''vault.unlock_cancel'') ps a = Some (unlock_cancel a)"
  "dispatch x sch (lit ''vault.status'') ps a = Some (Inr (status a), a)"
  "dispatch x sch (lit ''vault.rotate'') ps a = Some (h_rotate x ps (touch a))"
  "dispatch x sch (lit ''secret.get'') ps a = secret_get x sch ps (touch a)"
  "dispatch x sch (lit ''secret.set'') ps a = secret_set x sch ps (touch a)"
  "dispatch x sch (lit ''secret.delete'') ps a = secret_delete x sch ps (touch a)"
  "dispatch x sch (lit ''secret.rename'') ps a = secret_rename x sch ps (touch a)"
  "dispatch x sch (lit ''secret.list'') ps a = secret_list x sch ps (touch a)"
  "dispatch x sch (lit ''secret.generate'') ps a = secret_generate x sch ps (touch a)"
  "dispatch x sch (lit ''secret.totp'') ps a = secret_totp x sch ps (touch a)"
  by (simp_all add: dispatch_def no_touch_def)

text \<open>One request on an unlocked agent whose file is in sync answers as the abstract store.\<close>

lemma request_refines:
  assumes "m \<in> set store_methods" and "in_sync x pw a0 s" and "reliable (sys a0)"
    and "sealing_total x"
  shows "\<exists>a1 s1. dispatch x quiet m ps a0 =
      Some (fst (spec_request x (unix (sys a0)) m ps (store_of s)), a1) \<and>
    in_sync x pw a1 s1 \<and> store_of s1 = snd (spec_request x (unix (sys a0)) m ps (store_of s)) \<and>
    reliable (sys a1) \<and> cfg a1 = cfg a0"
proof -
  define a where "a = touch a0"
  have sync: "in_sync x pw a s" and rel: "reliable (sys a)"
    and env: "unix (sys a) = unix (sys a0)" "cfg a = cfg a0"
    using assms(2,3) by (simp_all add: a_def)
  then have s: "session a = Some s" by (simp add: in_sync_def)
  note ws = with_session_implements [OF _ sync rel assms(4)]
  note eqs = dispatch_methods a_def [symmetric] spec_request_def decoded_def
  let ?sp = "spec_request x (unix (sys a0)) m ps (store_of s)"
  have stay: ?thesis if "dispatch x quiet m ps a0 = Some (fst ?sp, a)" "snd ?sp = store_of s"
    using that sync rel env by auto
  from assms(1) consider "m = lit ''secret.get''" | "m = lit ''secret.set''"
    | "m = lit ''secret.delete''" | "m = lit ''secret.rename''" | "m = lit ''secret.totp''"
    | "m = lit ''secret.list''"
    by (auto simp: store_methods_def)
  then show ?thesis
  proof cases
    case 1
    then show ?thesis
      by (intro stay) (auto simp: eqs secret_get_def read_session_unlocked [OF s] get_entry_op_def
          spec_get_def store_of_def env split: sum.split option.split)
  next
    case 2
    show ?thesis
    proof (cases "de_set x ps")
      case (Inl e)
      with 2 show ?thesis by (intro stay) (auto simp: eqs secret_set_def)
    next
      case (Inr p)
      show ?thesis
      proof (cases "blank (sp_name p)")
        case True
        with 2 Inr show ?thesis by (intro stay) (auto simp: eqs secret_set_def spec_set_def)
      next
        case False
        from ws [OF set_op_implements [OF False], of "sp_wait p"] 2 Inr False env
        show ?thesis by (auto simp: eqs secret_set_def)
      qed
    qed
  next
    case 3
    show ?thesis
    proof (cases "de_name x ps")
      case (Inl e)
      with 3 show ?thesis by (intro stay) (auto simp: eqs secret_delete_def)
    next
      case (Inr p)
      from ws [OF delete_op_implements, of "np_wait p" "np_name p"] 3 Inr env
      show ?thesis by (auto simp: eqs secret_delete_def)
    qed
  next
    case 4
    show ?thesis
    proof (cases "de_rename x ps")
      case (Inl e)
      with 4 show ?thesis by (intro stay) (auto simp: eqs secret_rename_def)
    next
      case (Inr p)
      show ?thesis
      proof (cases "blank (rn_to p)")
        case True
        with 4 Inr show ?thesis by (intro stay) (auto simp: eqs secret_rename_def spec_rename_def)
      next
        case False
        from ws [OF rename_op_implements [OF False], of "rn_wait p"] 4 Inr False env
        show ?thesis by (auto simp: eqs secret_rename_def)
      qed
    qed
  next
    case 5
    then show ?thesis
      by (intro stay) (auto simp: eqs secret_totp_def read_session_unlocked [OF s] totp_op_def
          get_entry_op_def spec_totp_def store_of_def env split: sum.split option.split)
  next
    case 6
    have "bt_wf (entries (body s))" using sync by (simp add: in_sync_def session_ok_def)
    with 6 s show ?thesis
      by (intro stay) (simp_all add: eqs secret_list_def summaries_def Let_def spec_list_entries)
  qed
qed

subsection \<open>Runs of requests\<close>

text \<open>A run: each request at its clock second, on an undisturbed agent.\<close>

type_synonym timed_request = "u64 \<times> rstring \<times> json"

fun run_requests ::
  "'x rpc_ext_scheme \<Rightarrow> timed_request list \<Rightarrow> agent \<Rightarrow> ((err + json) list \<times> agent) option" where
  "run_requests x [] a = Some ([], a)"
| "run_requests x ((ts, m, ps) # rs) a =
     Option.bind (dispatch x quiet m ps (a\<lparr>sys := (sys a)\<lparr>unix := ts\<rparr>\<rparr>)) (\<lambda>(r, a1).
     Option.bind (run_requests x rs a1) (\<lambda>(q, a2). Some (r # q, a2)))"

fun run_spec :: "'x rpc_ext_scheme \<Rightarrow> timed_request list \<Rightarrow> store \<Rightarrow> (err + json) list \<times> store" where
  "run_spec x [] st = ([], st)"
| "run_spec x ((ts, m, ps) # rs) st =
     (case spec_request x ts m ps st of (r, st1) \<Rightarrow>
        case run_spec x rs st1 of (q, st2) \<Rightarrow> (r # q, st2))"

lemma run_refines:
  assumes "sealing_total x"
  shows "in_sync x pw a s \<Longrightarrow> reliable (sys a) \<Longrightarrow> \<forall>(ts, m, ps) \<in> set rs. m \<in> set store_methods \<Longrightarrow>
    \<exists>a1 s1. run_requests x rs a = Some (fst (run_spec x rs (store_of s)), a1) \<and>
      in_sync x pw a1 s1 \<and> store_of s1 = snd (run_spec x rs (store_of s)) \<and>
      reliable (sys a1) \<and> cfg a1 = cfg a"
proof (induction rs arbitrary: a s)
  case Nil
  then show ?case by auto
next
  case (Cons r rs)
  obtain ts m ps where r: "r = (ts, m, ps)" by (cases r)
  let ?a = "a\<lparr>sys := (sys a)\<lparr>unix := ts\<rparr>\<rparr>"
  let ?sp = "spec_request x ts m ps (store_of s)"
  have "in_sync x pw ?a s" "reliable (sys ?a)" "m \<in> set store_methods"
    using Cons.prems r by simp_all
  from request_refines [OF this(3,1,2) assms, of ps] obtain a1 s1 where
    d: "dispatch x quiet m ps ?a = Some (fst ?sp, a1)" and "in_sync x pw a1 s1"
    and st: "store_of s1 = snd ?sp" and "reliable (sys a1)" and c1: "cfg a1 = cfg a"
    by auto
  with Cons.IH [of a1 s1] Cons.prems(3) obtain a2 s2 where
    "run_requests x rs a1 = Some (fst (run_spec x rs (store_of s1)), a2)" "in_sync x pw a2 s2"
    "store_of s2 = snd (run_spec x rs (store_of s1))" "reliable (sys a2)" "cfg a2 = cfg a1"
    by auto
  with d st c1 r show ?case by (auto simp: case_prod_beta)
qed

end
