(* ===== verification/KR_Instance.thy ===== *)
theory KR_Instance
  imports KR_Vault
begin

text \<open>
  A concrete instance of the third-party functions, used only to show that the hypotheses on them
  can hold together: a keyed prefix for the AEAD, truncation and padding for the KDF, and a
  complete textual codec for the vault body (numbers in decimal, strings and lists with their
  length in front).
\<close>

subsection \<open>AEAD and KDF\<close>

definition demo_encrypt ::
  "byte list \<Rightarrow> byte list \<Rightarrow> byte list \<Rightarrow> byte list \<Rightarrow> byte list option" where
  "demo_encrypt k n a p = Some (k @ n @ a @ p)"

definition demo_decrypt ::
  "byte list \<Rightarrow> byte list \<Rightarrow> byte list \<Rightarrow> byte list \<Rightarrow> byte list option" where
  "demo_decrypt k n a c =
     (let pre = k @ n @ a
      in if take (length pre) c = pre then Some (drop (length pre) c) else None)"

definition demo_hash :: "KdfParams \<Rightarrow> byte list \<Rightarrow> byte list \<Rightarrow> rstring + byte list" where
  "demo_hash p pw s = Inr (take KEY_LEN (pw @ replicate KEY_LEN 0))"

definition demo_hmac :: "byte list \<Rightarrow> byte list \<Rightarrow> byte list option" where
  "demo_hmac k m = Some (take 20 (k @ m @ replicate 20 0))"

subsection \<open>A codec for the body\<close>

text \<open>Streams of numbers; a getter returns the value and the rest.\<close>

definition stream_ok :: "('a \<Rightarrow> nat list) \<Rightarrow> (nat list \<Rightarrow> ('a \<times> nat list) option) \<Rightarrow> bool" where
  "stream_ok put get \<longleftrightarrow> (\<forall>x r. get (put x @ r) = Some (x, r))"

fun get_nat :: "nat list \<Rightarrow> (nat \<times> nat list) option" where
  "get_nat [] = None"
| "get_nat (n # r) = Some (n, r)"

fun get_n :: "(nat list \<Rightarrow> ('a \<times> nat list) option) \<Rightarrow> nat \<Rightarrow> nat list \<Rightarrow> ('a list \<times> nat list) option" where
  "get_n g 0 r = Some ([], r)"
| "get_n g (Suc n) r =
     Option.bind (g r) (\<lambda>(x, r'). Option.bind (get_n g n r') (\<lambda>(xs, r''). Some (x # xs, r'')))"

definition put_list :: "('a \<Rightarrow> nat list) \<Rightarrow> 'a list \<Rightarrow> nat list" where
  "put_list p xs = length xs # concat (map p xs)"

definition get_list :: "(nat list \<Rightarrow> ('a \<times> nat list) option) \<Rightarrow> nat list \<Rightarrow> ('a list \<times> nat list) option" where
  "get_list g r = Option.bind (get_nat r) (\<lambda>(n, r'). get_n g n r')"

definition put_option :: "('a \<Rightarrow> nat list) \<Rightarrow> 'a option \<Rightarrow> nat list" where
  "put_option p v = (case v of None \<Rightarrow> put_list p [] | Some x \<Rightarrow> put_list p [x])"

definition get_option :: "(nat list \<Rightarrow> ('a \<times> nat list) option) \<Rightarrow> nat list \<Rightarrow> ('a option \<times> nat list) option" where
  "get_option g r = Option.bind (get_list g r)
     (\<lambda>(xs, r'). Some (case xs of [] \<Rightarrow> None | x # _ \<Rightarrow> Some x, r'))"

definition put_nat :: "nat \<Rightarrow> nat list" where "put_nat n = [n]"
definition put_str :: "rstring \<Rightarrow> nat list" where "put_str = put_list put_nat"
definition get_str :: "nat list \<Rightarrow> (rstring \<times> nat list) option" where "get_str = get_list get_nat"

definition put_entry :: "rstring \<times> Entry \<Rightarrow> nat list" where
  "put_entry = (\<lambda>(k, e). put_str k @ put_str (e_value e) @ put_option put_str (e_user e)
     @ put_option put_str (e_url e) @ put_option put_str (e_notes e)
     @ put_list put_str (e_tags e)
     @ [if e_totp e then 1 else 0, unat (e_created e), unat (e_updated e)])"

definition get_entry :: "nat list \<Rightarrow> ((rstring \<times> Entry) \<times> nat list) option" where
  "get_entry r0 =
     Option.bind (get_str r0) (\<lambda>(k, r1).
     Option.bind (get_str r1) (\<lambda>(v, r2).
     Option.bind (get_option get_str r2) (\<lambda>(u, r3).
     Option.bind (get_option get_str r3) (\<lambda>(l, r4).
     Option.bind (get_option get_str r4) (\<lambda>(n, r5).
     Option.bind (get_list get_str r5) (\<lambda>(tg, r6).
     Option.bind (get_nat r6) (\<lambda>(tt, r7).
     Option.bind (get_nat r7) (\<lambda>(c, r8).
     Option.bind (get_nat r8) (\<lambda>(d, r9).
       Some ((k, \<lparr>e_value = v, e_user = u, e_url = l, e_notes = n, e_tags = tg, e_totp = (tt = 1),
                  e_created = of_nat c, e_updated = of_nat d\<rparr>), r9))))))))))"

text \<open>Numbers as decimal text, each ended by a comma.\<close>

definition put_num :: "nat \<Rightarrow> byte list" where
  "put_num n = map of_nat (show_nat n) @ [44]"

fun get_nums :: "nat \<Rightarrow> byte list \<Rightarrow> nat list" where
  "get_nums acc [] = []"
| "get_nums acc (b # bs) =
     (if b = 44 then acc # get_nums 0 bs else get_nums (10 * acc + (unat b - 48)) bs)"

definition demo_to_vec :: "Body \<Rightarrow> rstring + byte list" where
  "demo_to_vec b = Inr (concat (map put_num (put_list put_entry (entries b))))"

definition demo_from_slice :: "byte list \<Rightarrow> rstring + Body" where
  "demo_from_slice bs =
     (case get_list get_entry (get_nums 0 bs) of
        Some (m, []) \<Rightarrow> if bt_wf m then Inr \<lparr>entries = m\<rparr> else Inl []
      | _ \<Rightarrow> Inl [])"

text \<open>The functions a theory adds to the record (\<open>m\<close>) do not matter to these.\<close>

definition demo_lib :: "'m \<Rightarrow> 'm vault_ext_scheme" where
  "demo_lib m =
     \<lparr>argon2_params = (\<lambda>m t p n. None), argon2_hash = demo_hash,
      aead_encrypt = demo_encrypt, aead_decrypt = demo_decrypt,
      upper_ext = (\<lambda>c. [c]), base32_decode = (\<lambda>bs. Some bs), hmac_sha1 = demo_hmac,
      body_to_vec = demo_to_vec, body_from_slice = demo_from_slice, \<dots> = m\<rparr>"

abbreviation demo_vault_ext :: vault_ext where
  "demo_vault_ext \<equiv> demo_lib ()"

lemma demo_ext_simps [simp]:
  "argon2_params (demo_lib m) mc t p n = None" "argon2_hash (demo_lib m) = demo_hash"
  "aead_encrypt (demo_lib m) = demo_encrypt" "aead_decrypt (demo_lib m) = demo_decrypt"
  "upper_ext (demo_lib m) c = [c]" "base32_decode (demo_lib m) bs = Some bs"
  "hmac_sha1 (demo_lib m) = demo_hmac"
  "body_to_vec (demo_lib m) = demo_to_vec" "body_from_slice (demo_lib m) = demo_from_slice"
  by (simp_all add: demo_lib_def)

subsection \<open>The hypotheses hold\<close>

lemma lib_kdf_len: "kdf_len (demo_lib m)"
  by (auto simp: kdf_len_def demo_hash_def)

lemma lib_aead_ok: "aead_ok (demo_lib m)"
  by (auto simp: aead_ok_def demo_encrypt_def demo_decrypt_def Let_def)

lemma demo_decrypt_Some:
  "demo_decrypt k n a c = Some p \<longleftrightarrow> c = k @ n @ a @ p"
proof
  assume "demo_decrypt k n a c = Some p"
  then have "take (length (k @ n @ a)) c = k @ n @ a" "drop (length (k @ n @ a)) c = p"
    unfolding demo_decrypt_def Let_def by (simp_all only: split: if_splits) simp_all
  then have "c = (k @ n @ a) @ p" by (metis append_take_drop_id)
  then show "c = k @ n @ a @ p" by simp
qed (simp add: demo_decrypt_def)

lemma lib_aead_tight: "aead_tight (demo_lib m)"
  by (simp add: aead_tight_def demo_decrypt_Some demo_encrypt_def)

lemma lib_aead_auth: "aead_auth (demo_lib m)"
proof -
  have "demo_decrypt k' n' a' (k @ n @ a @ p) = None"
    if "length k' = length k" "length n' = length n" "length a' = length a"
      "(k', n', a') \<noteq> (k, n, a)" for k n a p k' n' a'
    using that demo_decrypt_Some [of k' n' a' "k @ n @ a @ p"]
    by (cases "demo_decrypt k' n' a' (k @ n @ a @ p)") (auto simp: append_eq_append_conv)
  then show ?thesis by (simp add: aead_auth_def demo_encrypt_def)
qed

lemma lib_hmac_len: "hmac_len (demo_lib m)"
  by (auto simp: hmac_len_def demo_hmac_def)

lemma stream_ok_nat: "stream_ok put_nat get_nat"
  by (simp add: stream_ok_def put_nat_def)

lemma get_n_ok: "stream_ok p g \<Longrightarrow> get_n g (length xs) (concat (map p xs) @ r) = Some (xs, r)"
  by (induction xs) (simp_all add: stream_ok_def)

lemma stream_ok_list: "stream_ok p g \<Longrightarrow> stream_ok (put_list p) (get_list g)"
  using get_n_ok [of p g] by (simp add: stream_ok_def put_list_def get_list_def)

lemma stream_ok_option: "stream_ok p g \<Longrightarrow> stream_ok (put_option p) (get_option g)"
  using stream_ok_list [of p g]
  by (auto simp: stream_ok_def put_option_def get_option_def split: option.split)

lemma stream_ok_str: "stream_ok put_str get_str"
  unfolding put_str_def get_str_def by (rule stream_ok_list [OF stream_ok_nat])

lemma stream_ok_entry: "stream_ok put_entry get_entry"
proof -
  note s = stream_ok_str stream_ok_option [OF stream_ok_str] stream_ok_list [OF stream_ok_str]
  have "get_entry (put_entry (k, e) @ r) = Some ((k, e), r)" for k e r
    using s by (cases e) (simp add: stream_ok_def put_entry_def get_entry_def)
  then show ?thesis by (auto simp: stream_ok_def)
qed

lemma get_nums_digits:
  "list_all is_digit ds \<Longrightarrow>
   get_nums acc (map of_nat ds @ 44 # bs) = digits_value acc ds # get_nums 0 bs"
proof (induction ds arbitrary: acc)
  case (Cons d ds)
  then have d: "48 \<le> d" "d \<le> 57" by (auto simp: is_digit_def)
  then have u: "unat (of_nat d :: byte) = d"
    by (simp add: unsigned_of_nat take_bit_nat_eq_self)
  then have "(of_nat d :: byte) \<noteq> 44" using d by auto
  with Cons u show ?case by simp
qed simp

lemma get_nums_put: "get_nums 0 (concat (map put_num ns)) = ns"
  by (induction ns) (simp_all add: put_num_def get_nums_digits show_nat_digits)

lemma lib_body_codec: "body_codec (demo_lib m)"
proof -
  have "demo_from_slice bs = Inr b" if "bt_wf (entries b)" "demo_to_vec b = Inr bs" for b bs
  proof -
    have "get_list get_entry (put_list put_entry (entries b)) = Some (entries b, [])"
      using stream_ok_list [OF stream_ok_entry] by (metis append_Nil2 stream_ok_def)
    with that show ?thesis by (auto simp: demo_to_vec_def demo_from_slice_def get_nums_put)
  qed
  moreover have "bt_wf (entries b)" if "demo_from_slice bs = Inr b" for bs b
    using that by (auto simp: demo_from_slice_def split: option.splits prod.splits list.splits if_splits)
  ultimately show ?thesis unfolding body_codec_def demo_ext_simps by blast
qed

text \<open>The instance for the vault alone.\<close>

lemmas demo_kdf_len = lib_kdf_len [of "()"]
lemmas demo_aead_ok = lib_aead_ok [of "()"]
lemmas demo_aead_tight = lib_aead_tight [of "()"]
lemmas demo_aead_auth = lib_aead_auth [of "()"]
lemmas demo_hmac_len = lib_hmac_len [of "()"]
lemmas demo_body_codec = lib_body_codec [of "()"]

end
