(* ===== verification/KR_VaultProps.thy ===== *)
theory KR_VaultProps
  imports KR_VaultWrite KR_Instance
begin

text \<open>
  The properties of the vault file: round trip, atomicity against crashes, authentication,
  creation, rotation, and the wiping of a dropped session; each with a concrete instance.
\<close>

subsection \<open>Lemmas on the operations\<close>

lemma vault_unlock_eq:
  "faults s 0 = IoOk \<Longrightarrow> files (disk s) (v_file p) = Some f \<Longrightarrow>
   vault_unlock x p pw s =
     (decode_vault x pw (content f), s\<lparr>faults := (\<lambda>n. faults s (Suc n))\<rparr>)"
  by (simp add: vault_unlock_def fs_read_ok bindE_def map_errE_def)

lemma vault_unlock_Inr:
  assumes "vault_unlock x p pw s = (Inr v, t)"
  obtains f where "files (disk s) (v_file p) = Some f" "decode_vault x pw (content f) = Inr v"
    "t = s\<lparr>faults := (\<lambda>n. faults s (Suc n))\<rparr>"
proof -
  from assms obtain raw where "fs_read (v_file p) s = (Inr raw, t)"
    and "decode_vault x pw raw = Inr v"
    by (auto simp: vault_unlock_def bindE_eq_Inr)
  with fs_read_Inr [of "v_file p" s raw t] show thesis by (auto intro: that)
qed

lemma vault_unlock_disk: "vault_unlock x p pw s = (r, t) \<Longrightarrow> disk t = disk s \<and> crash t = crash s"
  by (auto simp: vault_unlock_def bindE_def map_errE_def fs_read_def with_io_def Let_def refuse_def
      split: io.splits option.splits prod.splits sum.splits)

lemma vault_save_outcome:
  "vault_save x p s o0 = (r, o1) \<Longrightarrow> write_outcome p o0 r o1 (seals x s)"
  using vault_write_outcome [of x p "body s" "skey s" "salt s" "params s" o0 r o1]
  by (simp add: vault_save_def)

lemma vault_save_ok:
  assumes "vault_save x p s o0 = (Inr u, o1)"
  obtains f where "files (disk o1) (v_file p) = Some f" "seals x s (content f)"
proof -
  have "write_outcome p o0 (Inr u) o1 (seals x s)"
    using assms by (rule vault_save_outcome)
  then show thesis using that by (auto dest: write_outcome_ok)
qed

lemma vault_create_Inr:
  assumes "vault_create x p pw ps o0 = (Inr s, o1)"
  shows "\<not> vault_exists p o0 \<and> keyed_by x pw s \<and> length (salt s) = SALT_LEN \<and>
    params s = ps \<and> entries (body s) = [] \<and>
    (\<exists>f. files (disk o1) (v_file p) = Some f \<and> seals x s (content f))"
proof -
  have ex: "\<not> vault_exists p o0" using assms by (auto simp: vault_create_def split: if_splits)
  with assms obtain sl o2 o3 key where fill: "fill_bytes SALT_LEN o0 = (Inr sl, o2)"
    and key: "derive_key x pw sl ps = Inr key"
    and w: "vault_write x p Body_default key sl ps o2 = (Inr (), o1)"
    and s: "s = \<lparr>body = Body_default, skey = key, salt = sl, params = ps\<rparr>"
    by (auto simp: vault_create_def bindE_eq_Inr)
  have "length sl = SALT_LEN" using fill_bytes_Inr [OF fill] by simp
  with ex key write_outcome_ok [OF vault_write_outcome [OF w]] show ?thesis
    by (simp add: s keyed_by_def Body_default_def)
qed

lemma vault_rotate_Inr:
  assumes "vault_rotate x p old new ps o0 = (Inr s, o1)"
  obtains s0 f0 f1 where "files (disk o0) (v_file p) = Some f0"
    and "decode_vault x old (content f0) = Inr s0" and "entries (body s) = entries (body s0)"
    and "keyed_by x new s" and "params s = ps" and "length (salt s) = SALT_LEN"
    and "files (disk o1) (v_file p) = Some f1" and "seals x s (content f1)"
proof -
  from assms obtain s0 o2 sl o3 key where u: "vault_unlock x p old o0 = (Inr s0, o2)"
    and fill: "fill_bytes SALT_LEN o2 = (Inr sl, o3)"
    and key: "derive_key x new sl ps = Inr key"
    and w: "vault_write x p \<lparr>entries = entries (body s0)\<rparr> key sl ps o3 = (Inr (), o1)"
    and s: "s = \<lparr>body = \<lparr>entries = entries (body s0)\<rparr>, skey = key, salt = sl, params = ps\<rparr>"
    by (auto simp: vault_rotate_def bindE_eq_Inr Let_def)
  obtain f0 where f0: "files (disk o0) (v_file p) = Some f0" "decode_vault x old (content f0) = Inr s0"
    using u by (rule vault_unlock_Inr)
  obtain f1 where f1: "files (disk o1) (v_file p) = Some f1" "seals x s (content f1)"
    using write_outcome_ok [OF vault_write_outcome [OF w]] by (auto simp: s)
  show thesis
    by (rule that [OF f0 _ _ _ _ f1])
      (use key fill_bytes_Inr [OF fill] in \<open>simp_all add: s keyed_by_def\<close>)
qed

lemma vault_rotate_outcome:
  assumes "vault_rotate x p old new ps o0 = (r, o1)"
  shows "same_file (v_file p) o0 o1 \<and> (\<exists>e. r = Inl e) \<or>
    (\<exists>u s'. write_outcome p o0 u o1 (seals x s') \<and> keyed_by x new s' \<and> length (salt s') = SALT_LEN \<and>
      (\<exists>f0 s0. files (disk o0) (v_file p) = Some f0 \<and> decode_vault x old (content f0) = Inr s0 \<and>
         entries (body s') = entries (body s0)) \<and>
      (case u of Inl e \<Rightarrow> r = Inl e | Inr _ \<Rightarrow> r = Inr s'))"
proof -
  obtain r2 o2 where u: "vault_unlock x p old o0 = (r2, o2)" by (cases "vault_unlock x p old o0")
  have same: "same_file (v_file p) o0 o2"
    using vault_unlock_disk [OF u] by (simp add: same_file_def)
  show ?thesis
  proof (cases r2)
    case (Inl e)
    with assms u same show ?thesis by (auto simp: vault_rotate_def)
  next
    case (Inr s0)
    define sl where "sl = map (rng o2) [0..<SALT_LEN]"
    define o3 where "o3 = o2\<lparr>rng := (\<lambda>i. rng o2 (SALT_LEN + i))\<rparr>"
    have fill: "fill_bytes SALT_LEN o2 = (Inr sl, o3)" by (simp add: fill_bytes_def sl_def o3_def)
    have same3: "same_file (v_file p) o0 o3"
      using same by (simp add: same_file_def o3_def)
    show ?thesis
    proof (cases "derive_key x new sl ps")
      case (Inl e)
      then have "r = Inl e \<and> o1 = o3"
        using assms u \<open>r2 = Inr s0\<close> fill
        by (simp add: vault_rotate_def bindE_def)
      with same3 show ?thesis by simp
    next
      case (Inr key)
      let ?s = "\<lparr>body = \<lparr>entries = entries (body s0)\<rparr>, skey = key, salt = sl, params = ps\<rparr>"
      obtain u4 o4 where w: "vault_write x p \<lparr>entries = entries (body s0)\<rparr> key sl ps o3 = (u4, o4)"
        by (cases "vault_write x p \<lparr>entries = entries (body s0)\<rparr> key sl ps o3")
      have "bindE (vault_write x p \<lparr>entries = entries (body s0)\<rparr> key sl ps) (\<lambda>_. returnE ?s) o3 = (r, o1)"
        using assms Inr u \<open>r2 = Inr s0\<close> fill
        by (simp add: vault_rotate_def Let_def)
      with w have o1: "o1 = o4" and r: "case u4 of Inl e \<Rightarrow> r = Inl e | Inr _ \<Rightarrow> r = Inr ?s"
        by (auto simp: bindE_def split: sum.splits)
      have out: "write_outcome p o0 u4 o1 (seals x ?s)"
        unfolding o1 by (rule write_outcome_mono [OF same3 vault_write_outcome [OF w]])
      have "keyed_by x new ?s" "length (salt ?s) = SALT_LEN"
        using Inr by (simp_all add: keyed_by_def sl_def)
      moreover obtain f0 where "files (disk o0) (v_file p) = Some f0"
        "decode_vault x old (content f0) = Inr s0"
        using u \<open>r2 = Inr s0\<close> by (auto elim: vault_unlock_Inr)
      ultimately show ?thesis using out r
        by (intro disjI2 exI [of _ u4] exI [of _ ?s]) auto
    qed
  qed
qed

lemma vault_rotate_env: "vault_rotate x p old new ps o0 = (r, o1) \<Longrightarrow> mono o1 = mono o0 \<and> unix o1 = unix o0"
proof -
  assume "vault_rotate x p old new ps o0 = (r, o1)"
  moreover have "keeps same_env (vault_rotate x p old new ps)"
    by (auto simp: vault_rotate_def vault_unlock_def Let_def intro!: kr_frame)
  ultimately show ?thesis by (auto simp: same_env_def dest: keepsD)
qed

subsection \<open>A concrete vault\<close>

definition demo_os :: os where
  "demo_os = \<lparr>disk = \<lparr>files = (\<lambda>_. None), dirs = (\<lambda>_. None)\<rparr>, faults = (\<lambda>_. IoOk), crash = [],
     rng = (\<lambda>_. 0), new_mode = 420, mono = 0, unix = 0\<rparr>"

definition demo_path :: vpath where
  "demo_path = \<lparr>v_file = lit ''/d/keyring.vault'', v_dir = Some (lit ''/d'')\<rparr>"

definition demo_params :: KdfParams where
  "demo_params = \<lparr>m_cost = 32, t_cost = 1, p_cost = 1\<rparr>"

definition demo_entry :: "rstring \<Rightarrow> Entry" where
  "demo_entry v = \<lparr>e_value = v, e_user = None, e_url = None, e_notes = Some (lit ''n''), e_tags = [],
     e_totp = False, e_created = 1, e_updated = 1\<rparr>"

definition demo_session :: "byte list \<Rightarrow> rstring \<Rightarrow> Session" where
  "demo_session pw v =
     \<lparr>body = \<lparr>entries = [(lit ''db/prod'', demo_entry v)]\<rparr>,
      skey = \<lparr>inner = take KEY_LEN (pw @ replicate KEY_LEN 0), pinned = True\<rparr>,
      salt = replicate SALT_LEN 0, params = demo_params\<rparr>"

lemma lib_derive:
  "8 \<le> m_cost ps \<Longrightarrow> t_cost ps \<noteq> 0 \<Longrightarrow> p_cost ps \<noteq> 0 \<Longrightarrow>
   derive_key (demo_lib m) pw s ps =
     Inr \<lparr>inner = take KEY_LEN (pw @ replicate KEY_LEN 0), pinned = True\<rparr>"
  by (simp add: derive_key_Inr demo_hash_def)

lemma demo_session_ok: "session_ok (demo_session pw v)"
  by (simp add: session_ok_def demo_session_def)

lemma lib_keyed: "keyed_by (demo_lib m) pw (demo_session pw v)"
  by (simp add: keyed_by_def demo_session_def lib_derive demo_params_def)

lemma lib_sealable: "sealable (demo_lib m) b key s ps"
  by (simp add: sealable_def demo_to_vec_def demo_encrypt_def)

lemmas demo_derive = lib_derive [where m = "()"]
lemmas demo_keyed = lib_keyed [where m = "()"]
lemmas demo_sealable = lib_sealable [where m = "()"]

lemma demo_reliable: "reliable demo_os"
  by (simp add: reliable_def demo_os_def)

lemma reliable_faults: "reliable s \<Longrightarrow> faults s n = IoOk"
  by (simp add: reliable_def)

text \<open>A disk on which a vault has been saved once.\<close>

lemma demo_saved:
  obtains o1 f where "vault_save demo_vault_ext demo_path (demo_session pw v) demo_os = (Inr (), o1)"
    and "reliable o1" and "files (disk o1) (v_file demo_path) = Some f" and "fmode f = 384"
    and "seals demo_vault_ext (demo_session pw v) (content f)"
  by (rule vault_save_reliable [OF demo_reliable demo_sealable]) blast

subsection \<open>Properties\<close>

text \<open>C33. A saved session is read back exactly: unlocking with the password it was opened with
  returns the same entries, key, salt and KDF parameters (taken from the file's header).\<close>

theorem save_then_unlock:
  assumes "aead_ok x" "body_codec x" "session_ok s" "keyed_by x pw s"
    and "vault_save x p s o0 = (Inr (), o1)" "faults o1 0 = IoOk"
  shows "fst (vault_unlock x p pw o1) = Inr s"
proof -
  obtain f where "files (disk o1) (v_file p) = Some f" "seals x s (content f)"
    using assms(5) by (rule vault_save_ok)
  then show ?thesis
    using assms by (simp add: vault_unlock_eq decode_sealed)
qed

theorem save_then_unlock_witness:
  "\<exists>o1. vault_save demo_vault_ext demo_path (demo_session [1] [2]) demo_os = (Inr (), o1) \<and>
     fst (vault_unlock demo_vault_ext demo_path [1] o1) = Inr (demo_session [1] [2])"
proof -
  obtain o1 where "vault_save demo_vault_ext demo_path (demo_session [1] [2]) demo_os = (Inr (), o1)"
    and "reliable o1"
    by (rule demo_saved)
  with save_then_unlock [OF demo_aead_ok demo_body_codec demo_session_ok demo_keyed, where p = demo_path]
  show ?thesis by (auto simp: reliable_faults)
qed



text \<open>Without I/O errors a save of a serialisable session always succeeds, leaves the previous
  file (content and mode) as the backup, and the new file readable by its owner only (mode 0600).\<close>

theorem save_keeps_backup:
  assumes "reliable o0" "sealable x (body s) (skey s) (salt s) (params s)"
    and "files (disk o0) (v_file p) = Some f0"
  shows "\<exists>o1 f. vault_save x p s o0 = (Inr (), o1) \<and> files (disk o1) (bak_path p) = Some f0 \<and>
    files (disk o1) (v_file p) = Some f \<and> fmode f = 384 \<and> seals x s (content f)"
  using vault_save_reliable [OF assms(1,2), of p] assms(3) by fastforce

theorem save_keeps_backup_witness:
  "\<exists>o1 f0 o2. vault_save demo_vault_ext demo_path (demo_session [1] [2]) demo_os = (Inr (), o1) \<and>
     files (disk o1) (v_file demo_path) = Some f0 \<and>
     vault_save demo_vault_ext demo_path (demo_session [1] [3]) o1 = (Inr (), o2) \<and>
     files (disk o2) (bak_path demo_path) = Some f0"
proof -
  obtain o1 f0 where o1: "vault_save demo_vault_ext demo_path (demo_session [1] [2]) demo_os = (Inr (), o1)"
    and r: "reliable o1" and f0: "files (disk o1) (v_file demo_path) = Some f0"
    by (rule demo_saved)
  from save_keeps_backup [OF r demo_sealable f0] o1 f0 show ?thesis by blast
qed

text \<open>The header format is unambiguous: a file parses to a header and a body exactly when it is
  the concatenation of that header's bytes and the body, so no two headers share a file and every
  byte of the header is accounted for.\<close>

theorem header_format_exact:
  "parse raw = Inr (h, c) \<longleftrightarrow>
     length (h_salt h) = SALT_LEN \<and> length (h_nonce h) = NONCE_LEN \<and>
     raw = aad (h_params h) (h_salt h) @ h_nonce h @ c"
  using hdr.dec_iff [of raw "(h, c)"] by (auto simp: try_parse_def split: sum.splits)

text \<open>C4. A successful unlock authenticates the whole header: the file on disk is exactly the sealing,
  under the key derived from the password, of the body it returns, with the header bytes (magic,
  version, KDF parameters, salt) as associated data.\<close>

theorem unlock_authenticates:
  assumes "aead_tight x" "vault_unlock x p pw o0 = (Inr s, o1)"
  shows "\<exists>f nonce plain c. files (disk o0) (v_file p) = Some f \<and>
    content f = aad (params s) (salt s) @ nonce @ c \<and> length nonce = NONCE_LEN \<and>
    derive_key x pw (salt s) (params s) = Inr (skey s) \<and>
    aead_encrypt x (inner (skey s)) nonce (aad (params s) (salt s)) plain = Some c \<and>
    body_from_slice x plain = Inr (body s)"
proof -
  obtain f where f: "files (disk o0) (v_file p) = Some f" "decode_vault x pw (content f) = Inr s"
    using assms(2) by (rule vault_unlock_Inr)
  obtain nonce plain c where "content f = aad (params s) (salt s) @ nonce @ c"
    and "length nonce = NONCE_LEN" and "keyed_by x pw s"
    and "aead_decrypt x (inner (skey s)) nonce (aad (params s) (salt s)) c = Some plain"
    and "body_from_slice x plain = Inr (body s)"
    using f(2) by (rule decode_Inr)
  then show ?thesis
    using f(1) aead_tightD [OF assms(1)]
    by (intro exI [of _ f] exI [of _ nonce] exI [of _ plain] exI [of _ c])
      (simp add: keyed_by_def)
qed

theorem unlock_authenticates_witness:
  "\<exists>o1 o2 f nonce plain c.
     vault_unlock demo_vault_ext demo_path [1] o1 = (Inr (demo_session [1] [2]), o2) \<and>
     files (disk o1) (v_file demo_path) = Some f \<and>
     content f = aad demo_params (replicate SALT_LEN 0) @ nonce @ c \<and>
     demo_encrypt (inner (skey (demo_session [1] [2]))) nonce
       (aad demo_params (replicate SALT_LEN 0)) plain = Some c"
proof -
  obtain o1 f where r: "reliable o1" and f: "files (disk o1) (v_file demo_path) = Some f"
    "seals demo_vault_ext (demo_session [1] [2]) (content f)"
    by (rule demo_saved)
  have "decode_vault demo_vault_ext [1] (content f) = Inr (demo_session [1] [2])"
    using decode_sealed [OF demo_aead_ok demo_body_codec demo_session_ok demo_keyed f(2)] .
  then obtain o2 where u: "vault_unlock demo_vault_ext demo_path [1] o1 = (Inr (demo_session [1] [2]), o2)"
    by (simp add: vault_unlock_eq [OF reliable_faults [OF r] f(1)])
  from unlock_authenticates [OF demo_aead_tight u] u show ?thesis
    by (simp add: demo_session_def) blast
qed

text \<open>C23. A wrong password is refused: when the key it derives to is not the session's key, unlock
  reports a wrong password and leaves the disk as it was.\<close>

theorem wrong_password_refused:
  assumes "aead_auth x" "kdf_len x" "session_ok s" "reliable o0"
    and "files (disk o0) (v_file p) = Some f" "seals x s (content f)"
    and "derive_key x pw (salt s) (params s) = Inr k" "inner k \<noteq> inner (skey s)"
  shows "\<exists>o1. vault_unlock x p pw o0 = (Inl EWrongPassword, o1) \<and> disk o1 = disk o0"
  using decode_wrong_key [OF assms(1-3,6-8)]
  by (simp add: vault_unlock_eq [OF reliable_faults [OF assms(4)] assms(5)])

theorem wrong_password_refused_witness:
  "\<exists>o1 o2. vault_save demo_vault_ext demo_path (demo_session [1] [2]) demo_os = (Inr (), o1) \<and>
     vault_unlock demo_vault_ext demo_path [9] o1 = (Inl EWrongPassword, o2)"
proof -
  obtain o1 f where o1: "vault_save demo_vault_ext demo_path (demo_session [1] [2]) demo_os = (Inr (), o1)"
    and r: "reliable o1" and f: "files (disk o1) (v_file demo_path) = Some f"
    "seals demo_vault_ext (demo_session [1] [2]) (content f)"
    by (rule demo_saved)
  have "derive_key demo_vault_ext [9] (salt (demo_session [1] [2])) (params (demo_session [1] [2])) =
      Inr \<lparr>inner = take KEY_LEN ([9] @ replicate KEY_LEN 0), pinned = True\<rparr>"
    by (simp add: demo_derive demo_session_def demo_params_def)
  from wrong_password_refused [OF demo_aead_auth demo_kdf_len demo_session_ok r f this] o1
  show ?thesis by (auto simp: demo_session_def KEY_LEN_def)
qed

text \<open>C24. Tampering with the header is detected: replacing the 58 header bytes of a sealed file by
  any other 58 bytes (a KDF parameter lowered, a salt or nonce swapped) leaves a file that no
  password opens.\<close>

theorem header_tampering_refused:
  assumes "aead_auth x" "kdf_len x" "session_ok s" "seals x s (hb @ c)"
    and "length hb = HEADER_LEN" "length hb' = HEADER_LEN" "hb' \<noteq> hb"
    and "files (disk o0) (v_file p) = Some f" "content f = hb' @ c"
  shows "\<nexists>t o1. vault_unlock x p pw o0 = (Inr t, o1)"
proof
  assume "\<exists>t o1. vault_unlock x p pw o0 = (Inr t, o1)"
  then obtain t where "decode_vault x pw (hb' @ c) = Inr t"
    using assms(8,9) by (auto elim: vault_unlock_Inr)
  with decode_tampered_header [OF assms(1-7)] show False by blast
qed

theorem header_tampering_refused_witness:
  "\<exists>c. seals demo_vault_ext (demo_session [1] [2])
      ((aad demo_params (replicate SALT_LEN 0) @ replicate NONCE_LEN 0) @ c) \<and>
    (\<nexists>t o1. vault_unlock demo_vault_ext demo_path [1]
      (demo_os\<lparr>disk := set_file (v_file demo_path) (Some \<lparr>content =
         (aad (demo_params\<lparr>t_cost := 2\<rparr>) (replicate SALT_LEN 0) @ replicate NONCE_LEN 0) @ c,
         fmode = 384\<rparr>) (disk demo_os)\<rparr>) = (Inr t, o1))"
proof -
  let ?hb = "aad demo_params (replicate SALT_LEN 0) @ replicate NONCE_LEN 0"
  let ?hb' = "aad (demo_params\<lparr>t_cost := 2\<rparr>) (replicate SALT_LEN 0) @ replicate NONCE_LEN 0"
  let ?s = "demo_session [1] [2]"
  obtain json c where "body_to_vec demo_vault_ext (body ?s) = Inr json"
    and "aead_encrypt demo_vault_ext (inner (skey ?s)) (replicate NONCE_LEN 0)
      (aad (params ?s) (salt ?s)) json = Some c"
    by (simp add: demo_to_vec_def demo_encrypt_def)
  then have seal: "seals demo_vault_ext ?s (?hb @ c)"
    unfolding seals_def
    by (intro exI [of _ json] exI [of _ "replicate NONCE_LEN 0"] exI [of _ c])
      (simp add: demo_session_def)
  have len: "length ?hb = HEADER_LEN" "length ?hb' = HEADER_LEN"
    by (simp_all add: HEADER_LEN_def)
  have ne: "?hb' \<noteq> ?hb" by (simp add: aad_inject demo_params_def)
  show ?thesis
    using seal header_tampering_refused [OF demo_aead_auth demo_kdf_len demo_session_ok seal len ne,
        where p = demo_path] by auto
qed

text \<open>\<open>create\<close> never overwrites: it succeeds only where no vault file exists, and the empty vault
  it writes opens with the password it was given.\<close>

theorem create_fresh:
  assumes "aead_ok x" "body_codec x" "kdf_len x"
    and "vault_create x p pw ps o0 = (Inr s, o1)" "faults o1 0 = IoOk"
  shows "\<not> vault_exists p o0 \<and> entries (body s) = [] \<and> params s = ps \<and>
    fst (vault_unlock x p pw o1) = Inr s"
proof -
  from vault_create_Inr [OF assms(4)] obtain f where
    c: "\<not> vault_exists p o0" "keyed_by x pw s" "length (salt s) = SALT_LEN" "params s = ps"
      "entries (body s) = []"
    and f: "files (disk o1) (v_file p) = Some f" "seals x s (content f)" by blast
  have "session_ok s"
    using c derive_key_len [OF assms(3)] by (simp add: session_ok_def keyed_by_def)
  then show ?thesis
    using c decode_sealed [OF assms(1,2) _ c(2) f(2)]
    by (simp add: vault_unlock_eq [OF assms(5) f(1)])
qed

lemma demo_create:
  obtains s o1 where "vault_create demo_vault_ext demo_path [1] demo_params demo_os = (Inr s, o1)"
    and "reliable o1"
proof -
  let ?sl = "map (rng demo_os) [0..<SALT_LEN]"
  let ?o = "demo_os\<lparr>rng := (\<lambda>i. rng demo_os (SALT_LEN + i))\<rparr>"
  let ?k = "\<lparr>inner = take KEY_LEN ([1] @ replicate KEY_LEN 0), pinned = True\<rparr>"
  have r: "reliable ?o" using demo_reliable by simp
  obtain o1 where w: "vault_write demo_vault_ext demo_path Body_default ?k ?sl demo_params ?o = (Inr (), o1)"
    "reliable o1"
    using r demo_sealable by (rule vault_write_reliable)
  have "\<not> vault_exists demo_path demo_os"
    by (simp add: vault_exists_def fs_is_file_def demo_os_def)
  moreover have "derive_key demo_vault_ext [1] ?sl demo_params = Inr ?k"
    by (rule demo_derive) (simp_all add: demo_params_def)
  ultimately have "vault_create demo_vault_ext demo_path [1] demo_params demo_os =
      (Inr \<lparr>body = Body_default, skey = ?k, salt = ?sl, params = demo_params\<rparr>, o1)"
    using w(1) by (simp add: vault_create_def fill_bytes_def bindE_def)
  then show thesis using that w(2) by blast
qed

theorem create_fresh_witness:
  "\<exists>s o1. vault_create demo_vault_ext demo_path [1] demo_params demo_os = (Inr s, o1) \<and>
     fst (vault_unlock demo_vault_ext demo_path [1] o1) = Inr s"
proof -
  obtain s o1 where c: "vault_create demo_vault_ext demo_path [1] demo_params demo_os = (Inr s, o1)"
    and r: "reliable o1" by (rule demo_create)
  from create_fresh [OF demo_aead_ok demo_body_codec demo_kdf_len c reliable_faults [OF r]] c
  show ?thesis by blast
qed

text \<open>C32. Rotation changes the password and keeps the entries: it succeeds only with the old password,
  the new file opens with the new password to the same entries under the new KDF parameters, and
  the old password is refused wherever it derives to a different key.\<close>

theorem rotate_reencrypts:
  assumes "aead_ok x" "aead_auth x" "body_codec x" "kdf_len x"
    and "vault_rotate x p old new ps o0 = (Inr s, o1)" "reliable o1"
  shows "\<exists>s0. fst (vault_unlock x p old o0) = Inr s0 \<and> entries (body s) = entries (body s0) \<and>
    params s = ps \<and> fst (vault_unlock x p new o1) = Inr s \<and>
    (\<forall>k. derive_key x old (salt s) ps = Inr k \<longrightarrow> inner k \<noteq> inner (skey s) \<longrightarrow>
       fst (vault_unlock x p old o1) = Inl EWrongPassword)"
proof -
  obtain s0 f0 f1 where f0: "files (disk o0) (v_file p) = Some f0"
    "decode_vault x old (content f0) = Inr s0"
    and s: "entries (body s) = entries (body s0)" "keyed_by x new s" "params s = ps"
    "length (salt s) = SALT_LEN"
    and f1: "files (disk o1) (v_file p) = Some f1" "seals x s (content f1)"
    using assms(5) by (rule vault_rotate_Inr)
  have ok: "session_ok s"
    using decode_session_ok [OF assms(4,3) f0(2)] s derive_key_len [OF assms(4)]
    by (simp add: session_ok_def keyed_by_def)
  have u0: "fst (vault_unlock x p old o0) = Inr s0"
  proof -
    obtain v o2 where "vault_unlock x p old o0 = (Inr v, o2)"
      using assms(5) by (auto simp: vault_rotate_def bindE_eq_Inr)
    with f0 show ?thesis by (auto elim!: vault_unlock_Inr)
  qed
  note un = vault_unlock_eq [OF reliable_faults [OF assms(6)] f1(1)]
  show ?thesis
    using u0 s decode_sealed [OF assms(1,3) ok s(2) f1(2)]
      decode_wrong_key [OF assms(2,4) ok f1(2), of old]
    by (intro exI [of _ s0]) (auto simp: un)
qed

lemma vault_rotate_reliable:
  assumes r: "reliable o0" and f: "files (disk o0) (v_file p) = Some f" "decode_vault x old (content f) = Inr s"
    and k: "\<forall>sl. length sl = SALT_LEN \<longrightarrow> (\<exists>k. derive_key x new sl ps = Inr k)"
    and seal: "\<forall>b key sl. sealable x b key sl ps"
  obtains s1 o1 where "vault_rotate x p old new ps o0 = (Inr s1, o1)" and "reliable o1"
proof -
  let ?o1 = "o0\<lparr>faults := (\<lambda>n. faults o0 (Suc n))\<rparr>"
  let ?sl = "map (rng ?o1) [0..<SALT_LEN]"
  let ?o2 = "?o1\<lparr>rng := (\<lambda>i. rng ?o1 (SALT_LEN + i))\<rparr>"
  have un: "vault_unlock x p old o0 = (Inr s, ?o1)"
    using f(2) by (simp add: vault_unlock_eq [OF reliable_faults [OF r] f(1)])
  have "reliable ?o2" using r by (simp add: reliable_def)
  moreover obtain key where key: "derive_key x new ?sl ps = Inr key" using k by force
  moreover have "sealable x \<lparr>entries = entries (body s)\<rparr> key ?sl ps" using seal by blast
  ultimately obtain o3 where w: "vault_write x p \<lparr>entries = entries (body s)\<rparr> key ?sl ps ?o2 = (Inr (), o3)"
    "reliable o3" by (metis vault_write_reliable)
  have "vault_rotate x p old new ps o0 =
      (Inr \<lparr>body = \<lparr>entries = entries (body s)\<rparr>, skey = key, salt = ?sl, params = ps\<rparr>, o3)"
    using un key w(1) by (simp add: vault_rotate_def fill_bytes_def bindE_def Let_def)
  then show thesis using that w(2) by blast
qed

lemma lib_derives: "\<exists>k. derive_key (demo_lib m) pw sl demo_params = Inr k"
  by (simp add: lib_derive demo_params_def)

lemma demo_rotate:
  obtains o1 s o2 where "vault_save demo_vault_ext demo_path (demo_session [1] [2]) demo_os = (Inr (), o1)"
    and "reliable o1" and "vault_rotate demo_vault_ext demo_path [1] [7] demo_params o1 = (Inr s, o2)"
    and "reliable o2"
proof -
  obtain o1 f where o1: "vault_save demo_vault_ext demo_path (demo_session [1] [2]) demo_os = (Inr (), o1)"
    "reliable o1" and f: "files (disk o1) (v_file demo_path) = Some f"
    "seals demo_vault_ext (demo_session [1] [2]) (content f)"
    by (rule demo_saved)
  have d: "decode_vault demo_vault_ext [1] (content f) = Inr (demo_session [1] [2])"
    by (rule decode_sealed [OF demo_aead_ok demo_body_codec demo_session_ok demo_keyed f(2)])
  have k: "\<forall>sl. length sl = SALT_LEN \<longrightarrow> (\<exists>k. derive_key demo_vault_ext [7] sl demo_params = Inr k)"
    by (intro allI impI) (rule lib_derives)
  have q: "\<forall>b key sl. sealable demo_vault_ext b key sl demo_params" by (intro allI) (rule demo_sealable)
  obtain s o2 where
    "vault_rotate demo_vault_ext demo_path [1] [7] demo_params o1 = (Inr s, o2)" "reliable o2"
    by (rule vault_rotate_reliable [OF o1(2) f(1) d k q])
  with o1 show thesis by (rule that)
qed

theorem rotate_reencrypts_witness:
  "\<exists>o1 s o2. vault_rotate demo_vault_ext demo_path [1] [7] demo_params o1 = (Inr s, o2) \<and>
     fst (vault_unlock demo_vault_ext demo_path [7] o2) = Inr s"
proof -
  obtain o1 s o2 where r: "vault_rotate demo_vault_ext demo_path [1] [7] demo_params o1 = (Inr s, o2)"
    "reliable o2" by (rule demo_rotate)
  from rotate_reencrypts [OF demo_aead_ok demo_aead_auth demo_body_codec demo_kdf_len r] r
  show ?thesis by blast
qed



text \<open>Dropping a session (on lock, on rotation, at exit) wipes it: no stored value or note is left,
  the key bytes are zero and their page is released; names and sizes of the map are all that stay.\<close>

theorem session_drop_wipes:
  "map fst (entries (body (session_drop s))) = map fst (entries (body s)) \<and>
   (\<forall>e \<in> snd ` set (entries (body (session_drop s))). e_value e = [] \<and> e_notes e \<in> {None, Some []}) \<and>
   set (inner (skey (session_drop s))) \<subseteq> {0} \<and> \<not> pinned (skey (session_drop s))"
  by (auto simp: session_drop_def body_zeroize_def entry_zeroize_def bt_map_def)

theorem session_drop_wipes_witness:
  "\<exists>e. snd (hd (entries (body (session_drop (demo_session [1] [2]))))) = e \<and> e_value e = []"
  using session_drop_wipes [of "demo_session [1] [2]"]
  by (simp add: session_drop_def body_zeroize_def demo_session_def)

end
