(* ===== verification/KR_System.thy ===== *)
theory KR_System
  imports KR_Server KR_VaultProps
begin

text \<open>
  The daemon as a transition system: requests served, parked and resumed by any client, the idle
  timer, connections and the clock, in any order. \<open>agent_rel\<close> relates the agent before and after
  any of this; its invariant part interprets the contract \<open>invariant_system\<close>.
\<close>

subsection \<open>What a client knows from the lines it was sent\<close>

definition view_line :: "'x rpc_ext_scheme \<Rightarrow> rstring \<Rightarrow> bool \<Rightarrow> bool" where
  "view_line x l b = (if l = state_line x True then True else if l = state_line x False then False else b)"

definition view :: "'x rpc_ext_scheme \<Rightarrow> bool \<Rightarrow> rstring list \<Rightarrow> bool" where
  "view x b ls = fold (view_line x) ls b"

lemma view_simps [simp]:
  "view x b [] = b" "view x b (ls @ ms) = view x (view x b ls) ms"
  "view x b (l # ls) = view x (view_line x l b) ls"
  by (simp_all add: view_def)

lemma state_line_inject: "json_codec x \<Longrightarrow> state_line x b = state_line x c \<longleftrightarrow> b = c"
  unfolding state_line_def
  by (auto dest!: notification_inject simp: bt_of_list_def)

lemma view_state_line [simp]: "json_codec x \<Longrightarrow> view_line x (state_line x c) b = c"
  by (simp add: view_line_def state_line_inject)

lemma view_other [simp]:
  "json_codec x \<Longrightarrow> view_line x (response_ok x i r) b = b"
  "json_codec x \<Longrightarrow> view_line x (response_err x i e) b = b"
  by (simp_all add: view_line_def state_line_def envelopes_distinct)

lemma view_unlock_needed [simp]: "json_codec x \<Longrightarrow> view_line x (unlock_needed_line x) b = b"
proof -
  assume "json_codec x"
  then have "unlock_needed_line x \<noteq> state_line x c" for c
    unfolding unlock_needed_line_def state_line_def using notification_inject by fastforce
  then show ?thesis by (simp add: view_line_def)
qed

subsection \<open>The relation between the agent before and after\<close>

definition agent_ok :: "agent \<Rightarrow> bool" where
  "agent_ok a \<longleftrightarrow>
     (\<forall>s. session a = Some s \<longrightarrow> session_ok s) \<and> last_activity a \<le> mono (sys a)"

definition client_rel ::
  "'x rpc_ext_scheme \<Rightarrow> bool \<Rightarrow> bool \<Rightarrow> u64 \<times> rstring list \<Rightarrow> u64 \<times> rstring list \<Rightarrow> bool" where
  "client_rel x b b' c d \<longleftrightarrow> fst d = fst c \<and> (\<exists>new. snd d = snd c @ new \<and> view x b new = b')"

definition agent_rel :: "'x rpc_ext_scheme \<Rightarrow> agent \<Rightarrow> agent \<Rightarrow> bool" where
  "agent_rel x a a' \<longleftrightarrow>
     cfg a' = cfg a \<and> next_client a' = next_client a \<and> mono (sys a) \<le> mono (sys a') \<and>
     list_all2 (client_rel x (is_locked a) (is_locked a')) (clients a) (clients a') \<and>
     (agent_ok a \<longrightarrow> agent_ok a')"

lemma client_rel_trans:
  assumes "client_rel x b1 b2 c d" "client_rel x b2 b3 d e"
  shows "client_rel x b1 b3 c e"
proof -
  from assms obtain m n where "fst d = fst c" "snd d = snd c @ m" "view x b1 m = b2"
    "fst e = fst d" "snd e = snd d @ n" "view x b2 n = b3"
    by (auto simp: client_rel_def)
  then show ?thesis by (simp add: client_rel_def)
qed

lemma agent_rel_trans:
  assumes "agent_rel x a b" "agent_rel x b c"
  shows "agent_rel x a c"
proof -
  have "list_all2 (client_rel x (is_locked a) (is_locked c)) (clients a) (clients c)"
    by (rule list_all2_trans [of "client_rel x (is_locked a) (is_locked b)"
          "client_rel x (is_locked b) (is_locked c)" _ _ "clients b"])
      (use assms in \<open>auto simp: agent_rel_def intro: client_rel_trans\<close>)
  with assms show ?thesis by (auto simp: agent_rel_def)
qed

lemma client_rel_refl: "list_all2 (client_rel x b b) cs cs"
  by (rule list_all2_refl) (auto simp: client_rel_def intro: exI [of _ "[]"])

lemma agent_rel_same:
  assumes "cfg a' = cfg a" "next_client a' = next_client a" "clients a' = clients a"
    and "is_locked a' = is_locked a" "mono (sys a) \<le> mono (sys a')" "agent_ok a \<Longrightarrow> agent_ok a'"
  shows "agent_rel x a a'"
  using assms by (simp add: agent_rel_def client_rel_refl)

lemma agent_rel_refl [simp]: "agent_rel x a a"
  by (rule agent_rel_same) simp_all

lemma clients_map_rel:
  assumes "\<And>c. c \<in> set cs \<Longrightarrow> client_rel x b b' c (f c)"
  shows "list_all2 (client_rel x b b') cs (map f cs)"
  using assms by (induction cs) simp_all

lemma clients_broadcast_map: "clients (broadcast l a) = map (\<lambda>(i, q). (i, q @ [l])) (clients a)"
  by (simp add: broadcast_def)

lemma clients_send_map:
  "clients (send_to i l a) = map (\<lambda>(j, q). (j, if j = i then q @ [l] else q)) (clients a)"
  by (simp add: send_to_def)

lemma agent_rel_broadcast:
  assumes "view_line x l (is_locked a) = is_locked a'" "clients a' = clients (broadcast l a)"
    and "cfg a' = cfg a" "next_client a' = next_client a" "sys a' = sys a" "agent_ok a \<Longrightarrow> agent_ok a'"
  shows "agent_rel x a a'"
proof -
  have "list_all2 (client_rel x (is_locked a) (is_locked a')) (clients a) (clients (broadcast l a))"
    unfolding clients_broadcast_map
    by (rule clients_map_rel) (use assms(1) in \<open>auto simp: client_rel_def\<close>)
  with assms show ?thesis by (simp add: agent_rel_def)
qed

lemma send_to_simps [simp]:
  "cfg (send_to i l a) = cfg a" "session (send_to i l a) = session a"
  "next_client (send_to i l a) = next_client a" "sys (send_to i l a) = sys a"
  "fail_count (send_to i l a) = fail_count a" "last_activity (send_to i l a) = last_activity a"
  "unlock_gen (send_to i l a) = unlock_gen a" "is_locked (send_to i l a) = is_locked a"
  "agent_ok (send_to i l a) = agent_ok a"
  by (simp_all add: send_to_def is_locked_def agent_ok_def)

lemma agent_rel_send:
  assumes "\<And>b. view_line x l b = b"
  shows "agent_rel x a (send_to i l a)"
proof -
  have "client_rel x b b (j, q) (j, if j = i then q @ [l] else q)" for b j q
    unfolding client_rel_def
    by (rule conjI, simp, rule exI [of _ "if j = i then [l] else []"]) (simp add: assms)
  then have "list_all2 (client_rel x (is_locked a) (is_locked a)) (clients a) (clients (send_to i l a))"
    unfolding clients_send_map by (intro clients_map_rel) (simp split: prod.split)
  then show ?thesis by (simp add: agent_rel_def)
qed

lemma agent_rel_sys: "mono (sys a) \<le> mono o1 \<Longrightarrow> agent_rel x a (a\<lparr>sys := o1\<rparr>)"
  by (rule agent_rel_same) (simp_all add: is_locked_def agent_ok_def)

lemma agent_rel_touch [simp]: "agent_rel x a (touch a)"
  by (rule agent_rel_same) (simp_all add: agent_ok_def)

lemma agent_rel_unlock_needed:
  "json_codec x \<Longrightarrow> agent_rel x a (broadcast_unlock_needed x a)"
  unfolding broadcast_unlock_needed_def
  by (rule agent_rel_broadcast) (simp_all add: is_locked_def agent_ok_def)

lemma agent_rel_adopt:
  assumes "json_codec x" "session_ok s"
  shows "agent_rel x a (adopt x s a)"
  unfolding adopt_def broadcast_state_def
  by (rule agent_rel_broadcast [where l = "state_line x False"])
    (use assms in \<open>simp_all add: is_locked_def agent_ok_def broadcast_def\<close>)

lemma agent_rel_lock:
  assumes "json_codec x" "session a \<noteq> None"
  shows "agent_rel x a (broadcast_state x True (a\<lparr>session := None\<rparr>))"
  unfolding broadcast_state_def
  by (rule agent_rel_broadcast [where l = "state_line x True"])
    (use assms in \<open>simp_all add: is_locked_def agent_ok_def broadcast_def\<close>)

lemma agent_rel_session:
  assumes "session a = Some s" "session_ok s \<Longrightarrow> session_ok s1"
  shows "agent_rel x a (a\<lparr>session := Some s1\<rparr>)"
  by (rule agent_rel_same) (use assms in \<open>simp_all add: is_locked_def agent_ok_def\<close>)

subsection \<open>Every handler stays in the relation\<close>

text \<open>The schedule's other threads are assumed to stay in it too; the steps below do.\<close>

definition sched_ok :: "'x rpc_ext_scheme \<Rightarrow> sched \<Rightarrow> bool" where
  "sched_ok x sch \<longleftrightarrow> (\<forall>w \<in> set (wakes sch). \<forall>a. agent_rel x a (w a)) \<and> (\<forall>a. agent_rel x a (gap sch a))"

definition libs_ok :: "'x rpc_ext_scheme \<Rightarrow> bool" where
  "libs_ok x \<longleftrightarrow> json_codec x \<and> kdf_len x \<and> body_codec x"

lemma libs_okD: "libs_ok x \<Longrightarrow> json_codec x" "libs_ok x \<Longrightarrow> kdf_len x" "libs_ok x \<Longrightarrow> body_codec x"
  by (simp_all add: libs_ok_def)

lemma wait_loop_rel:
  "wait_loop st d ws a = Some (b, a') \<Longrightarrow> \<forall>w \<in> set ws. \<forall>a. agent_rel x a (w a) \<Longrightarrow> agent_rel x a a'"
proof (induction ws arbitrary: a)
  case Nil
  then show ?case by (auto simp: wait_loop_Nil)
next
  case (Cons w ws)
  then show ?case
    by (auto simp: wait_loop_Cons split: option.splits intro: agent_rel_trans)
qed

lemma acquire_rel:
  assumes "libs_ok x" "sched_ok x sch" "acquire x w sch a = Some (r, a1)"
  shows "agent_rel x a a1"
proof -
  have wait: "agent_rel x a b" if "wait_for_unlock x (wakes sch) a = Some (c, b)" for b c
    using that assms(2) agent_rel_unlock_needed [OF libs_okD(1) [OF assms(1)], of a]
    by (auto simp: wait_for_unlock_def Let_def sched_ok_def split: if_splits
        intro: agent_rel_trans dest!: wait_loop_rel)
  have gap: "agent_rel x b (gap sch b)" for b using assms(2) by (simp add: sched_ok_def)
  show ?thesis
    using assms(3) wait gap
    by (auto simp: acquire_def Let_def split: if_splits option.splits bool.splits
        intro: agent_rel_trans [OF wait gap])
qed

text \<open>An operation that keeps sessions well formed.\<close>

definition keeps_session :: "'r session_fun \<Rightarrow> bool" where
  "keeps_session f \<longleftrightarrow> (\<forall>ts s. session_ok s \<longrightarrow> session_ok (snd (f ts s)))"

lemma implements_keeps: "implements f spec \<Longrightarrow> keeps_session f"
  unfolding keeps_session_def session_ok_def
  by (metis implementsD(2-4) prod.collapse)

lemma upsert_keeps: "keeps_session (upsert_op n v)"
  by (auto simp: keeps_session_def session_ok_def upsert_op_def bt.wf_put split: option.split)

lemma vault_save_mono: "vault_save x p s o0 = (r, o1) \<Longrightarrow> mono o1 = mono o0"
  using keepsD [OF vault_write_same_env] by (fastforce simp: vault_save_def same_env_def)

lemma vault_lifecycle_mono:
  "vault_create x p pw ps o0 = (r, o1) \<Longrightarrow> mono o1 = mono o0"
  "vault_unlock x p pw o0 = (r, o1) \<Longrightarrow> mono o1 = mono o0"
  "vault_rotate x p old new ps o0 = (r, o1) \<Longrightarrow> mono o1 = mono o0"
proof -
  have "keeps same_env (\<lambda>o0. vault_create x p pw ps o0)"
  proof (rule keepsI)
    fix s
    have "keeps same_env (bindE (fill_bytes SALT_LEN) (\<lambda>s.
           bindE (liftE (derive_key x pw s ps)) (\<lambda>key.
           bindE (vault_write x p Body_default key s ps) (\<lambda>_.
           returnE \<lparr>body = Body_default, skey = key, salt = s, params = ps\<rparr>))))"
      by (auto intro!: kr_frame)
    then show "same_env s (snd (vault_create x p pw ps s))"
      by (simp add: vault_create_def keeps_def)
  qed
  then show "vault_create x p pw ps o0 = (r, o1) \<Longrightarrow> mono o1 = mono o0"
    by (auto simp: same_env_def dest: keepsD)
  have "keeps same_env (vault_unlock x p pw)"
    by (auto simp: vault_unlock_def intro!: kr_frame)
  then show "vault_unlock x p pw o0 = (r, o1) \<Longrightarrow> mono o1 = mono o0"
    by (auto simp: same_env_def dest: keepsD)
  show "vault_rotate x p old new ps o0 = (r, o1) \<Longrightarrow> mono o1 = mono o0"
    using vault_rotate_env by blast
qed

lemma with_session_rel:
  assumes "libs_ok x" "sched_ok x sch" "keeps_session f" "with_session x w sch f a = Some (r, a1)"
  shows "agent_rel x a a1"
proof -
  from assms(4) obtain r0 b where acq: "acquire x w sch a = Some (r0, b)"
    by (auto simp: with_session_def split: option.splits)
  have ab: "agent_rel x a b" using assms(1,2) acq by (rule acquire_rel)
  show ?thesis
  proof (cases r0)
    case (Inl e)
    with assms(4) acq ab show ?thesis by (simp add: with_session_def)
  next
    case (Inr s)
    with acquire_Some [OF acq] have s: "session b = Some s" by auto
    obtain q s1 where fs: "f (now_secs (sys b)) s = (q, s1)" by (cases "f (now_secs (sys b)) s")
    have step: "agent_rel x b (b\<lparr>session := Some s1\<rparr>)"
      using assms(3) fs by (intro agent_rel_session [OF s]) (metis keeps_session_def snd_conv)
    have "a1 = b\<lparr>session := Some s1\<rparr> \<or>
        (\<exists>o1. a1 = b\<lparr>session := Some s1\<rparr>\<lparr>sys := o1\<rparr> \<and> mono o1 = mono (sys b))"
      using assms(4) acq Inr fs
      by (auto simp: with_session_def lift_sys_def split: sum.splits prod.splits dest: vault_save_mono)
    then have "agent_rel x (b\<lparr>session := Some s1\<rparr>) a1"
      by (auto intro!: agent_rel_sys)
    then show ?thesis using ab step by (blast intro: agent_rel_trans)
  qed
qed

lemma read_session_rel:
  assumes "libs_ok x" "sched_ok x sch" "read_session x w sch f a = Some (r, a1)"
  shows "agent_rel x a a1"
  using assms by (auto simp: read_session_def split: option.splits sum.splits intro: acquire_rel)

lemma reply_SomeD: "reply g m = Some (r, a1) \<Longrightarrow> \<exists>r0. m = Some (r0, a1)"
  by (auto simp: reply_def)

lemma adopted_sessions:
  assumes "libs_ok x"
  shows "vault_create x p pw ps o0 = (Inr s, o1) \<Longrightarrow> session_ok s"
    and "vault_unlock x p pw o0 = (Inr s, o1) \<Longrightarrow> session_ok s"
    and "vault_rotate x p old new ps o0 = (Inr s, o1) \<Longrightarrow> session_ok s"
proof -
  note libs = libs_okD [OF assms]
  show "session_ok s" if "vault_create x p pw ps o0 = (Inr s, o1)"
    using vault_create_Inr [OF that] derive_key_len [OF libs(2)]
    by (auto simp: session_ok_def keyed_by_def)
  show "session_ok s" if "vault_unlock x p pw o0 = (Inr s, o1)"
    using that by (rule vault_unlock_Inr) (use decode_session_ok [OF libs(2,3)] in blast)
  show "session_ok s" if r: "vault_rotate x p old new ps o0 = (Inr s, o1)"
    using r
  proof (rule vault_rotate_Inr)
    fix s0 f0 f1
    assume "decode_vault x old (content f0) = Inr s0" "entries (body s) = entries (body s0)"
      "keyed_by x new s" "length (salt s) = SALT_LEN"
    then show "session_ok s"
      using decode_session_ok [OF libs(2,3)] derive_key_len [OF libs(2)]
      by (auto simp: session_ok_def keyed_by_def)
  qed
qed

lemma h_lifecycle_rel:
  assumes "libs_ok x"
  shows "h_create x ps a = (r, a1) \<Longrightarrow> agent_rel x a a1"
    and "h_unlock x ps a = (r, a1) \<Longrightarrow> agent_rel x a a1"
    and "h_rotate x ps a = (r, a1) \<Longrightarrow> agent_rel x a a1"
proof -
  note sess = adopted_sessions [OF assms]
  note clock = vault_lifecycle_mono [THEN eq_imp_le [OF sym]]
  have sys: "agent_rel x a (a\<lparr>sys := o1\<rparr>)" if "mono (sys a) \<le> mono o1" for o1
    using that by (rule agent_rel_sys)
  have adopt: "agent_rel x a (adopt x s (a\<lparr>sys := o1\<rparr>))"
    if "session_ok s" "mono (sys a) \<le> mono o1" for s o1
    by (rule agent_rel_trans [OF sys agent_rel_adopt]) (use that libs_okD(1) [OF assms] in auto)
  have fail: "agent_rel x a (a\<lparr>fail_count := n, sys := sleep_secs d o1\<rparr>)"
    if "mono (sys a) \<le> mono o1" for o1 d n
    by (rule agent_rel_same) (use that in \<open>simp_all add: is_locked_def agent_ok_def sleep_secs_def\<close>)
  show "agent_rel x a a1" if "h_create x ps a = (r, a1)"
    using that by (auto simp: h_create_def lift_sys_def intro: adopt sess sys fail clock
        split: sum.splits prod.splits)
  show "agent_rel x a a1" if h: "h_unlock x ps a = (r, a1)"
  proof (cases "de_password x ps")
    case (Inl e)
    with h show ?thesis by (simp add: h_unlock_def)
  next
    case (Inr p)
    obtain q o1 where u: "vault_unlock x (c_vault_path (cfg a)) (as_bytes (pp_password p)) (sys a) = (q, o1)"
      by (cases "vault_unlock x (c_vault_path (cfg a)) (as_bytes (pp_password p)) (sys a)")
    have m: "mono (sys a) \<le> mono o1" using vault_lifecycle_mono(2) [OF u] by simp
    show ?thesis
    proof (cases q)
      case (Inl e)
      with h Inr u have "a1 = a\<lparr>fail_count := saturating_inc (fail_count a),
          sys := sleep_secs (unat (backoff_delay (saturating_inc (fail_count a)))) o1\<rparr>"
        by (simp add: h_unlock_def lift_sys_def Let_def)
      then show ?thesis by (simp only: fail [OF m])
    next
      case (Inr s)
      with u have "session_ok s" using sess(2) by blast
      moreover have "a1 = adopt x s (a\<lparr>sys := o1\<rparr>)"
        using h \<open>de_password x ps = Inr p\<close> u Inr by (simp add: h_unlock_def lift_sys_def Let_def)
      ultimately show ?thesis using m by (simp only: adopt)
    qed
  qed
  show "agent_rel x a a1" if "h_rotate x ps a = (r, a1)"
    using that by (auto simp: h_rotate_def lift_sys_def intro: adopt sess sys fail clock
        split: sum.splits prod.splits)
qed

lemma do_lock_rel: "libs_ok x \<Longrightarrow> do_lock x a = (r, a1) \<Longrightarrow> agent_rel x a a1"
  using agent_rel_lock [OF libs_okD(1), of x a]
  by (auto simp: do_lock_def lock_def split: if_splits
      intro: agent_rel_same [where a = a and a' = "a\<lparr>session := None\<rparr>"] simp: is_locked_def agent_ok_def)

lemma unlock_cancel_rel: "unlock_cancel a = (r, a1) \<Longrightarrow> agent_rel x a a1"
  by (auto simp: unlock_cancel_def is_locked_def agent_ok_def intro!: agent_rel_same)

lemma secret_ops_rel:
  assumes "libs_ok x" "sched_ok x sch"
  shows "secret_get x sch ps a = Some (r, a1) \<Longrightarrow> agent_rel x a a1"
    and "secret_set x sch ps a = Some (r, a1) \<Longrightarrow> agent_rel x a a1"
    and "secret_delete x sch ps a = Some (r, a1) \<Longrightarrow> agent_rel x a a1"
    and "secret_rename x sch ps a = Some (r, a1) \<Longrightarrow> agent_rel x a a1"
    and "secret_totp x sch ps a = Some (r, a1) \<Longrightarrow> agent_rel x a a1"
    and "secret_list x sch ps a = Some (r, a1) \<Longrightarrow> agent_rel x a a1"
  using implements_keeps [OF set_op_implements] implements_keeps [OF delete_op_implements]
    implements_keeps [OF rename_op_implements] assms
  by (auto simp: secret_get_def secret_set_def secret_delete_def secret_rename_def secret_totp_def
      secret_list_def Let_def split: sum.splits if_splits option.splits
      intro: with_session_rel read_session_rel acquire_rel dest!: reply_SomeD)

lemma generate_mono: "generate_password n b s = (v, t) \<Longrightarrow> mono t = mono s"
  by (auto simp: generate_password_def rand_bytes_def)

lemma secret_generate_rel:
  assumes "libs_ok x" "sched_ok x sch" "secret_generate x sch ps a = Some (r, a1)"
  shows "agent_rel x a a1"
proof -
  obtain v o1 n where m: "mono o1 = mono (sys a)" and "a1 = a\<lparr>sys := o1\<rparr> \<or>
      (\<exists>r0. with_session x True sch (upsert_op n v) (a\<lparr>sys := o1\<rparr>) = Some (r0, a1))"
    using assms(3)
    by (auto simp: secret_generate_def Let_def split: prod.splits option.splits if_splits
        dest!: reply_SomeD generate_mono)
  then show ?thesis
    using with_session_rel [OF assms(1,2) upsert_keeps] agent_rel_trans
      agent_rel_sys [OF eq_imp_le [OF sym [OF m]], of x] by metis
qed

lemma dispatch_rel:
  assumes "libs_ok x" "sched_ok x sch" "dispatch x sch m ps a = Some (r, a1)"
  shows "agent_rel x a a1"
proof -
  define b where "b = (if m \<in> set no_touch then a else touch a)"
  have ab: "agent_rel x a b" by (simp add: b_def)
  have "agent_rel x b a1"
    using assms(3) h_lifecycle_rel [OF assms(1), of ps b r a1] do_lock_rel [OF assms(1), of b r a1]
      unlock_cancel_rel [of b r a1 x] secret_ops_rel [OF assms(1,2), of ps b r a1]
      secret_generate_rel [OF assms(1,2), of ps b r a1]
    unfolding dispatch_def b_def [symmetric] Let_def
    by (simp split: if_splits add: hello_def Let_def)
  then show ?thesis using ab by (blast intro: agent_rel_trans)
qed

lemma handle_rel:
  assumes "libs_ok x" "sched_ok x sch" "handle x sch i req a = Some a1"
  shows "agent_rel x a a1"
proof -
  from assms(3) obtain r b where d: "dispatch x sch (r_method req) (r_params req) a = Some (r, b)"
    and a1: "a1 = send_to i (case r of Inr v \<Rightarrow> response_ok x (r_id req) v
        | Inl e \<Rightarrow> response_err x (r_id req) (show_err e)) b"
    by (auto simp: handle_def)
  have "agent_rel x b a1"
    unfolding a1 using libs_okD(1) [OF assms(1)]
    by (intro agent_rel_send) (simp split: sum.split)
  with dispatch_rel [OF assms(1,2) d] show ?thesis by (blast intro: agent_rel_trans)
qed

lemma autolock_tick_rel: "libs_ok x \<Longrightarrow> agent_rel x a (snd (autolock_tick x a))"
  using agent_rel_lock [OF libs_okD(1), of x a]
  by (simp add: autolock_tick_def Let_def is_locked_def lock_def)

subsection \<open>Parked requests\<close>

text \<open>
  A request that parks does so in \<open>parked_state\<close>. It resumes when a wake-up finds the agent in a
  state \<open>b\<close> that lets it: \<open>wake_to b\<close>.
\<close>

definition parked_state :: "'x rpc_ext_scheme \<Rightarrow> Request \<Rightarrow> agent \<Rightarrow> agent" where
  "parked_state x req a =
     (let a1 = touch a;
          p = (case de_generate x (r_params req) of Inl e \<Rightarrow> GenerateParam_default | Inr p \<Rightarrow> p);
          len = (case gp_length p of None \<Rightarrow> 24 | Some n \<Rightarrow> n);
          symbols = (case gp_symbols p of None \<Rightarrow> True | Some b \<Rightarrow> b);
          a2 = (if r_method req = lit ''secret.generate''
                then a1\<lparr>sys := snd (generate_password len symbols (sys a1))\<rparr> else a1)
      in broadcast_unlock_needed x a2)"

definition wake_to :: "agent \<Rightarrow> sched" where
  "wake_to b = \<lparr>wakes = [\<lambda>_. b], gap = (\<lambda>a. a)\<rparr>"

lemma acquire_quiet_None: "acquire x w quiet a = None \<Longrightarrow> w \<and> session a = None"
  by (cases "session a"; cases w) (simp_all add: acquire_def is_locked_def)

lemma UNLOCK_WAIT_pos: "0 < UNLOCK_WAIT"
  by (simp add: UNLOCK_WAIT_def NANOS_def)

lemma acquire_wake:
  assumes "session a = None"
  shows "acquire x True (wake_to b) a =
    (case session b of
       Some s \<Rightarrow> Some (Inr s, b)
     | None \<Rightarrow> if unlock_gen b \<noteq> unlock_gen a \<or> mono (sys a) + UNLOCK_WAIT \<le> mono (sys b)
               then Some (Inl ELocked, b) else None)"
  using assms UNLOCK_WAIT_pos
  by (auto simp: acquire_wait wake_to_def wait_for_unlock_def Let_def wait_loop_Cons wait_loop_Nil
      wait_check_def is_locked_def broadcast_unlock_needed_def split: option.split)

text \<open>A resumed access is an access of an undisturbed request in the state it woke up in.\<close>

lemma resumed_acquire:
  assumes "session a = None" "acquire x True (wake_to b) a = Some r"
  shows "\<exists>w. acquire x w quiet b = Some r"
proof (cases "session b")
  case None
  with assms show ?thesis by (intro exI [of _ False]) (auto simp: acquire_wake split: if_splits)
next
  case (Some s)
  with assms show ?thesis by (auto simp: acquire_wake)
qed

lemma sessions_cong:
  assumes "acquire x w sch a = acquire x w' sch' a'"
  shows "with_session x w sch f a = with_session x w' sch' f a'"
    and "read_session x w sch g a = read_session x w' sch' g a'"
  by (simp_all add: with_session_def read_session_def assms)

lemma resumed_sessions:
  assumes "session a = None"
  shows "with_session x True (wake_to b) f a = Some r \<Longrightarrow> \<exists>w. with_session x w quiet f b = Some r"
    and "read_session x True (wake_to b) g a = Some q \<Longrightarrow> \<exists>w. read_session x w quiet g b = Some q"
proof -
  have "\<exists>w. acquire x True (wake_to b) a = acquire x w quiet b"
    if some: "acquire x True (wake_to b) a \<noteq> None"
  proof -
    from some obtain c where c: "acquire x True (wake_to b) a = Some c" by blast
    from resumed_acquire [OF assms c] obtain w where "acquire x w quiet b = Some c" ..
    with c show ?thesis by (intro exI [of _ w]) simp
  qed
  then obtain w where w: "acquire x True (wake_to b) a \<noteq> None \<Longrightarrow>
      acquire x True (wake_to b) a = acquire x w quiet b" by blast
  show "\<exists>w. with_session x w quiet f b = Some r" if "with_session x True (wake_to b) f a = Some r"
  proof -
    have "acquire x True (wake_to b) a \<noteq> None"
      using that by (cases "acquire x True (wake_to b) a"; simp add: with_session_def)
    then show ?thesis using sessions_cong(1) [OF w, of f] that by metis
  qed
  show "\<exists>w. read_session x w quiet g b = Some q" if "read_session x True (wake_to b) g a = Some q"
  proof -
    have "acquire x True (wake_to b) a \<noteq> None"
      using that by (cases "acquire x True (wake_to b) a"; simp add: read_session_def)
    then show ?thesis using sessions_cong(2) [OF w, of g] that by metis
  qed
qed

lemma quiet_None:
  "with_session x w quiet f a = None \<Longrightarrow> w \<and> session a = None"
  "read_session x w quiet g a = None \<Longrightarrow> w \<and> session a = None"
  using acquire_quiet_None [of x w a]
  by (auto simp: with_session_def read_session_def split: option.splits sum.splits prod.splits)

lemma reply_None [simp]: "reply g m = None \<longleftrightarrow> m = None"
  by (simp add: reply_def)

lemma sched_ok_quiet [simp]: "sched_ok x quiet"
  by (simp add: sched_ok_def)

lemma resumed_rel:
  assumes "libs_ok x"
  shows "with_session x w quiet f a = None \<Longrightarrow> keeps_session f \<Longrightarrow>
      with_session x w (wake_to b) f a = Some (r, a1) \<Longrightarrow> agent_rel x b a1"
    and "read_session x w quiet g a = None \<Longrightarrow>
      read_session x w (wake_to b) g a = Some (q, a1) \<Longrightarrow> agent_rel x b a1"
    and "acquire x w quiet a = None \<Longrightarrow> acquire x w (wake_to b) a = Some (c, a1) \<Longrightarrow> agent_rel x b a1"
proof -
  show "agent_rel x b a1" if "with_session x w quiet f a = None" "keeps_session f"
    "with_session x w (wake_to b) f a = Some (r, a1)"
    using quiet_None(1) [OF that(1)] that resumed_sessions(1) [of a x b f]
      with_session_rel [OF assms sched_ok_quiet that(2)] by fastforce
  show "agent_rel x b a1" if "read_session x w quiet g a = None"
    "read_session x w (wake_to b) g a = Some (q, a1)"
    using quiet_None(2) [OF that(1)] that resumed_sessions(2) [of a x b g]
      read_session_rel [OF assms sched_ok_quiet, of _ g b] by fastforce
  show "agent_rel x b a1" if "acquire x w quiet a = None" "acquire x w (wake_to b) a = Some (c, a1)"
    using acquire_quiet_None [OF that(1)] that resumed_acquire [of a x b]
      acquire_rel [OF assms sched_ok_quiet, of _ b] by fastforce
qed

lemma resumed_ops_rel:
  assumes "libs_ok x"
  shows "secret_get x quiet ps a = None \<Longrightarrow> secret_get x (wake_to b) ps a = Some (r, a1) \<Longrightarrow> agent_rel x b a1"
    and "secret_set x quiet ps a = None \<Longrightarrow> secret_set x (wake_to b) ps a = Some (r, a1) \<Longrightarrow> agent_rel x b a1"
    and "secret_delete x quiet ps a = None \<Longrightarrow> secret_delete x (wake_to b) ps a = Some (r, a1) \<Longrightarrow> agent_rel x b a1"
    and "secret_rename x quiet ps a = None \<Longrightarrow> secret_rename x (wake_to b) ps a = Some (r, a1) \<Longrightarrow> agent_rel x b a1"
    and "secret_totp x quiet ps a = None \<Longrightarrow> secret_totp x (wake_to b) ps a = Some (r, a1) \<Longrightarrow> agent_rel x b a1"
    and "secret_list x quiet ps a = None \<Longrightarrow> secret_list x (wake_to b) ps a = Some (r, a1) \<Longrightarrow> agent_rel x b a1"
    and "secret_generate x quiet ps a = None \<Longrightarrow> secret_generate x (wake_to b) ps a = Some (r, a1) \<Longrightarrow> agent_rel x b a1"
  using implements_keeps [OF set_op_implements] implements_keeps [OF delete_op_implements]
    implements_keeps [OF rename_op_implements] upsert_keeps
  by (auto simp: secret_get_def secret_set_def secret_delete_def secret_rename_def secret_totp_def
      secret_list_def secret_generate_def Let_def
      split: sum.splits if_splits option.splits prod.splits
      intro: resumed_rel [OF assms] dest!: reply_SomeD)

lemma resumed_handle_rel:
  assumes "libs_ok x" "handle x quiet i req a = None" "handle x (wake_to b) i req a = Some a1"
  shows "agent_rel x b a1"
proof -
  let ?m = "r_method req" and ?ps = "r_params req"
  have none: "dispatch x quiet ?m ?ps a = None" using assms(2) by (simp add: handle_def)
  from assms(3) obtain r c where d: "dispatch x (wake_to b) ?m ?ps a = Some (r, c)"
    and a1: "a1 = send_to i (case r of Inr v \<Rightarrow> response_ok x (r_id req) v
        | Inl e \<Rightarrow> response_err x (r_id req) (show_err e)) c"
    by (auto simp: handle_def)
  have "agent_rel x b c"
    using none d resumed_ops_rel [OF assms(1), of ?ps "touch a" b r c]
    unfolding dispatch_def Let_def by (simp split: if_splits add: no_touch_def)
  moreover have "agent_rel x c a1"
    unfolding a1 using libs_okD(1) [OF assms(1)]
    by (intro agent_rel_send) (simp split: sum.split)
  ultimately show ?thesis by (blast intro: agent_rel_trans)
qed

lemma agent_sys_eta: "a\<lparr>sys := sys a\<rparr> = (a :: agent)"
  by (cases a) simp

lemma parked_state_eq:
  "\<exists>o1. parked_state x req a = broadcast_unlock_needed x ((touch a)\<lparr>sys := o1\<rparr>) \<and>
     mono o1 = mono (sys a)"
proof (cases "r_method req = lit ''secret.generate''")
  case True
  then show ?thesis
    by (auto simp: parked_state_def Let_def generate_password_def rand_bytes_def)
next
  case False
  then have "parked_state x req a = broadcast_unlock_needed x (touch a)"
    by (simp add: parked_state_def Let_def)
  then show ?thesis
    by (intro exI [of _ "sys a"]) (metis agent_sys_eta touch_simps(9))
qed

lemma parked_state_rel: "libs_ok x \<Longrightarrow> agent_rel x a (parked_state x req a)"
proof -
  assume libs: "libs_ok x"
  obtain o1 where p: "parked_state x req a = broadcast_unlock_needed x ((touch a)\<lparr>sys := o1\<rparr>)"
    and m: "mono o1 = mono (sys a)"
    using parked_state_eq by blast
  have "agent_rel x (touch a) ((touch a)\<lparr>sys := o1\<rparr>)" using m by (intro agent_rel_sys) simp
  then show ?thesis
    unfolding p
    by (rule agent_rel_trans [OF agent_rel_trans [OF agent_rel_touch]
          agent_rel_unlock_needed [OF libs_okD(1) [OF libs]]])
qed

text \<open>\<open>parked_state\<close> is the state the first wake-up of a parked request starts from.\<close>

lemma acquire_first_wake:
  assumes "session a = None"
  shows "acquire x True \<lparr>wakes = [w], gap = g\<rparr> a =
    acquire x True \<lparr>wakes = [\<lambda>_. w (broadcast_unlock_needed x a)], gap = g\<rparr> a"
  using assms UNLOCK_WAIT_pos
  by (simp add: acquire_wait wait_for_unlock_def Let_def wait_loop_Cons split: option.split bool.split)

subsection \<open>The transition system\<close>

record system =
  ag :: agent
  parked :: "(u64 \<times> Request \<times> agent) list"
    \<comment> \<open>client, request, and the agent as the request found it\<close>

inductive daemon_step :: "'x rpc_ext_scheme \<Rightarrow> system \<Rightarrow> system \<Rightarrow> bool" for x where
  serve: "handle x quiet i req (ag s) = Some a' \<Longrightarrow> daemon_step x s (s\<lparr>ag := a'\<rparr>)"
| park: "handle x quiet i req (ag s) = None \<Longrightarrow>
    daemon_step x s (s\<lparr>ag := parked_state x req (ag s), parked := (i, req, ag s) # parked s\<rparr>)"
| resume: "(i, req, a0) \<in> set (parked s) \<Longrightarrow> handle x (wake_to (ag s)) i req a0 = Some a' \<Longrightarrow>
    daemon_step x s (s\<lparr>ag := a', parked := remove1 (i, req, a0) (parked s)\<rparr>)"
| idle_tick: "daemon_step x s (s\<lparr>ag := snd (autolock_tick x (ag s))\<rparr>)"
| clock: "daemon_step x s (s\<lparr>ag := (ag s)\<lparr>sys := (sys (ag s))\<lparr>mono := mono (sys (ag s)) + d, unix := u\<rparr>\<rparr>\<rparr>)"
| connect: "daemon_step x s (s\<lparr>ag := snd (register_client (ag s))\<rparr>)"
| disconnect: "daemon_step x s (s\<lparr>ag := snd (unregister_client i (ag s))\<rparr>)"

inductive_cases daemon_stepE [elim]: "daemon_step x s t"

definition system_start :: "Config \<Rightarrow> system \<Rightarrow> bool" where
  "system_start c s \<longleftrightarrow> (\<exists>o0. ag s = Server_new c o0 \<and> parked s = [])"

text \<open>
  The invariant: the session is well formed, the idle clock is never ahead of the machine's, client
  ids are distinct, the configuration is fixed, and every parked request found the vault locked.
\<close>

definition system_inv :: "'x rpc_ext_scheme \<Rightarrow> Config \<Rightarrow> system \<Rightarrow> bool" where
  "system_inv x c s \<longleftrightarrow>
     agent_ok (ag s) \<and> distinct (map fst (clients (ag s))) \<and> cfg (ag s) = c \<and>
     (\<forall>(i, req, a0) \<in> set (parked s). session a0 = None \<and> mono (sys a0) \<le> mono (sys (ag s)) \<and>
        handle x quiet i req a0 = None)"

lemma clients_rel_ids: "list_all2 (client_rel x b b') cs ds \<Longrightarrow> map fst ds = map fst cs"
  by (induction rule: list_all2_induct) (auto simp: client_rel_def)

lemma system_inv_rel:
  assumes "system_inv x c s" "agent_rel x (ag s) a'"
    and "\<forall>(i, req, a0) \<in> set ps. (i, req, a0) \<in> set (parked s) \<or>
      session a0 = None \<and> mono (sys a0) \<le> mono (sys a') \<and> handle x quiet i req a0 = None"
  shows "system_inv x c (s\<lparr>ag := a', parked := ps\<rparr>)"
proof -
  have ids: "map fst (clients a') = map fst (clients (ag s))"
    using assms(2) clients_rel_ids unfolding agent_rel_def by blast
  have "mono (sys (ag s)) \<le> mono (sys a')" using assms(2) by (simp add: agent_rel_def)
  with assms ids show ?thesis
    unfolding system_inv_def agent_rel_def by (fastforce intro: order_trans)
qed

lemma ops_None_locked:
  "secret_get x quiet ps a = None \<Longrightarrow> session a = None"
  "secret_set x quiet ps a = None \<Longrightarrow> session a = None"
  "secret_delete x quiet ps a = None \<Longrightarrow> session a = None"
  "secret_rename x quiet ps a = None \<Longrightarrow> session a = None"
  "secret_totp x quiet ps a = None \<Longrightarrow> session a = None"
  "secret_list x quiet ps a = None \<Longrightarrow> session a = None"
  "secret_generate x quiet ps a = None \<Longrightarrow> session a = None"
  by (auto simp: secret_get_def secret_set_def secret_delete_def secret_rename_def
      secret_totp_def secret_list_def secret_generate_def Let_def
      split: if_splits sum.splits option.splits prod.splits
      dest: quiet_None acquire_quiet_None)

lemma handle_None_locked: "handle x quiet i req a = None \<Longrightarrow> session a = None"
  using ops_None_locked [of x "r_params req" "touch a"]
  unfolding handle_def dispatch_def Let_def by (simp split: if_splits add: no_touch_def)

lemma system_inv_step:
  assumes "libs_ok x" "system_inv x c s" "daemon_step x s t"
  shows "system_inv x c t"
  using assms(3)
proof cases
  case (serve i req a')
  then show ?thesis
    using system_inv_rel [OF assms(2) handle_rel [OF assms(1) sched_ok_quiet serve(2)], of "parked s"]
    by auto
next
  case (park i req)
  then show ?thesis
    using system_inv_rel [OF assms(2) parked_state_rel [OF assms(1)],
        of "(i, req, ag s) # parked s" req] handle_None_locked [OF park(2)]
      parked_state_rel [OF assms(1), of "ag s" req]
    by (auto simp: agent_rel_def)
next
  case (resume i req a0 a')
  have "handle x quiet i req a0 = None"
    using assms(2) resume(2) by (auto simp: system_inv_def)
  from resumed_handle_rel [OF assms(1) this resume(3)] show ?thesis
    using system_inv_rel [OF assms(2), of a' "remove1 (i, req, a0) (parked s)"] resume(1)
      set_remove1_subset [of "(i, req, a0)" "parked s"] by auto
next
  case idle_tick
  then show ?thesis
    using system_inv_rel [OF assms(2) autolock_tick_rel [OF assms(1)], of "parked s"] by auto
next
  case (clock u d)
  let ?o = "(sys (ag s))\<lparr>mono := mono (sys (ag s)) + d, unix := u\<rparr>"
  have "agent_rel x (ag s) ((ag s)\<lparr>sys := ?o\<rparr>)" by (rule agent_rel_sys) simp
  then show ?thesis
    using clock system_inv_rel [OF assms(2), of "(ag s)\<lparr>sys := ?o\<rparr>" "parked s"] by auto
next
  case connect
  have "distinct (map fst (filter f cs))" if "distinct (map fst cs)" for f and cs :: "(u64 \<times> rstring list) list"
    using that by (rule distinct_map_filter)
  then show ?thesis
    using assms(2) connect
    by (auto simp: system_inv_def register_client_def Let_def agent_ok_def)
next
  case (disconnect i)
  then show ?thesis
    using assms(2) distinct_map_filter
    by (auto simp: system_inv_def unregister_client_def Let_def agent_ok_def)
qed

text \<open>The libraries are fixed in the contract's parameters; without them nothing is claimed.\<close>

definition guarded_inv :: "'x rpc_ext_scheme \<Rightarrow> Config \<Rightarrow> system \<Rightarrow> bool" where
  "guarded_inv x c s \<longleftrightarrow> libs_ok x \<longrightarrow> system_inv x c s"

interpretation daemon: invariant_system "system_start c" "daemon_step x" "guarded_inv x c" for c x
proof
  show "guarded_inv x c s" if "system_start c s" for s
    using that by (auto simp: system_start_def guarded_inv_def system_inv_def Server_new_def agent_ok_def)
  show "guarded_inv x c t" if "guarded_inv x c s" "daemon_step x s t" for s t
    using that system_inv_step by (auto simp: guarded_inv_def)
qed

end
