(* ===== verification/KR_Utf8.thy ===== *)
theory KR_Utf8
  imports KR_Prelude
begin

text \<open>
  Text input as the standard library reads it: \<open>String::from_utf8_lossy\<close> and \<open>BufRead::lines\<close>.
  Decoding follows the library: an ill-formed sequence becomes U+FFFD and is consumed up to its
  first byte that cannot continue it. Encoding and decoding are inverse on scalar values.
\<close>

definition REPLACEMENT :: rchar where "REPLACEMENT = 65533"

definition cont :: "byte \<Rightarrow> bool" where
  "cont b \<longleftrightarrow> 128 \<le> unat b \<and> unat b < 192"

text \<open>The second byte a three- or four-byte sequence may have, given its first.\<close>

definition second_ok :: "nat \<Rightarrow> byte \<Rightarrow> bool" where
  "second_ok c b \<longleftrightarrow> cont b \<and>
     (c = 224 \<longrightarrow> 160 \<le> unat b) \<and> (c = 237 \<longrightarrow> unat b < 160) \<and>
     (c = 240 \<longrightarrow> 144 \<le> unat b) \<and> (c = 244 \<longrightarrow> unat b < 144)"

fun utf8_next :: "byte \<Rightarrow> byte list \<Rightarrow> rchar \<times> byte list" where
  "utf8_next b bs =
     (let c = unat b
      in if c < 128 then (c, bs)
         else if 194 \<le> c \<and> c < 224 then
           (case bs of b1 # r \<Rightarrow>
              if cont b1 then ((c - 192) * 64 + (unat b1 - 128), r) else (REPLACEMENT, bs)
            | [] \<Rightarrow> (REPLACEMENT, bs))
         else if 224 \<le> c \<and> c < 240 then
           (case bs of b1 # r1 \<Rightarrow>
              if second_ok c b1 then
                (case r1 of b2 # r2 \<Rightarrow>
                   if cont b2 then ((c - 224) * 4096 + (unat b1 - 128) * 64 + (unat b2 - 128), r2)
                   else (REPLACEMENT, r1)
                 | [] \<Rightarrow> (REPLACEMENT, r1))
              else (REPLACEMENT, bs)
            | [] \<Rightarrow> (REPLACEMENT, bs))
         else if 240 \<le> c \<and> c < 245 then
           (case bs of b1 # r1 \<Rightarrow>
              if second_ok c b1 then
                (case r1 of b2 # r2 \<Rightarrow>
                   if cont b2 then
                     (case r2 of b3 # r3 \<Rightarrow>
                        if cont b3 then
                          ((c - 240) * 262144 + (unat b1 - 128) * 4096 + (unat b2 - 128) * 64
                            + (unat b3 - 128), r3)
                        else (REPLACEMENT, r2)
                      | [] \<Rightarrow> (REPLACEMENT, r2))
                   else (REPLACEMENT, r1)
                 | [] \<Rightarrow> (REPLACEMENT, r1))
              else (REPLACEMENT, bs)
            | [] \<Rightarrow> (REPLACEMENT, bs))
         else (REPLACEMENT, bs))"

declare utf8_next.simps [simp del]

lemma utf8_next_length: "length (snd (utf8_next b bs)) \<le> length bs"
  by (auto simp: utf8_next.simps Let_def split: list.split)

function from_utf8_lossy :: "byte list \<Rightarrow> rstring" where
  "from_utf8_lossy [] = []"
| "from_utf8_lossy (b # bs) =
     (case utf8_next b bs of (c, r) \<Rightarrow> c # from_utf8_lossy r)"
  by pat_completeness auto

termination
proof (relation "measure length")
  fix b :: byte and bs c r
  assume "(c, r) = utf8_next b bs"
  then have "r = snd (utf8_next b bs)" by (metis snd_conv)
  then show "(r, b # bs) \<in> measure length" using utf8_next_length [of b bs] by simp
qed simp

lemma unat_of_nat_byte: "k < 256 \<Longrightarrow> unat (of_nat k :: byte) = k"
  by (simp add: unsigned_of_nat take_bit_nat_eq_self)

lemma base64_digits:
  "c = c div 64 * 64 + c mod 64"
  "c = c div 4096 * 4096 + c div 64 mod 64 * 64 + c mod 64"
  "c = c div 262144 * 262144 + c div 4096 mod 64 * 4096 + c div 64 mod 64 * 64 + c mod 64"
  for c :: nat
proof -
  have d: "c div 64 div 64 = c div 4096" "c div 4096 div 64 = c div 262144"
    by (simp_all add: div_mult2_eq [symmetric])
  show one: "c = c div 64 * 64 + c mod 64" by simp
  have two: "c div 64 = c div 4096 * 64 + c div 64 mod 64"
    using div_mult_mod_eq [of "c div 64" 64] unfolding d by simp
  have three: "c div 4096 = c div 262144 * 64 + c div 4096 mod 64"
    using div_mult_mod_eq [of "c div 4096" 64] unfolding d by simp
  show "c = c div 4096 * 4096 + c div 64 mod 64 * 64 + c mod 64"
    using one two by linarith
  then show "c = c div 262144 * 262144 + c div 4096 mod 64 * 4096 + c div 64 mod 64 * 64 + c mod 64"
    using three by linarith
qed

lemma utf8_next_char:
  assumes "scalar c"
  shows "utf8_next (hd (utf8_char c)) (tl (utf8_char c) @ r) = (c, r)"
proof -
  have c: "c < 1114112" "\<not> (55296 \<le> c \<and> c < 57344)" using assms by (auto simp: scalar_def)
  consider "c < 128" | "128 \<le> c" "c < 2048" | "2048 \<le> c" "c < 65536" | "65536 \<le> c" by linarith
  then show ?thesis
  proof cases
    case 1
    then show ?thesis by (simp add: utf8_char_def utf8_next.simps unat_of_nat_byte)
  next
    case 2
    define q r0 where "q = c div 64" and "r0 = c mod 64"
    have "2 \<le> q" "q < 32" "r0 < 64" "c = q * 64 + r0" using 2 by (auto simp: q_def r0_def)
    then show ?thesis
      using 2 by (simp add: utf8_char_def utf8_next.simps unat_of_nat_byte cont_def Let_def
          flip: q_def r0_def del: of_nat_add)
  next
    case 3
    define q m r0 where "q = c div 4096" and "m = c div 64 mod 64" and "r0 = c mod 64"
    have e: "c = q * 4096 + m * 64 + r0" unfolding q_def m_def r0_def by (rule base64_digits)
    have b: "q < 16" "m < 64" "r0 < 64" using 3 by (auto simp: q_def m_def r0_def)
    have s: "q = 0 \<Longrightarrow> 32 \<le> m" "q = 13 \<Longrightarrow> m < 32"
      using 3 c(2) e b by linarith+
    have u: "utf8_char c = [of_nat (224 + q), of_nat (128 + m), of_nat (128 + r0)]"
      using 3 by (simp add: utf8_char_def q_def m_def r0_def del: of_nat_add)
    have "second_ok (224 + q) (of_nat (128 + m))"
      using b s by (auto simp: second_ok_def cont_def unat_of_nat_byte simp del: of_nat_add)
    then show ?thesis
      unfolding u using b
      by (simp add: utf8_next.simps unat_of_nat_byte cont_def Let_def e [symmetric] del: of_nat_add)
  next
    case 4
    define q m n r0 where "q = c div 262144" and "m = c div 4096 mod 64"
      and "n = c div 64 mod 64" and "r0 = c mod 64"
    have e: "c = q * 262144 + m * 4096 + n * 64 + r0"
      unfolding q_def m_def n_def r0_def by (rule base64_digits)
    have b: "q < 5" "m < 64" "n < 64" "r0 < 64" using c(1) by (auto simp: q_def m_def n_def r0_def)
    have s: "q = 0 \<Longrightarrow> 16 \<le> m" "q = 4 \<Longrightarrow> m < 16"
      using 4 c(1) e b by linarith+
    have u: "utf8_char c = [of_nat (240 + q), of_nat (128 + m), of_nat (128 + n), of_nat (128 + r0)]"
      using 4 by (simp add: utf8_char_def q_def m_def n_def r0_def del: of_nat_add)
    have "second_ok (240 + q) (of_nat (128 + m))"
      using b s by (auto simp: second_ok_def cont_def unat_of_nat_byte simp del: of_nat_add)
    then show ?thesis
      unfolding u using b
      by (simp add: utf8_next.simps unat_of_nat_byte cont_def Let_def e [symmetric] del: of_nat_add)
  qed
qed

lemma utf8_char_nonempty [simp]: "utf8_char c \<noteq> []"
  by (simp add: utf8_char_def)

lemma utf8_roundtrip: "list_all scalar s \<Longrightarrow> from_utf8_lossy (as_bytes s) = s"
proof (induction s)
  case (Cons c s)
  have "utf8_char c @ as_bytes s = hd (utf8_char c) # (tl (utf8_char c) @ as_bytes s)"
    by (cases "utf8_char c") simp_all
  then have "from_utf8_lossy (as_bytes (c # s)) =
      from_utf8_lossy (hd (utf8_char c) # (tl (utf8_char c) @ as_bytes s))"
    by (simp only: as_bytes_simps)
  with Cons utf8_next_char [of c "as_bytes s"] show ?case by simp
qed simp

text \<open>No byte of an encoded character is a line feed unless the character is.\<close>

lemma utf8_char_no_newline: "scalar c \<Longrightarrow> (10 \<in> set (utf8_char c)) = (c = 10)"
proof -
  assume "scalar c"
  then have c: "c < 1114112" by (simp add: scalar_def)
  have "(of_nat k :: byte) \<noteq> 10" if "128 \<le> k" "k < 256" for k
    using that unat_of_nat_byte [of k] by auto
  moreover have "(of_nat c :: byte) = 10 \<longleftrightarrow> c = 10" if "c < 128"
    using that unat_of_nat_byte [of c] unat_of_nat_byte [of 10] by (auto simp: word_unat_eq_iff)
  ultimately show ?thesis
    using c by (auto simp: utf8_char_def simp del: of_nat_add)
qed

subsection \<open>Lines (\<open>BufRead::lines\<close>)\<close>

definition strip_cr :: "rstring \<Rightarrow> rstring" where
  "strip_cr l = (if l \<noteq> [] \<and> last l = 13 then butlast l else l)"

function str_lines :: "rstring \<Rightarrow> rstring list" where
  "str_lines s =
     (if s = [] then []
      else case dropWhile (\<lambda>c. c \<noteq> 10) s of
             [] \<Rightarrow> [s]
           | _ # r \<Rightarrow> strip_cr (takeWhile (\<lambda>c. c \<noteq> 10) s) # str_lines r)"
  by pat_completeness auto

termination
proof (relation "measure length")
  fix s :: rstring and c r
  assume "dropWhile (\<lambda>c. c \<noteq> 10) s = c # r"
  then have "length (c # r) \<le> length s" by (metis length_dropWhile_le)
  then show "(r, s) \<in> measure length" by simp
qed simp

declare str_lines.simps [simp del]

lemma str_lines_Nil [simp]: "str_lines [] = []"
  by (simp add: str_lines.simps)

lemma str_lines_line:
  assumes "10 \<notin> set l"
  shows "str_lines (l @ 10 # r) = strip_cr l # str_lines r"
proof -
  have "takeWhile (\<lambda>c. c \<noteq> 10) (l @ 10 # r) = l" "dropWhile (\<lambda>c. c \<noteq> 10) (l @ 10 # r) = 10 # r"
    using assms by (induction l) auto
  then show ?thesis by (subst str_lines.simps) simp
qed

text \<open>A text without white space at its ends is one line, whatever separator is stripped.\<close>

lemma strip_cr_trimmed: "trim s = s \<Longrightarrow> strip_cr s = s"
proof (cases "s = []")
  case False
  assume "trim s = s"
  then obtain t where s: "s = rev (dropWhile is_whitespace t)" by (metis trim_def)
  with False have "\<not> is_whitespace (last s)"
    by (simp add: last_rev hd_dropWhile)
  then have "last s \<noteq> 13" by (auto simp: is_whitespace_def)
  then show ?thesis by (simp add: strip_cr_def)
qed (simp add: strip_cr_def)

lemma as_bytes_no_newline: "list_all scalar s \<Longrightarrow> 10 \<notin> set s \<Longrightarrow> 10 \<notin> set (as_bytes s)"
  by (induction s) (auto simp: utf8_char_no_newline)

lemma one_line:
  assumes "list_all scalar s" "10 \<notin> set s" "trim s = s"
  shows "str_lines (from_utf8_lossy (as_bytes s @ [10])) = [s]"
proof -
  have "as_bytes s @ [10] = as_bytes (s @ [10])" by (simp add: utf8_char_def)
  moreover have "list_all scalar (s @ [10])" using assms(1) by (simp add: scalar_def)
  ultimately have "from_utf8_lossy (as_bytes s @ [10]) = s @ [10]"
    by (metis utf8_roundtrip)
  with str_lines_line [OF assms(2), of "[]"] strip_cr_trimmed [OF assms(3)] show ?thesis by simp
qed

end
