(* ===== verification/KR_Main.thy ===== *)
theory KR_Main
  imports KR_System KR_Utf8
begin

text \<open>
  \<open>native/src/main.rs\<close>: mode selection, the configuration from the environment, the lines of a
  connection, what the end of a connection does, and the start of the socket daemon with its lock
  file. The asynchronous runtime is not modelled: its tasks are the steps of the relations below.
\<close>

subsection \<open>Paths\<close>

definition SLASH :: rchar where "SLASH = 47"
definition DOT :: rchar where "DOT = 46"

text \<open>\<open>Path::join\<close>\<close>

definition path_join :: "rstring \<Rightarrow> rstring \<Rightarrow> rstring" where
  "path_join b c =
     (if c \<noteq> [] \<and> hd c = SLASH then c
      else if b = [] then c
      else if last b = SLASH then b @ c
      else b @ [SLASH] @ c)"

text \<open>\<open>Path::parent\<close>, on the reversed path: trailing separators and \<open>.\<close> components do not count.\<close>

fun trim_rev :: "rstring \<Rightarrow> rstring" where
  "trim_rev (c # d # r) =
     (if c = SLASH then trim_rev (d # r)
      else if c = DOT \<and> d = SLASH then trim_rev (d # r)
      else c # d # r)"
| "trim_rev s = s"

definition path_parent :: "rstring \<Rightarrow> rstring option" where
  "path_parent s =
     (let t = trim_rev (rev s)
      in if t = [] \<or> t = [SLASH] then None
         else Some (rev (trim_rev (dropWhile (\<lambda>c. c \<noteq> SLASH) t))))"

text \<open>\<open>Path::with_extension\<close> for a path that ends in a file name.\<close>

definition with_extension :: "rstring \<Rightarrow> rstring \<Rightarrow> rstring" where
  "with_extension s ext =
     (let name = rev (takeWhile (\<lambda>c. c \<noteq> SLASH) (rev s));
          dir = take (length s - length name) s;
          stem = (if DOT \<in> set (tl name)
                  then take (length name - length (takeWhile (\<lambda>c. c \<noteq> DOT) (rev name)) - 1) name
                  else name)
      in dir @ stem @ [DOT] @ ext)"

subsection \<open>Mode and configuration\<close>

datatype mode = GitCredential rstring | Stdio | Socket rstring | SocketNeedsPath | Usage

definition nth_arg :: "rstring list \<Rightarrow> nat \<Rightarrow> rstring option" where
  "nth_arg args i = (if i < length args then Some (args ! i) else None)"

definition select_mode :: "rstring list \<Rightarrow> mode" where
  "select_mode args =
     (if nth_arg args 1 = Some (lit ''git-credential'') then
        GitCredential (case nth_arg args 2 of Some op \<Rightarrow> op | None \<Rightarrow> [])
      else case nth_arg args 1 of
        None \<Rightarrow> Usage
      | Some m \<Rightarrow>
          if m = lit ''--stdio'' then Stdio
          else if m = lit ''--socket'' then
            (case nth_arg args 2 of Some p \<Rightarrow> Socket p | None \<Rightarrow> SocketNeedsPath)
          else Usage)"

text \<open>The exit code of the modes that do not serve.\<close>

fun mode_exit :: "mode \<Rightarrow> nat option" where
  "mode_exit SocketNeedsPath = Some 2"
| "mode_exit Usage = Some 2"
| "mode_exit _ = None"

type_synonym environ = "rstring \<Rightarrow> rstring option"

definition env_u32 :: "environ \<Rightarrow> rstring \<Rightarrow> u32 \<Rightarrow> u32" where
  "env_u32 env key dflt =
     (case Option.bind (env key) (parse_uint (2 ^ 32 - 1)) of Some n \<Rightarrow> of_nat n | None \<Rightarrow> dflt)"

definition env_u64 :: "environ \<Rightarrow> rstring \<Rightarrow> u64 \<Rightarrow> u64" where
  "env_u64 env key dflt =
     (case Option.bind (env key) (parse_uint (2 ^ 64 - 1)) of Some n \<Rightarrow> of_nat n | None \<Rightarrow> dflt)"

definition default_vault_path :: "environ \<Rightarrow> rstring" where
  "default_vault_path env =
     (let base = (case env (lit ''XDG_DATA_HOME'') of
                    Some d \<Rightarrow> d
                  | None \<Rightarrow>
                      let home = (case env (lit ''HOME'') of Some h \<Rightarrow> h | None \<Rightarrow> lit ''.'')
                      in path_join home (lit ''.local/share''))
      in path_join (path_join (path_join base (lit ''nvim'')) (lit ''lvim-keyring'')) (lit ''keyring.vault''))"

definition mk_vpath :: "rstring \<Rightarrow> vpath" where
  "mk_vpath p = \<lparr>v_file = p, v_dir = path_parent p\<rparr>"

definition config_from_env :: "environ \<Rightarrow> Config" where
  "config_from_env env =
     \<lparr>c_vault_path = mk_vpath (case env (lit ''LVIM_KEYRING_VAULT'') of
          Some p \<Rightarrow> p | None \<Rightarrow> default_vault_path env),
      c_kdf = \<lparr>m_cost = env_u32 env (lit ''LVIM_KEYRING_KDF_M'') (m_cost KdfParams_default),
               t_cost = env_u32 env (lit ''LVIM_KEYRING_KDF_T'') (t_cost KdfParams_default),
               p_cost = env_u32 env (lit ''LVIM_KEYRING_KDF_P'') (p_cost KdfParams_default)\<rparr>,
      c_lock_timeout = unat (env_u64 env (lit ''LVIM_KEYRING_LOCK_TIMEOUT'') (15 * 60)) * NANOS,
      c_linger = unat (env_u64 env (lit ''LVIM_KEYRING_LINGER'') 0) * NANOS,
      c_persist = (env (lit ''LVIM_KEYRING_PERSIST'') = Some (lit ''1''))\<rparr>"

subsection \<open>A connection\<close>

text \<open>
  One line of the reader loop (the same in \<open>serve_stdio\<close> and \<open>handle_conn\<close>): blank and unparsable
  lines are skipped, a request is handled for client \<open>i\<close>. The schedule is the request's.
\<close>

definition conn_line :: "'x rpc_ext_scheme \<Rightarrow> sched \<Rightarrow> u64 \<Rightarrow> rstring \<Rightarrow> agent \<Rightarrow> agent option" where
  "conn_line x sch i line a =
     (let line = trim line
      in if line = [] then Some a
         else case request_parse x line of None \<Rightarrow> Some a | Some req \<Rightarrow> handle x sch i req a)"

text \<open>The writer task: each queued line, ended by a line feed.\<close>

definition writer_bytes :: "rstring list \<Rightarrow> byte list" where
  "writer_bytes ls = concat (map (\<lambda>l. as_bytes l @ [10]) ls)"

text \<open>
  The lines of a connection in turn, each request handled before the next line (one of the orders the
  spawned tasks can take); \<open>None\<close> when one of them parks.
\<close>

fun feed :: "'x rpc_ext_scheme \<Rightarrow> u64 \<Rightarrow> rstring list \<Rightarrow> agent \<Rightarrow> agent option" where
  "feed x i [] a = Some a"
| "feed x i (l # ls) a = Option.bind (conn_line x quiet i l a) (feed x i ls)"

text \<open>The lines queued for client \<open>i\<close>.\<close>

definition queue_of :: "u64 \<Rightarrow> agent \<Rightarrow> rstring list" where
  "queue_of i a = (case map_of (clients a) i of Some q \<Rightarrow> q | None \<Rightarrow> [])"

text \<open>
  \<open>serve_stdio\<close>: one session on standard input and output, up to the end of the input. Every request
  is a task of its own, and the tasks may run in any order: \<open>ls\<close> are the lines of the input in the
  order in which their tasks run.
\<close>

definition serve_stdio :: "'x rpc_ext_scheme \<Rightarrow> rstring list \<Rightarrow> agent \<Rightarrow> (byte list \<times> agent) option" where
  "serve_stdio x ls a =
     (case register_client a of (i, a1) \<Rightarrow>
        map_option (\<lambda>a2. (writer_bytes (queue_of i a2), snd (unregister_client i a2))) (feed x i ls a1))"

text \<open>\<open>Ok(cred) if cred.uid() == my_uid\<close>\<close>

definition peer_allowed :: "nat option \<Rightarrow> nat \<Rightarrow> bool" where
  "peer_allowed cred my_uid = (case cred of Some u \<Rightarrow> u = my_uid | None \<Rightarrow> False)"

subsection \<open>The end of a connection\<close>

datatype closing = Stay | ExitNow | LingerFor nat

text \<open>What \<open>handle_conn\<close> decides once its writer is done, from the count it took earlier.\<close>

definition after_close :: "Config \<Rightarrow> nat \<Rightarrow> closing" where
  "after_close c remaining =
     (if remaining = 0 then
        if c_persist c then Stay
        else if c_linger c = 0 then ExitNow else LingerFor (c_linger c)
      else Stay)"

text \<open>
  The life of the daemon around its connections: \<open>ending\<close> holds the counts of connections whose
  writer is still draining, \<open>timers\<close> the deadlines of the linger timers, \<open>sock_file\<close> whether the
  socket's file exists, \<open>exited\<close> the end. \<open>rm\<close> is whether \<open>remove_file\<close> succeeds.
\<close>

record life =
  daemon :: agent
  ending :: "nat list"
  timers :: "nat list"
  sock_file :: bool
  exited :: bool

definition lock_and_exit :: "bool \<Rightarrow> life \<Rightarrow> life" where
  "lock_and_exit rm l =
     l\<lparr>daemon := snd (lock (daemon l)), sock_file := sock_file l \<and> \<not> rm, exited := True\<rparr>"

text \<open>One turn of the accept loop: a peer of another user, or of unknown credentials, is dropped.\<close>

definition accept_conn :: "nat option \<Rightarrow> nat \<Rightarrow> life \<Rightarrow> life" where
  "accept_conn cred my_uid l =
     (if peer_allowed cred my_uid then l\<lparr>daemon := snd (register_client (daemon l))\<rparr> else l)"

definition close_begin :: "u64 \<Rightarrow> life \<Rightarrow> life" where
  "close_begin i l =
     (case unregister_client i (daemon l) of (n, a) \<Rightarrow> l\<lparr>daemon := a, ending := ending l @ [n]\<rparr>)"

definition close_end :: "bool \<Rightarrow> nat \<Rightarrow> life \<Rightarrow> life" where
  "close_end rm n l =
     (let l = l\<lparr>ending := remove1 n (ending l)\<rparr>
      in case after_close (cfg (daemon l)) n of
           Stay \<Rightarrow> l
         | ExitNow \<Rightarrow> lock_and_exit rm l
         | LingerFor d \<Rightarrow> l\<lparr>timers := timers l @ [mono (sys (daemon l)) + d]\<rparr>)"

text \<open>
  A whole connection whose peer sends these lines and leaves, undisturbed: what it was sent, and the
  daemon afterwards.
\<close>

definition handle_conn :: "'x rpc_ext_scheme \<Rightarrow> bool \<Rightarrow> u64 \<Rightarrow> rstring list \<Rightarrow> life \<Rightarrow> (byte list \<times> life) option" where
  "handle_conn x rm i ls l =
     map_option (\<lambda>a. (writer_bytes (queue_of i a),
                      close_end rm (fst (unregister_client i a)) (close_begin i (l\<lparr>daemon := a\<rparr>))))
       (feed x i ls (daemon l))"

definition linger_fire :: "bool \<Rightarrow> nat \<Rightarrow> life \<Rightarrow> life" where
  "linger_fire rm d l =
     (let l = l\<lparr>timers := remove1 d (timers l)\<rparr>
      in if client_count (daemon l) = 0 then lock_and_exit rm l else l)"

inductive life_step :: "'x rpc_ext_scheme \<Rightarrow> life \<Rightarrow> life \<Rightarrow> bool" for x where
  life_connect: "\<not> exited l \<Longrightarrow> life_step x l (accept_conn cred my_uid l)"
| life_line: "\<not> exited l \<Longrightarrow> i \<in> fst ` set (clients (daemon l)) \<Longrightarrow>
    conn_line x sch i line (daemon l) = Some a \<Longrightarrow> life_step x l (l\<lparr>daemon := a\<rparr>)"
| life_close: "\<not> exited l \<Longrightarrow> i \<in> fst ` set (clients (daemon l)) \<Longrightarrow> life_step x l (close_begin i l)"
| life_drained: "\<not> exited l \<Longrightarrow> n \<in> set (ending l) \<Longrightarrow> life_step x l (close_end rm n l)"
| life_linger: "\<not> exited l \<Longrightarrow> d \<in> set (timers l) \<Longrightarrow> d \<le> mono (sys (daemon l)) \<Longrightarrow>
    life_step x l (linger_fire rm d l)"
| life_idle: "\<not> exited l \<Longrightarrow> life_step x l (l\<lparr>daemon := snd (autolock_tick x (daemon l))\<rparr>)"
| life_clock: "\<not> exited l \<Longrightarrow>
    life_step x l (l\<lparr>daemon := (daemon l)\<lparr>sys := sleep_secs n (sys (daemon l))\<rparr>\<rparr>)"
| life_sigterm: "\<not> exited l \<Longrightarrow> life_step x l (lock_and_exit rm l)"

inductive_simps life_step_exited: "life_step x l m"

definition life_start :: "Config \<Rightarrow> life \<Rightarrow> bool" where
  "life_start c l \<longleftrightarrow>
     (\<exists>o0. l = \<lparr>daemon = Server_new c o0, ending = [], timers = [], sock_file = True, exited = False\<rparr>)"

subsection \<open>The start of the socket daemon\<close>

text \<open>
  \<open>serve_socket\<close> up to its accept loop, and its end, for any number of processes that use the same
  socket path. Each phase ends with one system call; \<open>flock_by\<close> is the holder of the exclusive lock
  on the lock file, \<open>sock_by\<close> the process whose \<open>bind\<close> made the socket file that exists.
\<close>

datatype phase = Starting | DirReady | LockOpen | Owner | Cleared | Serving | Unlinked | Exited nat

text \<open>The phases in the order a process goes through them; every exit comes last.\<close>

fun rank :: "phase \<Rightarrow> nat" where
  "rank Starting = 0"
| "rank DirReady = 1"
| "rank LockOpen = 2"
| "rank Owner = 3"
| "rank Cleared = 4"
| "rank Serving = 5"
| "rank Unlinked = 6"
| "rank (Exited n) = 7 + n"

lemma rank_inject: "rank a = rank b \<Longrightarrow> a = b"
  by (cases a; cases b) simp_all

instantiation phase :: linorder
begin

definition less_eq_phase :: "phase \<Rightarrow> phase \<Rightarrow> bool" where
  "less_eq_phase a b \<longleftrightarrow> rank a \<le> rank b"

definition less_phase :: "phase \<Rightarrow> phase \<Rightarrow> bool" where
  "less_phase a b \<longleftrightarrow> rank a < rank b"

instance
  by standard (auto simp: less_eq_phase_def less_phase_def dest: rank_inject)

end

record host =
  procs :: "nat \<Rightarrow> phase option"
  flock_by :: "nat option"
  sock_by :: "nat option"

definition set_phase :: "nat \<Rightarrow> phase \<Rightarrow> host \<Rightarrow> host" where
  "set_phase p ph h = h\<lparr>procs := (procs h)(p \<mapsto> ph)\<rparr>"

text \<open>The kernel releases the lock of a process that ends.\<close>

definition proc_exit :: "nat \<Rightarrow> nat \<Rightarrow> host \<Rightarrow> host" where
  "proc_exit p code h =
     (set_phase p (Exited code) h)\<lparr>flock_by := (if flock_by h = Some p then None else flock_by h)\<rparr>"

text \<open>The next system call of a starting or stopping process; \<open>ok\<close> is whether it succeeds where it may fail.\<close>

definition serve_call :: "nat \<Rightarrow> bool \<Rightarrow> host \<Rightarrow> host" where
  "serve_call p ok h =
     (case procs h p of
        Some Starting \<Rightarrow> if ok then set_phase p DirReady h else proc_exit p 1 h
      | Some DirReady \<Rightarrow> if ok then set_phase p LockOpen h else proc_exit p 1 h
      | Some LockOpen \<Rightarrow>
          if flock_by h \<noteq> None \<or> \<not> ok then proc_exit p 0 h
          else (set_phase p Owner h)\<lparr>flock_by := Some p\<rparr>
      | Some Owner \<Rightarrow>
          let h = set_phase p Cleared h in if ok then h\<lparr>sock_by := None\<rparr> else h
      | Some Cleared \<Rightarrow>
          if ok \<and> sock_by h = None then (set_phase p Serving h)\<lparr>sock_by := Some p\<rparr>
          else proc_exit p 1 h
      | Some Serving \<Rightarrow>
          let h = set_phase p Unlinked h in if ok then h\<lparr>sock_by := None\<rparr> else h
      | Some Unlinked \<Rightarrow> proc_exit p 0 h
      | _ \<Rightarrow> h)"

inductive host_step :: "host \<Rightarrow> host \<Rightarrow> bool" where
  spawn: "procs h p = None \<Longrightarrow> host_step h (set_phase p Starting h)"
| call: "host_step h (serve_call p ok h)"
| crash: "procs h p = Some ph \<Longrightarrow> (\<forall>c. ph \<noteq> Exited c) \<Longrightarrow> host_step h (proc_exit p 137 h)"

definition host_start :: "host \<Rightarrow> bool" where
  "host_start h \<longleftrightarrow> procs h = (\<lambda>_. None) \<and> flock_by h = None"

definition owning :: "phase \<Rightarrow> bool" where
  "owning ph \<longleftrightarrow> ph \<in> {Owner, Cleared, Serving, Unlinked}"

definition owns :: "host \<Rightarrow> nat \<Rightarrow> bool" where
  "owns h p \<longleftrightarrow> (\<exists>ph. procs h p = Some ph \<and> owning ph)"

definition host_inv :: "host \<Rightarrow> bool" where
  "host_inv h \<longleftrightarrow>
     (\<forall>p. owns h p \<longleftrightarrow> flock_by h = Some p) \<and>
     (\<forall>p. procs h p = Some Serving \<longrightarrow> sock_by h = Some p)"

lemma owns_set_phase [simp]: "owns (set_phase p ph h) q = (if q = p then owning ph else owns h q)"
  by (auto simp: owns_def set_phase_def)

lemma owns_more [simp]: "owns (h\<lparr>flock_by := f\<rparr>) q = owns h q" "owns (h\<lparr>sock_by := s\<rparr>) q = owns h q"
  by (simp_all add: owns_def)

lemma set_phase_simps [simp]:
  "flock_by (set_phase p ph h) = flock_by h" "sock_by (set_phase p ph h) = sock_by h"
  "procs (set_phase p ph h) = (procs h)(p \<mapsto> ph)"
  by (simp_all add: set_phase_def)

lemma owning_simps [simp]:
  "owning Owner" "owning Cleared" "owning Serving" "owning Unlinked"
  "\<not> owning Starting" "\<not> owning DirReady" "\<not> owning LockOpen" "\<not> owning (Exited c)"
  by (simp_all add: owning_def)

lemma serving_owns: "procs h p = Some Serving \<Longrightarrow> owns h p"
  by (auto simp: owns_def)

text \<open>Each call of a starting process moves it forward, and nobody else's call moves it.\<close>

lemma serve_call_moves:
  assumes "procs h p = Some ph"
  shows "\<exists>ph'. procs (serve_call q ok h) p = Some ph' \<and> ph \<le> ph' \<and> (q = p \<longrightarrow> ph < Serving \<longrightarrow> ph < ph')"
proof (cases "q = p")
  case True
  with assms show ?thesis
    by (cases ph) (simp_all add: serve_call_def Let_def proc_exit_def less_phase_def less_eq_phase_def)
next
  case False
  with assms show ?thesis
    by (simp add: serve_call_def Let_def proc_exit_def split: option.split phase.split)
qed

lemma host_inv_start: "host_start h \<Longrightarrow> host_inv h"
  by (simp add: host_start_def host_inv_def owns_def)

lemma host_inv_unique: "host_inv h \<Longrightarrow> owns h p \<Longrightarrow> owns h q \<Longrightarrow> p = q"
  unfolding host_inv_def by (metis option.inject)

lemma host_inv_exit: "host_inv h \<Longrightarrow> host_inv (proc_exit p c h)"
  unfolding host_inv_def proc_exit_def by auto

text \<open>A phase change that keeps ownership; an owner may do as it likes with the socket file.\<close>

lemma host_inv_move:
  assumes "host_inv h" "owning ph \<longleftrightarrow> owns h p"
    and "ph = Serving \<longrightarrow> s = Some p" "s = sock_by h \<or> owning ph"
  shows "host_inv ((set_phase p ph h)\<lparr>sock_by := s\<rparr>)"
proof -
  have "sock_by h = Some q \<and> (owning ph \<longrightarrow> q = p)" if "procs h q = Some Serving" for q
    using that assms(1,2) host_inv_unique [OF assms(1) serving_owns [OF that], of p]
    by (auto simp: host_inv_def)
  then show ?thesis
    using assms by (auto simp: host_inv_def)
qed

lemma host_inv_move_phase:
  assumes "host_inv h" "owning ph \<longleftrightarrow> owns h p" "ph \<noteq> Serving"
  shows "host_inv (set_phase p ph h)"
  using host_inv_move [OF assms(1,2), of "sock_by h"] assms(3) by (cases h) (simp add: set_phase_def)

lemma host_inv_take:
  assumes "host_inv h" "flock_by h = None"
  shows "host_inv ((set_phase p Owner h)\<lparr>flock_by := Some p\<rparr>)"
  using assms serving_owns [of h] by (auto simp: host_inv_def)

lemma host_inv_call: "host_inv h \<Longrightarrow> host_inv (serve_call p ok h)"
proof (cases "procs h p")
  case None
  assume "host_inv h"
  with None show ?thesis by (simp add: serve_call_def)
next
  case (Some ph)
  assume inv: "host_inv h"
  have own: "owning ph \<longleftrightarrow> owns h p" using Some by (auto simp: owns_def)
  show ?thesis
    using Some own host_inv_exit [OF inv] host_inv_take [OF inv] host_inv_move [OF inv, of _ p]
      host_inv_move_phase [OF inv, of _ p] inv
    by (cases ph) (simp_all add: serve_call_def Let_def)
qed

interpretation hosts: invariant_system host_start host_step host_inv
proof
  show "host_inv h" if "host_start h" for h using that by (rule host_inv_start)
  show "host_inv g" if "host_inv h" "host_step h g" for h g
    using that(2)
  proof cases
    case (spawn p)
    then have "\<not> owns h p" by (simp add: owns_def)
    with that(1) spawn show ?thesis by (auto intro: host_inv_move_phase)
  next
    case (call p ok)
    with that(1) show ?thesis by (simp add: host_inv_call)
  next
    case (crash p ph)
    with that(1) show ?thesis by (auto intro: host_inv_exit)
  qed
qed

subsection \<open>The life of the daemon\<close>

lemma exit_simps [simp]:
  "exited (lock_and_exit rm l)" "session (daemon (lock_and_exit rm l)) = None"
  "exited (close_begin i l) = exited l" "exited (accept_conn cred uid l) = exited l"
  by (simp_all add: lock_and_exit_def close_begin_def accept_conn_def split: prod.split)

definition life_inv :: "life \<Rightarrow> bool" where
  "life_inv l \<longleftrightarrow> exited l \<longrightarrow> is_locked (daemon l)"

interpretation lives: invariant_system "life_start c" "life_step x" life_inv for c x
proof
  show "life_inv l" if "life_start c l" for l
    using that by (auto simp: life_start_def life_inv_def)
  show "life_inv m" if "life_inv l" "life_step x l m" for l m
    using that(2) by cases
      (auto simp: life_inv_def is_locked_def close_end_def linger_fire_def Let_def split: closing.split)
qed

end
