(* ===== verification/KR_RpcInstance.thy ===== *)
theory KR_RpcInstance
  imports KR_Instance KR_Rpc
begin

text \<open>
  A concrete instance of the JSON functions, for the same purpose as \<open>KR_Instance\<close>: a prefix code
  of values written with characters that are neither white space nor line ends, its parser, and
  decoders of the parameter structs that read the fields by name.
\<close>

subsection \<open>The text of a value\<close>

fun jenc :: "json \<Rightarrow> nat list" where
  "jenc JNull = [0]"
| "jenc (JBool b) = [1, if b then 1 else 0]"
| "jenc (JInt n) = [2, if n < 0 then 1 else 0, nat \<bar>n\<bar>]"
| "jenc (JFloat s) = 3 # put_str s"
| "jenc (JStr s) = 4 # put_str s"
| "jenc (JArr l) = 5 # length l # concat (map jenc l)"
| "jenc (JObj m) = 6 # length m # concat (map (\<lambda>(k, v). put_str k @ jenc v) m)"

definition get_pair ::
  "(nat list \<Rightarrow> (json \<times> nat list) option) \<Rightarrow> nat list \<Rightarrow> ((rstring \<times> json) \<times> nat list) option" where
  "get_pair g r =
     Option.bind (get_str r) (\<lambda>(k, r1). Option.bind (g r1) (\<lambda>(v, r2). Some ((k, v), r2)))"

definition jstep ::
  "(nat list \<Rightarrow> (json \<times> nat list) option) \<Rightarrow> nat list \<Rightarrow> (json \<times> nat list) option" where
  "jstep g ts =
     (case ts of [] \<Rightarrow> None
      | t # r \<Rightarrow>
          if t = 0 then Some (JNull, r)
          else if t = 1 then map_option (\<lambda>(b, r1). (JBool (b = 1), r1)) (get_nat r)
          else if t = 2 then
            Option.bind (get_nat r) (\<lambda>(sg, r1). Option.bind (get_nat r1) (\<lambda>(n, r2).
              Some (JInt (if sg = 1 then - int n else int n), r2)))
          else if t = 3 then map_option (\<lambda>(s, r1). (JFloat s, r1)) (get_str r)
          else if t = 4 then map_option (\<lambda>(s, r1). (JStr s, r1)) (get_str r)
          else if t = 5 then map_option (\<lambda>(l, r1). (JArr l, r1)) (get_list g r)
          else map_option (\<lambda>(m, r1). (JObj m, r1)) (get_list (get_pair g) r))"

primrec jdec :: "nat \<Rightarrow> nat list \<Rightarrow> (json \<times> nat list) option" where
  "jdec 0 = (\<lambda>_. None)"
| "jdec (Suc n) = jstep (jdec n)"

lemma get_str_put [simp]: "get_str (put_str s @ r) = Some (s, r)"
  using stream_ok_str by (simp add: stream_ok_def)

lemma get_n_each:
  "\<forall>x \<in> set xs. \<forall>r. g (p x @ r) = Some (x, r) \<Longrightarrow>
   get_n g (length xs) (concat (map p xs) @ r) = Some (xs, r)"
  by (induction xs) simp_all

lemma get_list_each:
  "\<forall>x \<in> set xs. \<forall>r. g (p x @ r) = Some (x, r) \<Longrightarrow>
   get_list g (length xs # concat (map p xs) @ r) = Some (xs, r)"
  using get_n_each [of xs g p r] by (simp add: get_list_def)

lemma length_concat_mem: "x \<in> set xs \<Longrightarrow> length (p x) \<le> length (concat (map p xs))"
  by (induction xs) auto

lemma jdec_jenc: "length (jenc v) \<le> n \<Longrightarrow> jdec n (jenc v @ r) = Some (v, r)"
proof (induction v arbitrary: n r rule: jenc.induct)
  case 1
  then show ?case by (cases n) (auto simp: jstep_def)
next
  case (2 b)
  then show ?case by (cases n) (auto simp: jstep_def)
next
  case (3 i)
  then show ?case by (cases n) (auto simp: jstep_def)
next
  case (4 s)
  then show ?case by (cases n) (auto simp: jstep_def)
next
  case (5 s)
  then show ?case by (cases n) (auto simp: jstep_def)
next
  case (6 l)
  then obtain k where n: "n = Suc k" by (cases n) auto
  have "length (jenc v) \<le> k" if "v \<in> set l" for v
    using length_concat_mem [OF that, of jenc] 6(2) n by simp
  then have "\<forall>v \<in> set l. \<forall>r. jdec k (jenc v @ r) = Some (v, r)" using 6(1) by blast
  then show ?case by (simp add: n jstep_def get_list_each)
next
  case (7 m)
  let ?p = "\<lambda>(k, v). put_str k @ jenc v"
  from 7 obtain k where n: "n = Suc k" by (cases n) auto
  have "get_pair (jdec k) (?p (a, v) @ r) = Some ((a, v), r)" if "(a, v) \<in> set m" for a v r
  proof -
    have "length (jenc v) \<le> k" using length_concat_mem [OF that, of ?p] 7(2) n by simp
    then have "jdec k (jenc v @ r) = Some (v, r)" by (rule 7(1) [OF that refl])
    then show ?thesis by (simp add: get_pair_def)
  qed
  then have "\<forall>x \<in> set m. \<forall>r. get_pair (jdec k) (?p x @ r) = Some (x, r)" by fast
  then show ?case using get_list_each [of m "get_pair (jdec k)" ?p r] by (simp add: n jstep_def)
qed

text \<open>The numbers are written in decimal, each followed by a comma.\<close>

definition write_nums :: "nat list \<Rightarrow> rstring" where
  "write_nums ns = concat (map (\<lambda>n. show_nat n @ [44]) ns)"

fun read_nums :: "nat \<Rightarrow> rstring \<Rightarrow> nat list" where
  "read_nums acc [] = []"
| "read_nums acc (c # cs) =
     (if c = 44 then acc # read_nums 0 cs else read_nums (10 * acc + (c - 48)) cs)"

lemma read_digits:
  "list_all is_digit s \<Longrightarrow> read_nums acc (s @ 44 # r) = digits_value acc s # read_nums 0 r"
  by (induction s arbitrary: acc) (auto simp: is_digit_def)

lemma read_write_nums: "read_nums 0 (write_nums ns) = ns"
  by (induction ns) (simp_all add: write_nums_def read_digits show_nat_digits)

definition demo_json_text :: "json \<Rightarrow> rstring" where
  "demo_json_text v = write_nums (jenc (canon v))"

definition demo_json_parse :: "rstring \<Rightarrow> json option" where
  "demo_json_parse s = (let ns = read_nums 0 s in map_option fst (jdec (length ns) ns))"

lemma demo_parse_text: "demo_json_parse (demo_json_text v) = Some (canon v)"
  using jdec_jenc [of "canon v" "length (jenc (canon v))" "[]"]
  by (simp add: demo_json_parse_def demo_json_text_def read_write_nums)

lemma write_nums_chars: "c \<in> set (write_nums ns) \<Longrightarrow> c = 44 \<or> is_digit c"
  using show_nat_digits by (induction ns) (auto simp: write_nums_def list_all_iff)

subsection \<open>Decoders\<close>

definition want :: "rstring \<Rightarrow> rstring + 'a" where
  "want f = Inl (lit ''missing field '' @ f)"

definition field_str :: "json \<Rightarrow> string \<Rightarrow> rstring option" where
  "field_str j f = Option.bind (json_get (lit f) j) as_str"

definition field_bool :: "json \<Rightarrow> string \<Rightarrow> bool option" where
  "field_bool j f = Option.bind (json_get (lit f) j) as_bool"

definition demo_password :: "json \<Rightarrow> rstring + PasswordParam" where
  "demo_password j = (case field_str j ''password'' of None \<Rightarrow> want (lit ''password'')
     | Some p \<Rightarrow> Inr \<lparr>pp_password = p\<rparr>)"

definition demo_rotate_param :: "json \<Rightarrow> rstring + RotateParam" where
  "demo_rotate_param j = (case (field_str j ''old_password'', field_str j ''new_password'') of
     (Some p, Some q) \<Rightarrow> Inr \<lparr>rp_old = p, rp_new = q\<rparr> | _ \<Rightarrow> want (lit ''password''))"

definition field_wait :: "json \<Rightarrow> bool" where
  "field_wait j = (case field_bool j ''wait'' of None \<Rightarrow> default_true | Some b \<Rightarrow> b)"

definition demo_name :: "json \<Rightarrow> rstring + NameParam" where
  "demo_name j = (case field_str j ''name'' of None \<Rightarrow> want (lit ''name'')
     | Some n \<Rightarrow> Inr \<lparr>np_name = n, np_wait = field_wait j\<rparr>)"

definition demo_rename :: "json \<Rightarrow> rstring + RenameParam" where
  "demo_rename j = (case (field_str j ''from'', field_str j ''to'') of
     (Some p, Some q) \<Rightarrow> Inr \<lparr>rn_from = p, rn_to = q, rn_wait = field_wait j\<rparr>
   | _ \<Rightarrow> want (lit ''from''))"

definition demo_meta :: "json \<Rightarrow> MetaIn" where
  "demo_meta j = \<lparr>mi_user = field_str j ''user'', mi_url = field_str j ''url'',
     mi_notes = field_str j ''notes'', mi_tags = None, mi_totp = field_bool j ''totp''\<rparr>"

definition demo_set :: "json \<Rightarrow> rstring + SetParam" where
  "demo_set j = (case field_str j ''name'' of None \<Rightarrow> want (lit ''name'')
     | Some n \<Rightarrow> Inr \<lparr>sp_name = n, sp_value = field_str j ''value'',
         sp_meta = map_option demo_meta (json_get (lit ''meta'') j), sp_wait = field_wait j\<rparr>)"

definition demo_generate :: "json \<Rightarrow> rstring + GenerateParam" where
  "demo_generate j = Inr \<lparr>gp_length = map_option nat (Option.bind (json_get (lit ''length'') j) as_u64),
     gp_symbols = field_bool j ''symbols'', gp_store_as = field_str j ''store_as''\<rparr>"

definition demo_request :: "rstring \<Rightarrow> Request option" where
  "demo_request s =
     Option.bind (demo_json_parse s) (\<lambda>j.
     Option.bind (Option.bind (json_get (lit ''id'') j) as_u64) (\<lambda>i.
     Option.bind (field_str j ''method'') (\<lambda>m.
       Some \<lparr>r_id = of_int i, r_method = m,
         r_params = (case json_get (lit ''params'') j of None \<Rightarrow> JNull | Some p \<Rightarrow> p)\<rparr>)))"

definition demo_rpc :: rpc_ext where
  "demo_rpc =
     \<lparr>argon2_params = (\<lambda>m t p n. None), argon2_hash = demo_hash,
      aead_encrypt = demo_encrypt, aead_decrypt = demo_decrypt,
      upper_ext = (\<lambda>c. [c]), base32_decode = (\<lambda>bs. Some bs), hmac_sha1 = demo_hmac,
      body_to_vec = demo_to_vec, body_from_slice = demo_from_slice,
      json_text = demo_json_text, json_parse = demo_json_parse, request_parse = demo_request,
      de_password = demo_password, de_rotate = demo_rotate_param, de_name = demo_name,
      de_rename = demo_rename, de_set = demo_set,
      de_wait = (\<lambda>j. Inr \<lparr>wp_wait = field_wait j\<rparr>), de_generate = demo_generate\<rparr>"

lemma demo_rpc_simps [simp]:
  "json_text demo_rpc = demo_json_text" "json_parse demo_rpc = demo_json_parse"
  "request_parse demo_rpc = demo_request" "de_password demo_rpc = demo_password"
  "de_rotate demo_rpc = demo_rotate_param" "de_name demo_rpc = demo_name"
  "de_rename demo_rpc = demo_rename" "de_set demo_rpc = demo_set"
  "de_wait demo_rpc j = Inr \<lparr>wp_wait = field_wait j\<rparr>" "de_generate demo_rpc = demo_generate"
  by (simp_all add: demo_rpc_def)

subsection \<open>The hypotheses hold\<close>

lemma demo_rpc_lib: "demo_rpc = demo_lib (vault_ext.more demo_rpc)"
  by (simp add: demo_rpc_def demo_lib_def)

lemma demo_rpc_kdf_len: "kdf_len demo_rpc" by (subst demo_rpc_lib) (rule lib_kdf_len)
lemma demo_rpc_aead_ok: "aead_ok demo_rpc" by (subst demo_rpc_lib) (rule lib_aead_ok)
lemma demo_rpc_aead_auth: "aead_auth demo_rpc" by (subst demo_rpc_lib) (rule lib_aead_auth)
lemma demo_rpc_hmac_len: "hmac_len demo_rpc" by (subst demo_rpc_lib) (rule lib_hmac_len)
lemma demo_rpc_body_codec: "body_codec demo_rpc" by (subst demo_rpc_lib) (rule lib_body_codec)

lemma trim_id: "\<forall>c \<in> set s. \<not> is_whitespace c \<Longrightarrow> trim s = s"
proof -
  have keep: "dropWhile is_whitespace t = t" if "\<forall>c \<in> set t. \<not> is_whitespace c" for t
    using that by (cases t) auto
  assume "\<forall>c \<in> set s. \<not> is_whitespace c"
  then show ?thesis by (simp add: trim_def keep)
qed

lemma demo_json_codec: "json_codec demo_rpc"
proof -
  have "\<not> is_whitespace c \<and> c \<noteq> 10 \<and> scalar c" if "c \<in> set (demo_json_text v)" for c v
    using that write_nums_chars
    by (fastforce simp: demo_json_text_def is_whitespace_def is_digit_def scalar_def)
  moreover have "demo_json_text v \<noteq> []" for v
    by (cases "canon v") (simp_all add: demo_json_text_def write_nums_def)
  ultimately show ?thesis by (auto simp: json_codec_def demo_parse_text trim_id list_all_iff)
qed

lemma demo_request_codec: "request_codec demo_rpc"
proof -
  have "uint i < 2 ^ 64" for i :: u64 using uint_lt2p [of i] by simp
  then show ?thesis
    by (simp add: request_codec_def demo_request_def demo_parse_text request_value_def field_str_def
        json_get_canon del: canon.simps(2))
qed

lemma demo_serde_name: "serde_name demo_rpc"
  by (simp add: serde_name_def demo_name_def field_str_def field_bool_def field_wait_def)

lemma demo_serde_set: "serde_set demo_rpc"
  by (auto simp: serde_set_def demo_set_def demo_meta_def field_str_def field_bool_def field_wait_def)

end
