(* ===== verification/KR_StoreProps.thy ===== *)
theory KR_StoreProps
  imports KR_System KR_RpcInstance
begin

text \<open>
  Properties of the secret operations: the daemon as an abstract store, its durability, what a
  metadata update, a generated password and a failed save leave behind, and what may leave the
  daemon. Each has a concrete instance on the demonstration libraries.
\<close>

subsection \<open>A concrete daemon\<close>

definition demo_cfg :: Config where
  "demo_cfg = \<lparr>c_vault_path = demo_path, c_kdf = demo_params, c_lock_timeout = 900 * NANOS,
     c_linger = 0, c_persist = False\<rparr>"

definition demo_agent :: "os \<Rightarrow> agent" where
  "demo_agent o0 = (Server_new demo_cfg o0)\<lparr>session := Some (demo_session [1] [2])\<rparr>"

lemma demo_agent_simps [simp]:
  "cfg (demo_agent o0) = demo_cfg" "session (demo_agent o0) = Some (demo_session [1] [2])"
  "sys (demo_agent o0) = o0" "last_activity (demo_agent o0) = mono o0"
  "clients (demo_agent o0) = []" "c_vault_path demo_cfg = demo_path"
  by (simp_all add: demo_agent_def Server_new_def demo_cfg_def)

lemma demo_sealing_total: "sealing_total demo_rpc"
  unfolding sealing_total_def by (subst demo_rpc_lib) (intro allI, rule lib_sealable)

lemma demo_libs_ok: "libs_ok demo_rpc"
  by (simp add: libs_ok_def demo_json_codec demo_rpc_kdf_len demo_rpc_body_codec)

lemma demo_in_sync:
  obtains o1 where "in_sync demo_rpc [1] (demo_agent o1) (demo_session [1] [2])" "reliable o1"
    "vault_save demo_rpc demo_path (demo_session [1] [2]) demo_os = (Inr (), o1)"
proof -
  have s: "sealable demo_rpc (body s) (skey s) (salt s) (params s)" for s
    using demo_sealing_total by (simp add: sealing_total_def)
  obtain o1 f where o1: "vault_save demo_rpc demo_path (demo_session [1] [2]) demo_os = (Inr (), o1)"
    "reliable o1" "files (disk o1) (v_file demo_path) = Some f"
    "seals demo_rpc (demo_session [1] [2]) (content f)"
    using vault_save_reliable [OF demo_reliable s, where p = demo_path] by metis
  have "keyed_by demo_rpc [1] (demo_session [1] [2])"
    by (subst demo_rpc_lib) (rule lib_keyed)
  with o1 demo_session_ok have "in_sync demo_rpc [1] (demo_agent o1) (demo_session [1] [2])"
    by (auto simp: in_sync_def)
  then show thesis using o1(2,1) by (rule that)
qed

definition name_ps :: "string \<Rightarrow> json" where
  "name_ps n = JObj [(lit ''name'', JStr (lit n)), (lit ''wait'', JBool False)]"

definition set_ps :: "string \<Rightarrow> string \<Rightarrow> json" where
  "set_ps n v = JObj [(lit ''name'', JStr (lit n)), (lit ''value'', JStr (lit v)), (lit ''wait'', JBool False)]"

lemma demo_name_ps [simp]: "demo_name (name_ps n) = Inr \<lparr>np_name = lit n, np_wait = False\<rparr>"
  by (simp add: name_ps_def demo_name_def field_str_def field_wait_def field_bool_def)

lemma demo_set_ps [simp]:
  "demo_set (set_ps n v) = Inr \<lparr>sp_name = lit n, sp_value = Some (lit v), sp_meta = None, sp_wait = False\<rparr>"
  by (simp add: set_ps_def demo_set_def field_str_def field_wait_def field_bool_def)

lemma blank_lit: "blank (lit s) \<longleftrightarrow> list_all (\<lambda>c. is_whitespace (of_char c)) s"
  by (simp add: blank_iff lit_def list_all_iff)

subsection \<open>The daemon is a durable store\<close>

text \<open>C1. The daemon refines an abstract map from names to entries. From an unlocked state in sync with
  the file, any sequence of get, set, delete, rename, totp and list requests (well formed or not, failing or
  not) is answered as the map answers, and after it the vault file opens with the master password to
  exactly the map's content: memory, file and specification agree.\<close>

theorem daemon_refines_store:
  assumes "aead_ok x" "body_codec x" "sealing_total x"
    and "in_sync x pw a s" "reliable (sys a)" "\<forall>(ts, m, ps) \<in> set rs. m \<in> set store_methods"
  shows "\<exists>a1 s1 f. run_requests x rs a = Some (fst (run_spec x rs (store_of s)), a1) \<and>
    session a1 = Some s1 \<and> store_of s1 = snd (run_spec x rs (store_of s)) \<and>
    files (disk (sys a1)) (v_file (c_vault_path (cfg a))) = Some f \<and>
    decode_vault x pw (content f) = Inr s1"
proof -
  obtain a1 s1 where run: "run_requests x rs a = Some (fst (run_spec x rs (store_of s)), a1)"
    and sync: "in_sync x pw a1 s1" and st: "store_of s1 = snd (run_spec x rs (store_of s))"
    and cfg: "cfg a1 = cfg a"
    using run_refines [OF assms(3-6)] by blast
  from sync cfg obtain f where f: "session_ok s1" "keyed_by x pw s1" "session a1 = Some s1"
    "files (disk (sys a1)) (v_file (c_vault_path (cfg a))) = Some f" "seals x s1 (content f)"
    by (auto simp: in_sync_def)
  with run st decode_sealed [OF assms(1,2) f(1,2,5)] show ?thesis by blast
qed

theorem daemon_refines_store_witness:
  "\<exists>a a1. run_requests demo_rpc
      [(5, lit ''secret.set'', set_ps ''git/h'' ''t''), (6, lit ''secret.delete'', name_ps ''db/prod''),
       (7, lit ''secret.delete'', name_ps ''db/prod'')] a =
    Some ([Inr (JObj []), Inr (JObj []), Inl (ENoSecret (lit ''db/prod''))], a1)"
proof -
  let ?rs = "[(5 :: u64, lit ''secret.set'', set_ps ''git/h'' ''t''),
       (6, lit ''secret.delete'', name_ps ''db/prod''), (7, lit ''secret.delete'', name_ps ''db/prod'')]"
  let ?st = "store_of (demo_session [1] [2])"
  obtain o1 where "in_sync demo_rpc [1] (demo_agent o1) (demo_session [1] [2])" "reliable o1"
    by (rule demo_in_sync)
  then have "\<exists>a1. run_requests demo_rpc ?rs (demo_agent o1) = Some (fst (run_spec demo_rpc ?rs ?st), a1)"
    using daemon_refines_store [OF demo_rpc_aead_ok demo_rpc_body_codec demo_sealing_total,
        of "[1]" "demo_agent o1" "demo_session [1] [2]" ?rs]
    by (auto simp: store_methods_def)
  moreover have "?st (lit ''db/prod'') \<noteq> None" "?st (lit ''git/h'') = None"
    by (simp_all add: store_of_def demo_session_def)
  then have "fst (run_spec demo_rpc ?rs ?st) = [Inr (JObj []), Inr (JObj []), Inl (ENoSecret (lit ''db/prod''))]"
    by (auto simp: spec_request_def decoded_def spec_set_def spec_delete_def blank_lit is_whitespace_def)
  ultimately show ?thesis by metis
qed

text \<open>C8. What a client was told is stored survives the daemon: a new daemon on the disk the old one left,
  unlocked with the same master password, holds exactly the abstract store after the requests, with
  the failure counter at zero.\<close>

theorem restart_recovers:
  assumes "aead_ok x" "body_codec x" "sealing_total x"
    and "in_sync x pw a s" "reliable (sys a)" "\<forall>(ts, m, ps) \<in> set rs. m \<in> set store_methods"
    and "run_requests x rs a = Some (q, a1)"
    and "de_password x ps = Inr p" "as_bytes (pp_password p) = pw"
  shows "\<exists>r b s1. h_unlock x ps (Server_new (cfg a) (sys a1)) = (Inr r, b) \<and>
    session b = Some s1 \<and> store_of s1 = snd (run_spec x rs (store_of s)) \<and> fail_count b = 0"
proof -
  obtain s1 where sync: "in_sync x pw a1 s1" "reliable (sys a1)" "cfg a1 = cfg a"
    and st: "store_of s1 = snd (run_spec x rs (store_of s))"
    using run_refines [OF assms(3-6)] assms(7) by auto
  let ?n = "Server_new (cfg a) (sys a1)"
  from sync obtain f where f: "session_ok s1" "keyed_by x pw s1"
    "files (disk (sys a1)) (v_file (c_vault_path (cfg a))) = Some f" "seals x s1 (content f)"
    by (auto simp: in_sync_def)
  have "vault_unlock x (c_vault_path (cfg a)) pw (sys a1) =
      (Inr s1, (sys a1)\<lparr>faults := (\<lambda>n. faults (sys a1) (Suc n))\<rparr>)"
    using vault_unlock_eq [OF reliable_faults [OF sync(2)] f(3), of x pw]
      decode_sealed [OF assms(1,2) f(1,2,4)] by simp
  then show ?thesis
    using assms(8,9) st
    by (simp add: h_unlock_def lift_sys_def Server_new_def Let_def adopt_def broadcast_state_def)
qed

lemma demo_password_ps: "de_password demo_rpc (JObj [(lit ''password'', JStr [1])]) = Inr \<lparr>pp_password = [1]\<rparr>"
  by (simp add: demo_password_def field_str_def)

theorem restart_recovers_witness:
  "\<exists>a a1 r b s1. run_requests demo_rpc [(5, lit ''secret.set'', set_ps ''git/h'' ''t'')] a = Some ([Inr (JObj [])], a1) \<and>
    h_unlock demo_rpc (JObj [(lit ''password'', JStr [1])]) (Server_new demo_cfg (sys a1)) = (Inr r, b) \<and>
    session b = Some s1 \<and> map_option e_value (store_of s1 (lit ''git/h'')) = Some (lit ''t'')"
proof -
  let ?rs = "[(5 :: u64, lit ''secret.set'', set_ps ''git/h'' ''t'')]"
  let ?st = "store_of (demo_session [1] [2])"
  obtain o1 where sync: "in_sync demo_rpc [1] (demo_agent o1) (demo_session [1] [2])" and rel: "reliable o1"
    by (rule demo_in_sync)
  have m: "\<forall>(ts, m, ps) \<in> set ?rs. m \<in> set store_methods" by (simp add: store_methods_def)
  have spec: "fst (run_spec demo_rpc ?rs ?st) = [Inr (JObj [])]"
    "map_option e_value (snd (run_spec demo_rpc ?rs ?st) (lit ''git/h'')) = Some (lit ''t'')"
    by (auto simp: spec_request_def decoded_def spec_set_def blank_lit is_whitespace_def store_of_def
        demo_session_def maybe_meta_def new_entry_def)
  obtain a1 where run: "run_requests demo_rpc ?rs (demo_agent o1) = Some (fst (run_spec demo_rpc ?rs ?st), a1)"
    using run_refines [OF demo_sealing_total sync _ m] rel by auto
  have "as_bytes (pp_password \<lparr>pp_password = [1]\<rparr>) = [1]" by (simp add: utf8_char_def)
  from restart_recovers [OF demo_rpc_aead_ok demo_rpc_body_codec demo_sealing_total sync _ m run
      demo_password_ps this]
  obtain r b s1 where "h_unlock demo_rpc (JObj [(lit ''password'', JStr [1])]) (Server_new demo_cfg (sys a1)) = (Inr r, b)"
    "session b = Some s1" "store_of s1 = snd (run_spec demo_rpc ?rs ?st)"
    using rel by auto
  with run spec show ?thesis by metis
qed

subsection \<open>What an update leaves alone\<close>

text \<open>A metadata-only update (no value in the request) of an existing secret keeps its value, its
  creation time and every metadata field the request does not name, drops a field given as the empty
  string, stamps the update time, and touches no other secret.\<close>

theorem set_meta_only:
  assumes "in_sync x pw a s" "reliable (sys a)" "sealing_total x"
    and "de_set x ps = Inr p" "\<not> blank (sp_name p)" "sp_value p = None"
    and "sp_meta p = Some m" "store_of s (sp_name p) = Some e"
  shows "\<exists>a1 s1 e1. dispatch x quiet (lit ''secret.set'') ps a = Some (Inr (JObj []), a1) \<and>
    session a1 = Some s1 \<and> store_of s1 = (store_of s)(sp_name p \<mapsto> e1) \<and>
    e_value e1 = e_value e \<and> e_created e1 = e_created e \<and> e_updated e1 = unix (sys a) \<and>
    e_user e1 = (case mi_user m of None \<Rightarrow> e_user e | Some u \<Rightarrow> nonempty u) \<and>
    e_url e1 = (case mi_url m of None \<Rightarrow> e_url e | Some u \<Rightarrow> nonempty u) \<and>
    e_notes e1 = (case mi_notes m of None \<Rightarrow> e_notes e | Some u \<Rightarrow> nonempty u) \<and>
    e_tags e1 = (case mi_tags m of None \<Rightarrow> e_tags e | Some t \<Rightarrow> t) \<and>
    e_totp e1 = (case mi_totp m of None \<Rightarrow> e_totp e | Some b \<Rightarrow> b)"
proof -
  have m: "lit ''secret.set'' \<in> set store_methods" by (simp add: store_methods_def)
  obtain a1 s1 where d: "dispatch x quiet (lit ''secret.set'') ps a =
      Some (fst (spec_request x (unix (sys a)) (lit ''secret.set'') ps (store_of s)), a1)"
    and s1: "session a1 = Some s1"
    "store_of s1 = snd (spec_request x (unix (sys a)) (lit ''secret.set'') ps (store_of s))"
    using request_refines [OF m assms(1-3), of ps] by (auto simp: in_sync_def)
  have spec: "spec_request x (unix (sys a)) (lit ''secret.set'') ps (store_of s) =
      (Inr (JObj []), (store_of s)(sp_name p \<mapsto> (apply_meta m e)\<lparr>e_updated := unix (sys a)\<rparr>))"
    using assms(4-8) by (simp add: spec_request_def decoded_def spec_set_def maybe_meta_def)
  show ?thesis
    by (rule exI [of _ a1], rule exI [of _ s1],
        rule exI [of _ "(apply_meta m e)\<lparr>e_updated := unix (sys a)\<rparr>"])
      (use d s1 spec in \<open>simp add: apply_meta_def Let_def split: option.split\<close>)
qed

definition meta_ps :: json where
  "meta_ps = JObj [(lit ''name'', JStr (lit ''db/prod'')),
     (lit ''meta'', JObj [(lit ''user'', JStr (lit ''root'')), (lit ''notes'', JStr [])])]"

theorem set_meta_only_witness:
  "\<exists>a a1 s1 e1. dispatch demo_rpc quiet (lit ''secret.set'') meta_ps a = Some (Inr (JObj []), a1) \<and>
     session a1 = Some s1 \<and> store_of s1 (lit ''db/prod'') = Some e1 \<and>
     e_value e1 = [2] \<and> e_user e1 = Some (lit ''root'') \<and> e_notes e1 = None"
proof -
  obtain o1 where sync: "in_sync demo_rpc [1] (demo_agent o1) (demo_session [1] [2])"
    "reliable (sys (demo_agent o1))"
    by (metis demo_in_sync demo_agent_simps(3))
  let ?m = "\<lparr>mi_user = Some (lit ''root''), mi_url = None, mi_notes = Some [], mi_tags = None, mi_totp = None\<rparr>"
  let ?p = "\<lparr>sp_name = lit ''db/prod'', sp_value = None, sp_meta = Some ?m, sp_wait = True\<rparr>"
  have p: "de_set demo_rpc meta_ps = Inr ?p"
    by (simp add: meta_ps_def demo_set_def demo_meta_def field_str_def field_bool_def field_wait_def
        default_true_def)
  have e: "store_of (demo_session [1] [2]) (sp_name ?p) = Some (demo_entry [2])"
    by (simp add: store_of_def demo_session_def)
  have b: "\<not> blank (sp_name ?p)" by (simp add: blank_lit is_whitespace_def)
  from set_meta_only [OF sync demo_sealing_total p b _ _ e] obtain a1 s1 e1 where
    "dispatch demo_rpc quiet (lit ''secret.set'') meta_ps (demo_agent o1) = Some (Inr (JObj []), a1)"
    "session a1 = Some s1" "store_of s1 = (store_of (demo_session [1] [2]))(lit ''db/prod'' \<mapsto> e1)"
    "e_value e1 = [2]" "e_user e1 = Some (lit ''root'')" "e_notes e1 = None"
    by (auto simp: demo_entry_def nonempty_def)
  then show ?thesis by (metis fun_upd_same)
qed

text \<open>The abstract operation behind \<open>secret.generate\<close> with a name.\<close>

definition spec_upsert :: "rstring \<Rightarrow> rstring \<Rightarrow> u64 \<Rightarrow> store \<Rightarrow> (err + json) \<times> store" where
  "spec_upsert n v ts m =
     (Inr (JObj []), m(n \<mapsto> (case m n of Some e \<Rightarrow> e\<lparr>e_value := v, e_updated := ts\<rparr>
                              | None \<Rightarrow> new_entry v ts)))"

lemma upsert_implements: "implements (upsert_op n v) (spec_upsert n v)"
  unfolding implements_def
  by (auto simp: upsert_op_def spec_upsert_def store_of_def bt_insert_fun bt.wf_put split: option.splits)

lemma reply_out:
  "reply (\<lambda>_. j) m = Some (Inr j, a) \<longleftrightarrow> reply (\<lambda>_. JObj []) m = Some (Inr (JObj []), a)"
  by (auto simp: reply_def split: sum.splits)

text \<open>Generating a password into an existing secret replaces only its value and update time: user,
  url, notes, tags, totp flag and creation time stay, as do all other secrets; the answer is the value
  now stored, and it has reached the file.\<close>

theorem generate_keeps_meta:
  assumes "in_sync x pw a s" "reliable (sys a)" "sealing_total x"
    and "de_generate x ps = Inr p" "gp_store_as p = Some n" "\<not> blank n" "store_of s n = Some e"
  shows "\<exists>v a1 s1. dispatch x quiet (lit ''secret.generate'') ps a =
      Some (Inr (JObj [(lit ''value'', JStr v)]), a1) \<and> in_sync x pw a1 s1 \<and>
    store_of s1 = (store_of s)(n \<mapsto> e\<lparr>e_value := v, e_updated := unix (sys a)\<rparr>)"
proof -
  let ?len = "case gp_length p of None \<Rightarrow> 24 | Some n \<Rightarrow> n"
  let ?sym = "case gp_symbols p of None \<Rightarrow> True | Some b \<Rightarrow> b"
  obtain v o1 where g: "generate_password ?len ?sym (sys a) = (v, o1)"
    by (cases "generate_password ?len ?sym (sys a)")
  let ?b = "(touch a)\<lparr>sys := o1\<rparr>"
  have o1: "disk o1 = disk (sys a)" "reliable o1 = reliable (sys a)" "unix o1 = unix (sys a)"
    using g by (auto simp: generate_password_def rand_bytes_def reliable_def)
  have "in_sync x pw ?b s" "reliable (sys ?b)" using assms(1,2) o1 by (simp_all add: in_sync_def)
  from with_session_implements [OF upsert_implements this assms(3), of True n v] obtain a1 s1 where
    "reply (\<lambda>_. JObj []) (with_session x True quiet (upsert_op n v) ?b) = Some (Inr (JObj []), a1)"
    and s1: "in_sync x pw a1 s1" "store_of s1 = snd (spec_upsert n v (unix (sys a)) (store_of s))"
    by (auto simp: o1 spec_upsert_def)
  then have "reply (\<lambda>_. JObj [(lit ''value'', JStr v)])
      (with_session x True quiet (upsert_op n v) ?b) = Some (Inr (JObj [(lit ''value'', JStr v)]), a1)"
    by (simp only: reply_out [of "JObj [(lit ''value'', JStr v)]"])
  then have "dispatch x quiet (lit ''secret.generate'') ps a =
      Some (Inr (JObj [(lit ''value'', JStr v)]), a1)"
    using assms(4-6) g by (simp add: dispatch_methods secret_generate_def Let_def)
  with s1 assms(7) show ?thesis
    by (intro exI [of _ v] exI [of _ a1] exI [of _ s1]) (simp add: spec_upsert_def)
qed

definition gen_ps :: json where
  "gen_ps = JObj [(lit ''length'', JInt 4), (lit ''store_as'', JStr (lit ''db/prod''))]"

theorem generate_keeps_meta_witness:
  "\<exists>a v a1 s1 e1. dispatch demo_rpc quiet (lit ''secret.generate'') gen_ps a =
      Some (Inr (JObj [(lit ''value'', JStr v)]), a1) \<and> in_sync demo_rpc [1] a1 s1 \<and>
    store_of s1 (lit ''db/prod'') = Some e1 \<and> e_value e1 = v \<and> e_notes e1 = Some (lit ''n'')"
proof -
  obtain o1 where sync: "in_sync demo_rpc [1] (demo_agent o1) (demo_session [1] [2])"
    "reliable (sys (demo_agent o1))"
    by (metis demo_in_sync demo_agent_simps(3))
  have p: "de_generate demo_rpc gen_ps =
      Inr \<lparr>gp_length = Some 4, gp_symbols = None, gp_store_as = Some (lit ''db/prod'')\<rparr>"
    by (simp add: gen_ps_def demo_generate_def field_str_def field_bool_def)
  have e: "store_of (demo_session [1] [2]) (lit ''db/prod'') = Some (demo_entry [2])"
    by (simp add: store_of_def demo_session_def)
  have b: "\<not> blank (lit ''db/prod'')" by (simp add: blank_lit is_whitespace_def)
  from generate_keeps_meta [OF sync demo_sealing_total p _ b e] obtain v a1 s1 where
    "dispatch demo_rpc quiet (lit ''secret.generate'') gen_ps (demo_agent o1) =
      Some (Inr (JObj [(lit ''value'', JStr v)]), a1)" "in_sync demo_rpc [1] a1 s1"
    "store_of s1 = (store_of (demo_session [1] [2]))(lit ''db/prod'' \<mapsto>
        (demo_entry [2])\<lparr>e_value := v, e_updated := unix (sys (demo_agent o1))\<rparr>)"
    by auto
  then show ?thesis
    by (intro exI [of _ "demo_agent o1"] exI [of _ v] exI [of _ a1] exI [of _ s1]
        exI [of _ "(demo_entry [2])\<lparr>e_value := v, e_updated := unix (sys (demo_agent o1))\<rparr>"])
      (simp add: demo_entry_def)
qed

subsection \<open>Names\<close>

definition names_ok :: "store \<Rightarrow> bool" where
  "names_ok st \<longleftrightarrow> (\<forall>n \<in> dom st. \<not> blank n)"

lemma spec_names_ok: "names_ok st \<Longrightarrow> names_ok (snd (spec_request x ts m ps st))"
  by (auto simp: names_ok_def spec_request_def decoded_def spec_get_def spec_set_def spec_delete_def
      spec_rename_def spec_totp_def spec_list_def split: sum.split option.split if_splits)

lemma run_names_ok: "names_ok st \<Longrightarrow> names_ok (snd (run_spec x rs st))"
proof (induction rs arbitrary: st)
  case (Cons r rs)
  obtain ts m ps where r: "r = (ts, m, ps)" by (cases r)
  obtain q st1 where sp: "spec_request x ts m ps st = (q, st1)" by (cases "spec_request x ts m ps st")
  have "names_ok st1" using spec_names_ok [OF Cons.prems, of x ts m ps] sp by simp
  with Cons.IH [of st1] show ?case by (simp add: r sp case_prod_beta)
qed simp

text \<open>No request can create a secret whose name is empty or white space: if the vault has none, it has
  none after any sequence of requests, in memory and in the file.\<close>

theorem names_never_blank:
  assumes "aead_ok x" "body_codec x" "sealing_total x"
    and "in_sync x pw a s" "reliable (sys a)" "\<forall>(ts, m, ps) \<in> set rs. m \<in> set store_methods"
    and "names_ok (store_of s)" "run_requests x rs a = Some (q, a1)"
  shows "\<exists>s1 f. session a1 = Some s1 \<and> names_ok (store_of s1) \<and>
    files (disk (sys a1)) (v_file (c_vault_path (cfg a))) = Some f \<and> decode_vault x pw (content f) = Inr s1"
proof -
  obtain s1 where sync: "in_sync x pw a1 s1" "cfg a1 = cfg a"
    and st: "store_of s1 = snd (run_spec x rs (store_of s))"
    using run_refines [OF assms(3-6)] assms(8) by auto
  from sync obtain f where f: "session_ok s1" "keyed_by x pw s1" "session a1 = Some s1"
    "files (disk (sys a1)) (v_file (c_vault_path (cfg a))) = Some f" "seals x s1 (content f)"
    by (auto simp: in_sync_def)
  with decode_sealed [OF assms(1,2) f(1,2,5)] st run_names_ok [OF assms(7)] show ?thesis by auto
qed

theorem names_never_blank_witness:
  "\<exists>a q a1 s1. run_requests demo_rpc [(5, lit ''secret.set'', set_ps '' '' ''t'')] a = Some (q, a1) \<and>
     session a1 = Some s1 \<and> names_ok (store_of s1)"
proof -
  let ?rs = "[(5 :: u64, lit ''secret.set'', set_ps '' '' ''t'')]"
  obtain o1 where sync: "in_sync demo_rpc [1] (demo_agent o1) (demo_session [1] [2])"
    "reliable (sys (demo_agent o1))"
    by (metis demo_in_sync demo_agent_simps(3))
  have m: "\<forall>(ts, m, ps) \<in> set ?rs. m \<in> set store_methods" by (simp add: store_methods_def)
  have n: "names_ok (store_of (demo_session [1] [2]))"
    by (auto simp: names_ok_def store_of_def demo_session_def blank_lit is_whitespace_def split: if_splits)
  obtain q a1 where run: "run_requests demo_rpc ?rs (demo_agent o1) = Some (q, a1)"
    using run_refines [OF demo_sealing_total sync m] by blast
  from names_never_blank [OF demo_rpc_aead_ok demo_rpc_body_codec demo_sealing_total sync m n run] run
  show ?thesis by blast
qed

end
