(* ===== verification/KR_LockProps.thy ===== *)
theory KR_LockProps
  imports KR_StoreProps
begin

text \<open>
  Properties of the lock state: what a locked daemon answers, parking and its end, the unlock
  backoff, the idle auto-lock, what counts as activity, the announcements to the clients, and the
  invariant of every reachable state.
\<close>

subsection \<open>A locked daemon\<close>

text \<open>A request that reaches the session and asks not to be parked.\<close>

definition nowait :: "'x rpc_ext_scheme \<Rightarrow> rstring \<Rightarrow> json \<Rightarrow> bool" where
  "nowait x m ps \<longleftrightarrow>
     (m \<in> {lit ''secret.get'', lit ''secret.delete'', lit ''secret.totp''} \<and>
        (\<exists>p. de_name x ps = Inr p \<and> \<not> np_wait p)) \<or>
     (m = lit ''secret.set'' \<and> (\<exists>p. de_set x ps = Inr p \<and> \<not> blank (sp_name p) \<and> \<not> sp_wait p)) \<or>
     (m = lit ''secret.rename'' \<and> (\<exists>p. de_rename x ps = Inr p \<and> \<not> blank (rn_to p) \<and> \<not> rn_wait p)) \<or>
     (m = lit ''secret.list'' \<and> (\<exists>p. de_wait x ps = Inr p \<and> \<not> wp_wait p))"

text \<open>C27. A locked daemon answers a non-waiting secret request at once with exactly the text \<open>locked\<close>,
  whatever other threads do, without parking it or prompting anyone, and nothing changes but the
  idle clock.\<close>

theorem locked_nowait_refused:
  assumes "session a = None" "nowait x m ps"
  shows "dispatch x sch m ps a = Some (Inl ELocked, a\<lparr>last_activity := mono (sys a)\<rparr>) \<and>
    show_err ELocked = lit ''locked''"
  using assms
  by (auto simp: nowait_def dispatch_methods secret_get_def secret_delete_def secret_totp_def
      secret_set_def secret_rename_def secret_list_def touch_def)

theorem locked_nowait_refused_witness:
  "dispatch demo_rpc quiet (lit ''secret.get'') (name_ps ''db/prod'') (Server_new demo_cfg demo_os) =
     Some (Inl ELocked, (Server_new demo_cfg demo_os)\<lparr>last_activity := 0\<rparr>)"
  using locked_nowait_refused [of "Server_new demo_cfg demo_os" demo_rpc "lit ''secret.get''"
      "name_ps ''db/prod''" quiet]
  by (simp add: nowait_def Server_new_def demo_os_def)

text \<open>A waiting \<open>secret.get\<close> on a locked vault parks after asking every connected client to prompt.
  It is woken into a state \<open>b\<close>: if the vault is then unlocked it answers from that session, as if it
  had been asked then; if the unlock was cancelled since, or 120 seconds have passed, it answers
  \<open>locked\<close>; otherwise it stays parked.\<close>

theorem get_parks_and_resumes:
  assumes "session a = None" "r_method req = lit ''secret.get''"
    and "de_name x (r_params req) = Inr p" "np_wait p"
  shows "handle x quiet i req a = None \<and>
    clients (parked_state x req a) = map (\<lambda>(j, q). (j, q @ [unlock_needed_line x])) (clients a) \<and>
    dispatch x (wake_to b) (r_method req) (r_params req) a =
      (case session b of
         Some s \<Rightarrow> Some (fst (spec_get (np_name p) (store_of s)), b)
       | None \<Rightarrow>
           if unlock_gen b \<noteq> unlock_gen a \<or> mono (sys a) + 120 * NANOS \<le> mono (sys b)
           then Some (Inl ELocked, b) else None)"
proof -
  have t: "session (touch a) = None" using assms(1) by simp
  have q: "acquire x True quiet (touch a) = None"
    using t UNLOCK_WAIT_pos
    by (simp add: acquire_wait wait_for_unlock_def Let_def wait_loop_Nil wait_check_def is_locked_def
        broadcast_unlock_needed_def)
  have get: "secret_get x sch (r_params req) (touch a) =
      read_session x True sch (\<lambda>ts s. fst (spec_get (np_name p) (store_of s))) (touch a)" for sch
    using assms(3,4)
    by (simp add: secret_get_def spec_get_def get_entry_op_def store_of_def bindS_def
        cong: option.case_cong) (simp add: read_session_def split: option.split sum.split)
  show ?thesis
    using assms(2) q
    by (auto simp: handle_def dispatch_methods get read_session_def acquire_wake [OF t] UNLOCK_WAIT_def
        parked_state_def broadcast_unlock_needed_def broadcast_def Let_def split: option.split)
qed

theorem get_parks_and_resumes_witness:
  "dispatch demo_rpc (wake_to (demo_agent demo_os)) (lit ''secret.get'')
      (JObj [(lit ''name'', JStr (lit ''nope''))]) (Server_new demo_cfg demo_os) =
    Some (Inl (ENoSecret (lit ''nope'')), demo_agent demo_os)"
proof -
  have n: "de_name demo_rpc (JObj [(lit ''name'', JStr (lit ''nope''))]) =
      Inr \<lparr>np_name = lit ''nope'', np_wait = True\<rparr>"
    by (simp add: demo_name_def field_str_def field_wait_def field_bool_def default_true_def)
  have "store_of (demo_session [1] [2]) (lit ''nope'') = None"
    by (simp add: store_of_def demo_session_def)
  then show ?thesis
    using get_parks_and_resumes [of "Server_new demo_cfg demo_os"
        "\<lparr>r_id = 1, r_method = lit ''secret.get'', r_params = JObj [(lit ''name'', JStr (lit ''nope''))]\<rparr>"
        demo_rpc "\<lparr>np_name = lit ''nope'', np_wait = True\<rparr>" 1 "demo_agent demo_os"] n
    by (simp add: Server_new_def spec_get_def)
qed

text \<open>C28. However the other threads interleave, a parked request is answered exactly at its first
  decisive wake-up: before it the vault was locked, no cancel had arrived and the deadline was not
  reached at every earlier wake-up; at it the vault is unlocked (the wait succeeds) or not (it fails).\<close>

theorem wait_ends_at_first_decision:
  assumes "wait_for_unlock x ws a = Some (ok, b)" "is_locked a"
  shows "\<exists>k \<le> length ws.
    (let at = (\<lambda>j. fold (\<lambda>w s. w s) (take j ws) (broadcast_unlock_needed x a))
     in b = at k \<and> ok = (\<not> is_locked b) \<and>
        (ok \<or> unlock_gen b \<noteq> unlock_gen a \<or> mono (sys a) + UNLOCK_WAIT \<le> mono (sys b)) \<and>
        (\<forall>j < k. is_locked (at j) \<and> unlock_gen (at j) = unlock_gen a \<and>
                 mono (sys (at j)) < mono (sys a) + UNLOCK_WAIT))"
proof -
  let ?a = "broadcast_unlock_needed x a"
  have loop: "wait_loop (unlock_gen a) (mono (sys a) + UNLOCK_WAIT) ws ?a = Some (ok, b)"
    using assms by (simp add: wait_for_unlock_def Let_def broadcast_unlock_needed_def)
  from wait_loop_result [OF loop] obtain k where k: "k \<le> length ws"
    "b = fold (\<lambda>w s. w s) (take k ws) ?a"
    "\<forall>j < k. wait_check (unlock_gen a) (mono (sys a) + UNLOCK_WAIT) (fold (\<lambda>w s. w s) (take j ws) ?a) = None"
    and c: "wait_check (unlock_gen a) (mono (sys a) + UNLOCK_WAIT) b = Some ok"
    by auto
  have "ok = (\<not> is_locked b) \<and>
      (ok \<or> unlock_gen b \<noteq> unlock_gen a \<or> mono (sys a) + UNLOCK_WAIT \<le> mono (sys b))"
    using c by (cases ok) (auto simp: wait_check_Some)
  with k show ?thesis
    by (intro exI [of _ k]) (auto simp: Let_def wait_check_Some(3))
qed

theorem wait_ends_at_first_decision_witness:
  "\<exists>b. wait_for_unlock demo_rpc [\<lambda>a. a, \<lambda>a. a\<lparr>unlock_gen := unlock_gen a + 1\<rparr>]
      (Server_new demo_cfg demo_os) = Some (False, b) \<and> is_locked b"
proof -
  let ?ws = "[\<lambda>a. a, \<lambda>a. a\<lparr>unlock_gen := unlock_gen a + 1\<rparr>]"
  let ?a = "Server_new demo_cfg demo_os"
  have "\<exists>b. wait_for_unlock demo_rpc ?ws ?a = Some (False, b)"
    using UNLOCK_WAIT_pos
    by (auto simp: wait_for_unlock_def Let_def wait_loop_Cons wait_loop_Nil wait_check_def
        Server_new_def is_locked_def broadcast_unlock_needed_def broadcast_def)
  then obtain b where w: "wait_for_unlock demo_rpc ?ws ?a = Some (False, b)" ..
  have "is_locked ?a" by (simp add: Server_new_def is_locked_def)
  from wait_ends_at_first_decision [OF w this] have "is_locked b" by (auto simp: Let_def)
  with w show ?thesis by blast
qed

subsection \<open>Unlock backoff\<close>

fun unlock_attempts :: "'x rpc_ext_scheme \<Rightarrow> json list \<Rightarrow> agent \<Rightarrow> (err + json) list \<times> agent" where
  "unlock_attempts x [] a = ([], a)"
| "unlock_attempts x (ps # pss) a =
     (case h_unlock x ps a of (q, a1) \<Rightarrow>
        case unlock_attempts x pss a1 of (qs, a2) \<Rightarrow> (q # qs, a2))"

lemma backoff_delay_value: "unat (backoff_delay n) = 2 ^ min (unat (n - 1)) 4"
proof -
  define k where "k = min (unat (n - 1)) 4"
  have k: "k \<in> {0, 1, 2, 3, 4}" unfolding k_def by auto
  have "unat (push_bit k (1 :: u64)) = 2 ^ k"
    using k by (auto simp: push_bit_eq_mult)
  then show ?thesis by (simp add: backoff_delay_def k_def)
qed

lemma h_unlock_fails:
  assumes "de_password x ps = Inr p" "h_unlock x ps a = (Inl e, b)"
  shows "fail_count b = saturating_inc (fail_count a) \<and> session b = session a \<and> cfg b = cfg a \<and>
    disk (sys b) = disk (sys a) \<and> clients b = clients a \<and>
    mono (sys b) = mono (sys a) + NANOS * 2 ^ min (unat (saturating_inc (fail_count a) - 1)) 4"
proof -
  obtain q o1 where u: "vault_unlock x (c_vault_path (cfg a)) (as_bytes (pp_password p)) (sys a) = (q, o1)"
    by (cases "vault_unlock x (c_vault_path (cfg a)) (as_bytes (pp_password p)) (sys a)")
  have env: "mono o1 = mono (sys a)" "disk o1 = disk (sys a)"
    using vault_lifecycle_mono(2) [OF u] vault_unlock_disk [OF u] by simp_all
  with u assms show ?thesis
    by (cases q)
      (auto simp: h_unlock_def lift_sys_def Let_def sleep_secs_def backoff_delay_value)
qed

lemma saturating_inc_of_nat:
  "Suc k < 2 ^ 32 \<Longrightarrow> saturating_inc (of_nat k) = of_nat (Suc k)"
proof -
  assume k: "Suc k < 2 ^ 32"
  have max: "unat (- 1 :: u32) = 2 ^ 32 - 1"
    by (simp add: unsigned_minus_1_eq_mask mask_eq_exp_minus_1)
  have "of_nat k \<noteq> (- 1 :: u32)"
  proof
    assume "of_nat k = (- 1 :: u32)"
    then have "unat (of_nat k :: u32) = unat (- 1 :: u32)" by simp
    with k show False unfolding max by (simp add: unsigned_of_nat take_bit_nat_eq_self)
  qed
  then show ?thesis by (simp add: saturating_inc_def add.commute)
qed

lemma unlock_attempts_fail:
  assumes "\<forall>ps \<in> set pss. \<exists>p. de_password x ps = Inr p"
    and "unlock_attempts x pss a = (qs, b)" "\<forall>q \<in> set qs. \<exists>e. q = Inl e"
    and "fail_count a = of_nat k" "k + length pss < 2 ^ 32"
  shows "fail_count b = of_nat (k + length pss) \<and> session b = session a \<and> disk (sys b) = disk (sys a) \<and>
    mono (sys b) = mono (sys a) + NANOS * (\<Sum>i<length pss. 2 ^ min (k + i) 4)"
  using assms
proof (induction pss arbitrary: a k qs)
  case Nil
  then show ?case by simp
next
  case (Cons ps pss)
  obtain q a1 where h: "h_unlock x ps a = (q, a1)" by (cases "h_unlock x ps a")
  obtain qs' where rest: "unlock_attempts x pss a1 = (qs', b)" and qs: "qs = q # qs'"
    using Cons.prems(2) h by (auto split: prod.splits)
  from Cons.prems(3) qs obtain e where q: "q = Inl e" by auto
  from Cons.prems(1) obtain p where p: "de_password x ps = Inr p" by auto
  have inc: "saturating_inc (fail_count a) = of_nat (Suc k)"
    using Cons.prems(4,5) saturating_inc_of_nat [of k] by simp
  have un: "unat (of_nat (Suc k) - 1 :: u32) = k"
    using Cons.prems(5) by (simp add: unsigned_of_nat take_bit_nat_eq_self)
  note f = h_unlock_fails [OF p h [unfolded q]]
  have "fail_count b = of_nat (Suc k + length pss) \<and> session b = session a1 \<and>
      disk (sys b) = disk (sys a1) \<and>
      mono (sys b) = mono (sys a1) + NANOS * (\<Sum>i<length pss. 2 ^ min (Suc k + i) 4)"
    by (rule Cons.IH [OF _ rest]) (use Cons.prems f inc qs in auto)
  moreover have "(\<Sum>i<length (ps # pss). 2 ^ min (k + i) 4 :: nat) =
      2 ^ min k 4 + (\<Sum>i<length pss. 2 ^ min (Suc k + i) 4)"
    by (simp only: length_Cons sum.lessThan_Suc_shift) simp
  moreover have "mono (sys a1) = mono (sys a) + NANOS * 2 ^ min k 4"
    using f unfolding inc un by simp
  ultimately show ?case using f by (simp add: distrib_left)
qed

text \<open>C29. Online guessing is slowed: the \<open>i\<close>-th consecutive failed unlock (from 0) costs 2^min(i, 4)
  seconds - 1, 2, 4, 8, 16, 16, ... - before its answer, and failures change neither the session nor
  the disk.\<close>

theorem unlock_backoff:
  assumes "\<forall>ps \<in> set pss. \<exists>p. de_password x ps = Inr p"
    and "unlock_attempts x pss a = (qs, b)" "\<forall>q \<in> set qs. \<exists>e. q = Inl e"
    and "fail_count a = 0" "length pss < 2 ^ 32"
  shows "unat (fail_count b) = length pss \<and> session b = session a \<and> disk (sys b) = disk (sys a) \<and>
    mono (sys b) = mono (sys a) + NANOS * (\<Sum>i<length pss. 2 ^ min i 4)"
  using unlock_attempts_fail [OF assms(1-3), of 0] assms(4,5)
  by (simp add: unsigned_of_nat take_bit_nat_eq_self)

theorem unlock_backoff_witness:
  "\<exists>qs b. unlock_attempts demo_rpc (replicate 6 (JObj [(lit ''password'', JStr [1])]))
      (Server_new demo_cfg demo_os) = (qs, b) \<and> mono (sys b) = 47 * NANOS"
proof -
  let ?ps = "JObj [(lit ''password'', JStr [1])]"
  have no: "vault_unlock demo_rpc demo_path pw (o0 :: os) = (Inl (ERead NOT_FOUND), o0)"
    if "reliable o0" "files (disk o0) (v_file demo_path) = None" for o0 pw
    using that by (simp add: vault_unlock_def fs_read_def bindE_def map_errE_def)
  have step: "\<exists>b. h_unlock demo_rpc ?ps a = (Inl (ERead NOT_FOUND), b) \<and> reliable (sys b) \<and>
      files (disk (sys b)) (v_file demo_path) = None \<and> cfg b = demo_cfg"
    if "reliable (sys a)" "files (disk (sys a)) (v_file demo_path) = None" "cfg a = demo_cfg" for a
    using that no [OF that(1,2)] demo_password_ps
    by (simp add: h_unlock_def lift_sys_def Let_def sleep_secs_def reliable_def)
  have all: "reliable (sys a) \<Longrightarrow> files (disk (sys a)) (v_file demo_path) = None \<Longrightarrow> cfg a = demo_cfg \<Longrightarrow>
      \<exists>b. unlock_attempts demo_rpc (replicate n ?ps) a = (replicate n (Inl (ERead NOT_FOUND)), b)" for n a
  proof (induction n arbitrary: a)
    case (Suc n)
    then obtain c where "h_unlock demo_rpc ?ps a = (Inl (ERead NOT_FOUND), c)" "reliable (sys c)"
      "files (disk (sys c)) (v_file demo_path) = None" "cfg c = demo_cfg"
      using step by blast
    with Suc.IH [of c] show ?case by auto
  qed simp
  obtain b where b: "unlock_attempts demo_rpc (replicate 6 ?ps) (Server_new demo_cfg demo_os) =
      (replicate 6 (Inl (ERead NOT_FOUND)), b)"
    using all [of "Server_new demo_cfg demo_os" 6] demo_reliable
    by (auto simp: Server_new_def demo_os_def)
  have "(\<Sum>i<6. 2 ^ min i 4 :: nat) = 47" by (simp add: eval_nat_numeral lessThan_Suc)
  moreover have "mono (sys b) = mono demo_os + NANOS * (\<Sum>i<length (replicate 6 ?ps). 2 ^ min i 4)"
    using unlock_backoff [OF _ b] demo_password_ps by (simp add: Server_new_def)
  ultimately show ?thesis using b by (simp add: demo_os_def)
qed

subsection \<open>Idle auto-lock\<close>

text \<open>The timer's loop: tick, then sleep the returned seconds.\<close>

fun idle_run :: "'x rpc_ext_scheme \<Rightarrow> nat \<Rightarrow> agent \<Rightarrow> agent" where
  "idle_run x 0 a = a"
| "idle_run x (Suc n) a =
     (case autolock_tick x a of (secs, a1) \<Rightarrow> idle_run x n (a1\<lparr>sys := sleep_secs secs (sys a1)\<rparr>))"

text \<open>C22. The idle lock is timely: left alone, an unlocked daemon's timer loop reaches a tick that locks
  it, never before the timeout and less than one second after it.\<close>

theorem autolock_timely:
  assumes "session a = Some s" "last_activity a \<le> mono (sys a)" "elapsed a < c_lock_timeout (cfg a)"
  shows "\<exists>n. let b = idle_run x n a in
    session b = Some s \<and> c_lock_timeout (cfg a) \<le> elapsed b \<and> elapsed b < c_lock_timeout (cfg a) + NANOS \<and>
    session (snd (autolock_tick x b)) = None"
  using assms
proof (induction "c_lock_timeout (cfg a) - elapsed a" arbitrary: a rule: less_induct)
  case less
  define T where "T = c_lock_timeout (cfg a)"
  define secs where "secs = max 1 ((T - elapsed a) div NANOS)"
  have tick: "autolock_tick x a = (secs, a)"
    using less.prems by (simp add: autolock_tick_def Let_def is_locked_def secs_def T_def)
  define b where "b = a\<lparr>sys := sleep_secs secs (sys a)\<rparr>"
  have run: "idle_run x (Suc n) a = idle_run x n b" for n by (simp add: tick b_def)
  have b: "session b = Some s" "cfg b = cfg a" "last_activity b \<le> mono (sys b)"
    "elapsed b = elapsed a + secs * NANOS"
    using less.prems by (simp_all add: b_def sleep_secs_def elapsed_def)
  have lt: "elapsed a < T" using less.prems(3) by (simp add: T_def)
  have pos: "0 < NANOS" by (simp add: NANOS_def)
  have bound: "elapsed b < T + NANOS"
  proof (cases "1 \<le> (T - elapsed a) div NANOS")
    case True
    then have "secs * NANOS \<le> T - elapsed a" by (simp add: secs_def max_def)
    with b(4) lt pos show ?thesis by linarith
  next
    case False
    then have "secs = 1" by (simp add: secs_def)
    with b(4) lt show ?thesis by simp
  qed
  show ?case
  proof (cases "elapsed b < T")
    case True
    have "1 \<le> secs" by (simp add: secs_def)
    then have "elapsed a < elapsed b" using b(4) pos by simp
    then have "c_lock_timeout (cfg b) - elapsed b < c_lock_timeout (cfg a) - elapsed a"
      using lt True b(2) by (simp add: T_def)
    from less.hyps [OF this] b True obtain n where "let c = idle_run x n b in
        session c = Some s \<and> T \<le> elapsed c \<and> elapsed c < T + NANOS \<and>
        session (snd (autolock_tick x c)) = None"
      by (auto simp: T_def)
    then show ?thesis unfolding T_def by (intro exI [of _ "Suc n"]) (simp only: run)
  next
    case False
    then have "session (snd (autolock_tick x b)) = None"
      using b lt
      by (simp add: autolock_tick_def Let_def is_locked_def T_def broadcast_state_def lock_def)
    moreover have "idle_run x (Suc 0) a = b" unfolding run by simp
    ultimately show ?thesis
      using False bound b(1) unfolding T_def
      by (intro exI [of _ "Suc 0"]) (simp only: Let_def, simp)
  qed
qed

theorem autolock_timely_witness:
  "\<exists>n. session (snd (autolock_tick demo_rpc (idle_run demo_rpc n (demo_agent demo_os)))) = None"
  using autolock_timely [of "demo_agent demo_os" "demo_session [1] [2]" demo_rpc]
  by (simp add: elapsed_def demo_cfg_def NANOS_def Let_def) blast

subsection \<open>What counts as activity\<close>

lemma acquire_quiet:
  "acquire x w quiet a =
     (case session a of Some s \<Rightarrow> Some (Inr s, a)
      | None \<Rightarrow> if w then None else Some (Inl ELocked, a))"
proof (cases "session a")
  case None
  then show ?thesis
    using UNLOCK_WAIT_pos
    by (auto simp: acquire_wait wait_for_unlock_def Let_def wait_loop_Nil wait_check_def
        is_locked_def broadcast_unlock_needed_def)
qed simp

definition same_activity :: "agent \<Rightarrow> agent \<Rightarrow> bool" where
  "same_activity a b \<longleftrightarrow> last_activity b = last_activity a"

lemma sessions_activity:
  "with_session x w quiet f a = Some (r, b) \<Longrightarrow> same_activity a b"
  "read_session x w quiet g a = Some (q, b) \<Longrightarrow> same_activity a b"
  by (auto simp: same_activity_def with_session_def read_session_def acquire_quiet lift_sys_def
      split: option.splits if_splits sum.splits prod.splits)

lemma same_activity_simps [simp]:
  "same_activity a a" "same_activity (a\<lparr>sys := o1\<rparr>) b = same_activity a b"
  "same_activity a (adopt x s b) = same_activity a b" "same_activity a (b\<lparr>sys := o1\<rparr>) = same_activity a b"
  "same_activity a (b\<lparr>session := v\<rparr>) = same_activity a b"
  "same_activity a (b\<lparr>fail_count := n\<rparr>) = same_activity a b"
  "same_activity a (broadcast_state x l b) = same_activity a b"
  by (simp_all add: same_activity_def adopt_def broadcast_state_def)

lemma secret_ops_activity:
  "secret_get x quiet ps a = Some (r, b) \<Longrightarrow> same_activity a b"
  "secret_set x quiet ps a = Some (r, b) \<Longrightarrow> same_activity a b"
  "secret_delete x quiet ps a = Some (r, b) \<Longrightarrow> same_activity a b"
  "secret_rename x quiet ps a = Some (r, b) \<Longrightarrow> same_activity a b"
  "secret_totp x quiet ps a = Some (r, b) \<Longrightarrow> same_activity a b"
  "secret_list x quiet ps a = Some (r, b) \<Longrightarrow> same_activity a b"
  by (auto simp: secret_get_def secret_set_def secret_delete_def secret_rename_def secret_totp_def
      secret_list_def Let_def acquire_quiet split: sum.splits if_splits option.splits
      intro: sessions_activity dest!: reply_SomeD)

lemma secret_generate_activity:
  assumes "secret_generate x quiet ps a = Some (r, b)"
  shows "same_activity a b"
proof -
  obtain v o1 n where "b = a\<lparr>sys := o1\<rparr> \<or>
      (\<exists>r0. with_session x True quiet (upsert_op n v) (a\<lparr>sys := o1\<rparr>) = Some (r0, b))"
    using assms
    by (auto simp: secret_generate_def Let_def split: prod.splits option.splits if_splits
        dest!: reply_SomeD)
  then show ?thesis
    using sessions_activity(1) [of x True "upsert_op n v" "a\<lparr>sys := o1\<rparr>" _ b] by auto
qed

lemma lifecycle_activity:
  "h_create x ps a = (r, b) \<Longrightarrow> same_activity a b"
  "h_unlock x ps a = (r, b) \<Longrightarrow> same_activity a b"
  "h_rotate x ps a = (r, b) \<Longrightarrow> same_activity a b"
  "do_lock x a = (r, b) \<Longrightarrow> same_activity a b"
  "unlock_cancel a = (r, b) \<Longrightarrow> same_activity a b"
  by (auto simp: h_create_def h_unlock_def h_rotate_def do_lock_def unlock_cancel_def lift_sys_def
      lock_def Let_def same_activity_def adopt_def broadcast_state_def
      split: sum.splits prod.splits)



subsection \<open>Reachable states\<close>

lemma step_client_rel:
  assumes "libs_ok x" "system_inv x c s" "daemon_step x s t"
    and "(j, q) \<in> set (clients (ag s))" "(j, q') \<in> set (clients (ag t))"
    and "next_client (ag s) \<notin> fst ` set (clients (ag s))"
  shows "\<exists>new. q' = q @ new \<and> view x (is_locked (ag s)) new = is_locked (ag t)"
proof -
  have dist: "distinct (map fst (clients (ag s)))" using assms(2) by (simp add: system_inv_def)
  have rel: ?thesis if "agent_rel x (ag s) (ag t)"
  proof -
    have l: "list_all2 (client_rel x (is_locked (ag s)) (is_locked (ag t))) (clients (ag s)) (clients (ag t))"
      using that by (simp add: agent_rel_def)
    from assms(5) obtain k where k: "k < length (clients (ag t))" "clients (ag t) ! k = (j, q')"
      by (auto simp: in_set_conv_nth)
    with l have r: "client_rel x (is_locked (ag s)) (is_locked (ag t)) (clients (ag s) ! k) (j, q')"
      and k': "k < length (clients (ag s))"
      by (auto simp: list_all2_conv_all_nth)
    have "clients (ag s) ! k = (j, q)"
    proof -
      obtain p where p: "clients (ag s) ! k = (j, p)"
        using r by (cases "clients (ag s) ! k") (simp add: client_rel_def)
      then have "(j, p) \<in> set (clients (ag s))" using k' nth_mem by metis
      with dist assms(4) p show ?thesis by (metis eq_key_imp_eq_value)
    qed
    with r show ?thesis by (auto simp: client_rel_def)
  qed
  have same: ?thesis if "q' = q" "is_locked (ag t) = is_locked (ag s)"
    using that by (intro exI [of _ "[]"]) simp
  have eq: "q' = q" if "(j, q') \<in> set (clients (ag s))"
    using dist assms(4) that by (metis eq_key_imp_eq_value)
  show ?thesis
    using assms(3)
  proof cases
    case (serve i req a')
    with handle_rel [OF assms(1) sched_ok_quiet serve(2)] show ?thesis by (intro rel) simp
  next
    case (park i req)
    with parked_state_rel [OF assms(1), of "ag s" req] show ?thesis by (intro rel) simp
  next
    case (resume i req a0 a')
    have "handle x quiet i req a0 = None"
      using assms(2) resume(2) by (auto simp: system_inv_def)
    from resumed_handle_rel [OF assms(1) this resume(3)] resume show ?thesis by (intro rel) simp
  next
    case idle_tick
    with autolock_tick_rel [OF assms(1), of "ag s"] show ?thesis by (intro rel) simp
  next
    case (clock u d)
    then show ?thesis using assms(5) by (intro same eq) (simp_all add: is_locked_def)
  next
    case connect
    have "j \<noteq> next_client (ag s)" using assms(4,6) by force
    with connect show ?thesis using assms(5)
      by (intro same eq) (auto simp: register_client_def Let_def is_locked_def)
  next
    case (disconnect i)
    then show ?thesis using assms(5)
      by (intro same eq) (auto simp: unregister_client_def Let_def is_locked_def)
  qed
qed





text \<open>When a parked request can go on.\<close>

definition resumable :: "agent \<Rightarrow> agent \<Rightarrow> bool" where
  "resumable a b \<longleftrightarrow>
     session b \<noteq> None \<or> unlock_gen b \<noteq> unlock_gen a \<or> mono (sys a) + UNLOCK_WAIT \<le> mono (sys b)"

lemma acquire_resumes:
  "acquire x w quiet a = None \<Longrightarrow> resumable a b \<Longrightarrow> acquire x w (wake_to b) a \<noteq> None"
  using acquire_quiet_None [of x w a] by (auto simp: acquire_wake resumable_def split: option.split)

lemma sessions_resume:
  "with_session x w quiet f a = None \<Longrightarrow> resumable a b \<Longrightarrow> with_session x w (wake_to b) f a \<noteq> None"
  "read_session x w quiet g a = None \<Longrightarrow> resumable a b \<Longrightarrow> read_session x w (wake_to b) g a \<noteq> None"
proof -
  have q: "acquire x w quiet a = None"
    if "with_session x w quiet f a = None \<or> read_session x w quiet g a = None"
    using that by (auto simp: with_session_def read_session_def split: option.splits sum.splits prod.splits)
  show "with_session x w quiet f a = None \<Longrightarrow> resumable a b \<Longrightarrow> with_session x w (wake_to b) f a \<noteq> None"
    "read_session x w quiet g a = None \<Longrightarrow> resumable a b \<Longrightarrow> read_session x w (wake_to b) g a \<noteq> None"
    using q acquire_resumes [of x w a b]
    by (auto simp: with_session_def [of x w "wake_to b"] read_session_def [of x w "wake_to b"]
        split: option.splits sum.splits prod.splits)
qed

lemma ops_resume:
  assumes "resumable a b"
  shows "secret_get x quiet ps a = None \<Longrightarrow> secret_get x (wake_to b) ps a \<noteq> None"
    and "secret_set x quiet ps a = None \<Longrightarrow> secret_set x (wake_to b) ps a \<noteq> None"
    and "secret_delete x quiet ps a = None \<Longrightarrow> secret_delete x (wake_to b) ps a \<noteq> None"
    and "secret_rename x quiet ps a = None \<Longrightarrow> secret_rename x (wake_to b) ps a \<noteq> None"
    and "secret_totp x quiet ps a = None \<Longrightarrow> secret_totp x (wake_to b) ps a \<noteq> None"
    and "secret_list x quiet ps a = None \<Longrightarrow> secret_list x (wake_to b) ps a \<noteq> None"
    and "secret_generate x quiet ps a = None \<Longrightarrow> secret_generate x (wake_to b) ps a \<noteq> None"
proof -
  note res = sessions_resume [OF _ assms] acquire_resumes [OF _ assms]
  show "secret_get x quiet ps a = None \<Longrightarrow> secret_get x (wake_to b) ps a \<noteq> None"
    "secret_set x quiet ps a = None \<Longrightarrow> secret_set x (wake_to b) ps a \<noteq> None"
    "secret_delete x quiet ps a = None \<Longrightarrow> secret_delete x (wake_to b) ps a \<noteq> None"
    "secret_rename x quiet ps a = None \<Longrightarrow> secret_rename x (wake_to b) ps a \<noteq> None"
    "secret_totp x quiet ps a = None \<Longrightarrow> secret_totp x (wake_to b) ps a \<noteq> None"
    by (auto simp: secret_get_def secret_set_def secret_delete_def secret_rename_def secret_totp_def
        simp del: not_None_eq split: sum.splits if_splits dest: res)
  show "secret_list x quiet ps a = None \<Longrightarrow> secret_list x (wake_to b) ps a \<noteq> None"
    by (auto simp: secret_list_def Let_def simp del: not_None_eq split: sum.splits option.splits dest: res(3))
  have gen: "with_session x True (wake_to b) f (a\<lparr>sys := (sys a)\<lparr>rng := g\<rparr>\<rparr>) \<noteq> None"
    if "with_session x True quiet f (a\<lparr>sys := (sys a)\<lparr>rng := g\<rparr>\<rparr>) = None" for f :: "unit session_fun" and g
    by (rule sessions_resume(1) [OF that]) (use assms in \<open>simp add: resumable_def\<close>)
  show "secret_generate x quiet ps a = None \<Longrightarrow> secret_generate x (wake_to b) ps a \<noteq> None"
    by (auto simp: secret_generate_def Let_def generate_password_def rand_bytes_def
        simp del: not_None_eq split: prod.splits option.splits if_splits dest: gen)
qed

lemma dispatch_resumes:
  assumes "resumable a b" "dispatch x quiet m ps a = None"
  shows "dispatch x (wake_to b) m ps a \<noteq> None"
proof -
  have "resumable (touch a) b" using assms(1) by (simp add: resumable_def)
  note res = ops_resume [OF this, of x ps]
  show ?thesis
    using assms(2) res unfolding dispatch_def Let_def by (simp split: if_splits add: no_touch_def)
qed



end
