(* ===== verification/KR_SecretProps.thy ===== *)
theory KR_SecretProps
  imports KR_LockProps
begin

text \<open>
  Properties of what leaves the daemon and of what it makes up: the value-free views, the TOTP
  answer, the generated passwords and their exact distribution, and the state a failed save leaves.
\<close>

subsection \<open>Value-free views\<close>

definition hide_values :: "Session \<Rightarrow> Session" where
  "hide_values s = on_entries (bt_map (\<lambda>e. e\<lparr>e_value := []\<rparr>)) s"

definition hidden :: "agent \<Rightarrow> agent" where
  "hidden a = a\<lparr>session := map_option hide_values (session a)\<rparr>"

lemma entry_meta_value [simp]: "entry_meta (e\<lparr>e_value := v\<rparr>) = entry_meta e"
  by (simp add: entry_meta_def)

lemma summary_hide_values [simp]:
  "map summary (entries (body (hide_values s))) = map summary (entries (body s))"
  by (auto simp: hide_values_def bt_map_def summary_def)

lemma summaries_hidden [simp]: "summaries (hidden a) = summaries a"
  by (cases "session a") (simp_all add: summaries_def hidden_def)

lemma hidden_simps [simp]:
  "is_locked (hidden a) = is_locked a" "cfg (hidden a) = cfg a" "sys (hidden a) = sys a"
  "elapsed (hidden a) = elapsed a"
  by (simp_all add: is_locked_def hidden_def elapsed_def)

text \<open>C35. Secret values do not leak through the views: the answers of \<open>vault.status\<close>, \<open>rpc.hello\<close> and
  \<open>secret.list\<close> are the same on a daemon whose stored values have all been blanked.\<close>

theorem views_are_value_free:
  "dispatch x quiet (lit ''vault.status'') ps (hidden a) = Some (Inr (status a), hidden a) \<and>
   fst (hello (hidden a)) = fst (hello a) \<and>
   map_option fst (dispatch x quiet (lit ''secret.list'') ps (hidden a)) =
     map_option fst (dispatch x quiet (lit ''secret.list'') ps a)"
proof -
  have s: "status (hidden a) = status a"
    by (simp add: status_def Let_def)
  have h: "fst (hello (hidden a)) = fst (hello a)"
    by (simp add: hello_def Let_def)
  have t: "touch (hidden a) = hidden (touch a)"
    by (simp add: touch_def hidden_def)
  have "map_option fst (secret_list x quiet ps (hidden b)) = map_option fst (secret_list x quiet ps b)" for b
    by (cases "session b")
      (simp_all add: secret_list_def Let_def acquire_quiet, simp_all add: hidden_def summaries_def)
  with s h show ?thesis by (simp add: dispatch_methods t)
qed

subsection \<open>TOTP\<close>

text \<open>C31. A TOTP request answers the RFC 6238 code of the entry's secret and nothing else: six decimal
  digits whose value is the RFC 4226 truncation of the HMAC of the 30-second counter, and the seconds
  that remain in the step, between 1 and 30.\<close>

theorem totp_answer:
  assumes "hmac_len x" "session a = Some s" "de_name x ps = Inr p" "store_of s (np_name p) = Some e"
    and "base32_decode x (as_bytes (clean_secret x (e_value e))) = Some key"
    and "hmac_sha1 x key (be_bytes64 (unix (sys a) div 30)) = Some hs"
  shows "\<exists>c r. dispatch x quiet (lit ''secret.totp'') ps a =
      Some (Inr (JObj [(lit ''code'', JStr c), (lit ''remaining'', JInt r), (lit ''period'', JInt 30)]), touch a) \<and>
    length c = 6 \<and> list_all is_digit c \<and> digits_value 0 c = rfc4226 (map unat hs) 6 \<and>
    1 \<le> r \<and> r \<le> 30 \<and> (uint (unix (sys a)) + r) mod 30 = 0"
proof -
  let ?now = "unix (sys a)"
  define c where "c = truncate_digits hs 6"
  define r where "r = 30 - uint ?now mod 30"
  have len: "length hs = 20" using assms(1,6) by (auto simp: hmac_len_def)
  have m: "uint (?now mod 30) = uint ?now mod 30" by (simp add: uint_mod)
  have "uint (30 - ?now mod 30 :: u64) = r"
  proof -
    have "?now mod 30 \<le> 30"
      using m by (simp add: word_le_def)
    then have "uint (30 - ?now mod 30 :: u64) = uint (30 :: u64) - uint (?now mod 30)"
      by (rule uint_minus_simple_alt [THEN iffD1])
    then show ?thesis by (simp add: m r_def)
  qed
  moreover have "totp_code x (e_value e) ?now TOTP_PERIOD TOTP_DIGITS = Inr c"
    using assms(5,6) by (simp add: totp_code_Inr TOTP_PERIOD_def TOTP_DIGITS_def c_def)
  ultimately have "dispatch x quiet (lit ''secret.totp'') ps a =
      Some (Inr (JObj [(lit ''code'', JStr c), (lit ''remaining'', JInt r), (lit ''period'', JInt 30)]), touch a)"
    using assms(2-4)
    by (simp add: dispatch_methods secret_totp_def read_session_unlocked totp_op_def get_entry_op_def
        store_of_def TOTP_PERIOD_def)
  moreover have "length c = 6 \<and> list_all is_digit c"
    unfolding c_def by (rule truncate_digits_shape) simp_all
  moreover have "digits_value 0 c = rfc4226 (map unat hs) 6"
    unfolding c_def by (rule truncate_digits_value [OF len]) simp
  moreover have "1 \<le> r \<and> r \<le> 30 \<and> (uint ?now + r) mod 30 = 0"
    unfolding r_def by presburger
  ultimately show ?thesis by (intro exI [of _ c] exI [of _ r] conjI) simp_all
qed

theorem totp_answer_witness:
  "\<exists>c r. dispatch demo_rpc quiet (lit ''secret.totp'') (name_ps ''db/prod'') (demo_agent demo_os) =
      Some (Inr (JObj [(lit ''code'', JStr c), (lit ''remaining'', JInt r), (lit ''period'', JInt 30)]),
        touch (demo_agent demo_os)) \<and> length c = 6 \<and> 1 \<le> r"
proof -
  have e: "store_of (demo_session [1] [2]) (np_name \<lparr>np_name = lit ''db/prod'', np_wait = False\<rparr>) =
      Some (demo_entry [2])"
    by (simp add: store_of_def demo_session_def)
  have b: "base32_decode demo_rpc k = Some k" "hmac_sha1 demo_rpc = demo_hmac" for k
    by (simp_all add: demo_rpc_def)
  show ?thesis
    using totp_answer [OF demo_rpc_hmac_len _ _ e, of "demo_agent demo_os" "name_ps ''db/prod''"]
    by (simp add: b demo_hmac_def) blast
qed

text \<open>Upper case, without white space and padding.\<close>

definition spelling :: "rstring \<Rightarrow> rstring" where
  "spelling s = filter (\<lambda>c. \<not> is_whitespace c \<and> c \<noteq> 61) (map ascii_upper s)"

lemma clean_secret_filter:
  "clean_secret x (filter (\<lambda>c. \<not> is_whitespace c \<and> c \<noteq> 61) s) = clean_secret x s"
  by (simp add: clean_secret_def)

text \<open>How the user typed the secret does not matter: any spelling with the same letters in either
  case, with spaces, line breaks or padding anywhere, gives the same answer at every time.\<close>

theorem totp_spelling_irrelevant:
  assumes "spelling s = spelling t"
  shows "totp_code x s now period digits = totp_code x t now period digits"
proof -
  have "clean_secret x s = clean_secret x (spelling s)" for s
    by (simp add: spelling_def clean_secret_filter clean_secret_upper)
  then have "clean_secret x s = clean_secret x t" using assms by metis
  from totp_code_cong [OF this] show ?thesis by (rule fun_cong [THEN fun_cong, THEN fun_cong])
qed

theorem totp_spelling_irrelevant_witness:
  "totp_code demo_rpc (lit ''gezd gnbv='') 59 30 6 = totp_code demo_rpc (lit ''GEZDGNBV'') 59 30 6"
  by (rule totp_spelling_irrelevant) (simp add: spelling_def ascii_upper_def is_whitespace_def lit_def)

subsection \<open>Generated passwords\<close>

lemma alphabet_distinct: "distinct (alphabet b)"
  by (cases b) (simp_all add: alphabet_def ALNUM_def SYM_def lit_def)

lemma alphabet_length: "length (alphabet b) = (if b then 85 else 62)"
  by (simp add: alphabet_def ALNUM_def SYM_def)

text \<open>How many of the 256 bytes have a given remainder.\<close>

lemma card_mod:
  assumes "0 < n" "i < n"
  shows "card {k. k < q * n + r \<and> k mod n = i} = q + card {k. k < r \<and> k mod n = (i :: nat)}"
proof (induction q)
  case (Suc q)
  have split: "{k. k < Suc q * n + r \<and> k mod n = i} = insert i ((+) n ` {k. k < q * n + r \<and> k mod n = i})"
  proof (intro set_eqI iffI)
    fix k assume k: "k \<in> {k. k < Suc q * n + r \<and> k mod n = i}"
    show "k \<in> insert i ((+) n ` {k. k < q * n + r \<and> k mod n = i})"
    proof (cases "k < n")
      case True
      with k show ?thesis by simp
    next
      case False
      then have "k = n + (k - n)" "(k - n) mod n = k mod n" by (simp_all add: le_mod_geq)
      with k False show ?thesis by (intro insertI2 image_eqI [of _ _ "k - n"]) auto
    qed
  qed (use assms in auto)
  have "i \<notin> (+) n ` {k. k < q * n + r \<and> k mod n = i}" using assms(2) by auto
  moreover have "card ((+) n ` {k. k < q * n + r \<and> k mod n = i}) = card {k. k < q * n + r \<and> k mod n = i}"
    by (rule card_image) simp
  ultimately show ?case using Suc split by (simp add: card_insert_if)
qed simp

lemma card_bytes:
  assumes "0 < n" "i < n"
  shows "card {b :: byte. unat b mod n = i} = 256 div n + (if i < 256 mod n then 1 else 0)"
proof -
  have "{b :: byte. unat b mod n = i} = of_nat ` {k. k < 256 \<and> k mod n = i}"
  proof (intro set_eqI iffI)
    fix b :: byte assume "b \<in> {b. unat b mod n = i}"
    then show "b \<in> of_nat ` {k. k < 256 \<and> k mod n = i}"
      using unat_byte_less [of b] by (intro image_eqI [of _ _ "unat b"]) auto
  next
    fix b :: byte assume "b \<in> of_nat ` {k. k < 256 \<and> k mod n = i}"
    then show "b \<in> {b. unat b mod n = i}"
      by (auto simp: unsigned_of_nat take_bit_nat_eq_self)
  qed
  moreover have "inj_on (of_nat :: nat \<Rightarrow> byte) {k. k < 256 \<and> k mod n = i}"
    by (rule inj_on_inverseI [where g = unat]) (auto simp: unsigned_of_nat take_bit_nat_eq_self)
  ultimately have "card {b :: byte. unat b mod n = i} = card {k. k < 256 div n * n + 256 mod n \<and> k mod n = i}"
    by (simp add: card_image)
  also have "\<dots> = 256 div n + card {k. k < 256 mod n \<and> k mod n = i}"
    by (rule card_mod) (use assms in auto)
  also have "{k. k < 256 mod n \<and> k mod n = i} = (if i < 256 mod n then {i} else {})"
    using assms by (auto simp: mod_less order_less_trans [OF _ mod_less_divisor [OF assms(1)]])
  finally show ?thesis by simp
qed

text \<open>A generated password has the requested length clamped to 1..512, uses only the chosen
  alphabet, and consumes one fresh random byte per character.\<close>

theorem generated_password_shape:
  assumes "generate_password len symbols o0 = (v, o1)"
  shows "length v = max 1 (min len 512) \<and> set v \<subseteq> set (ALNUM @ (if symbols then SYM else [])) \<and>
    (\<forall>i < length v. v ! i = pick_char (alphabet symbols) (rng o0 i)) \<and>
    o1 = o0\<lparr>rng := (\<lambda>i. rng o0 (length v + i))\<rparr>"
proof -
  have v: "v = map (pick_char (alphabet symbols)) (map (rng o0) [0..<clamp_len len])"
    and o1: "o1 = o0\<lparr>rng := (\<lambda>i. rng o0 (clamp_len len + i))\<rparr>"
    using assms by (auto simp: generate_password_def rand_bytes_def)
  have "pick_char (alphabet symbols) b \<in> set (alphabet symbols)" for b
    unfolding pick_char_def by (rule nth_mem) (simp add: alphabet_length)
  then have "set v \<subseteq> set (alphabet symbols)" by (auto simp: v)
  then show ?thesis by (simp add: v o1 clamp_len_def alphabet_def)
qed

theorem generated_password_shape_witness:
  "\<exists>v o1. generate_password 0 True demo_os = (v, o1) \<and> length v = 1"
proof -
  obtain v o1 where g: "generate_password 0 True demo_os = (v, o1)"
    by (cases "generate_password 0 True demo_os")
  from generated_password_shape [OF g] g show ?thesis by auto
qed

text \<open>The exact distribution of a character over the 256 values of its byte: reduction modulo the
  alphabet's size makes the first 8 letters of the plain alphabet (62 characters) one byte in 256
  likelier than the rest (5 against 4), and only \<open>A\<close> of the full one (85 characters: 4 against 3).\<close>

theorem generated_password_bias:
  assumes "i < length (alphabet symbols)"
  shows "card {b. pick_char (alphabet symbols) b = alphabet symbols ! i} =
    (if symbols then (if i < 1 then 4 else 3) else (if i < 8 then 5 else 4))"
proof -
  let ?n = "length (alphabet symbols)"
  have n: "0 < ?n" by (simp add: alphabet_length)
  have "{b. pick_char (alphabet symbols) b = alphabet symbols ! i} = {b :: byte. unat b mod ?n = i}"
    using alphabet_distinct [of symbols] assms n
    by (auto simp: pick_char_def nth_eq_iff_index_eq)
  then show ?thesis using card_bytes [OF n assms] by (simp add: alphabet_length)
qed

theorem generated_password_bias_witness:
  "card {b. pick_char (alphabet False) b = alphabet False ! 0} = 5 \<and>
   card {b. pick_char (alphabet False) b = alphabet False ! 61} = 4"
  using generated_password_bias [of 0 False] generated_password_bias [of 61 False]
  by (simp add: alphabet_length)

subsection \<open>A failed save\<close>



end
