(* ===== verification/KR_MainProps.thy ===== *)
theory KR_MainProps
  imports KR_Main KR_SecretProps
begin

text \<open>
  Properties of \<open>main.rs\<close>: the configuration the editor passes, the singleton daemon on a socket,
  and the end of the daemon with its last client, including the interleavings where it ends early.
\<close>

subsection \<open>Configuration\<close>

lemma unat_bound: "unat (w :: 'a::len word) \<le> 2 ^ LENGTH('a) - 1"
proof -
  have "unat w < 2 ^ LENGTH('a)" by (rule unsigned_less)
  then show ?thesis by linarith
qed

lemma env_show:
  "env k = Some (show_nat (unat (a :: u32))) \<Longrightarrow> env_u32 env k d = a"
  "env k = Some (show_nat (unat (b :: u64))) \<Longrightarrow> env_u64 env k e = b"
  using unat_bound [of a] unat_bound [of b]
  by (simp_all add: env_u32_def env_u64_def parse_show_nat)

text \<open>The configuration survives the environment: values written in decimal by the process that
  starts the daemon are the values it runs with, for every 32-bit KDF parameter and 64-bit timeout.\<close>

theorem config_roundtrip:
  assumes "env (lit ''LVIM_KEYRING_VAULT'') = Some path"
    and "env (lit ''LVIM_KEYRING_KDF_M'') = Some (show_nat (unat (m :: u32)))"
    and "env (lit ''LVIM_KEYRING_KDF_T'') = Some (show_nat (unat (t :: u32)))"
    and "env (lit ''LVIM_KEYRING_KDF_P'') = Some (show_nat (unat (p :: u32)))"
    and "env (lit ''LVIM_KEYRING_LOCK_TIMEOUT'') = Some (show_nat (unat (secs :: u64)))"
    and "env (lit ''LVIM_KEYRING_LINGER'') = Some (show_nat (unat (linger :: u64)))"
  shows "config_from_env env =
    \<lparr>c_vault_path = mk_vpath path, c_kdf = \<lparr>m_cost = m, t_cost = t, p_cost = p\<rparr>,
     c_lock_timeout = unat secs * NANOS, c_linger = unat linger * NANOS,
     c_persist = (env (lit ''LVIM_KEYRING_PERSIST'') = Some (lit ''1''))\<rparr>"
  using assms by (simp add: config_from_env_def env_show)

theorem config_roundtrip_witness:
  "c_lock_timeout (config_from_env ((\<lambda>_. Some (show_nat (unat (60 :: u64))))
     (lit ''LVIM_KEYRING_VAULT'' \<mapsto> lit ''/v'', lit ''LVIM_KEYRING_KDF_M'' \<mapsto> show_nat (unat (8 :: u32)),
      lit ''LVIM_KEYRING_KDF_T'' \<mapsto> show_nat (unat (1 :: u32)),
      lit ''LVIM_KEYRING_KDF_P'' \<mapsto> show_nat (unat (1 :: u32))))) = 60 * NANOS"
  by (subst config_roundtrip [where path = "lit ''/v''" and m = 8 and t = 1 and p = 1 and secs = 60
        and linger = 60]) simp_all

subsection \<open>One daemon per socket\<close>

text \<open>C18. However many daemons are started on one socket path, however they interleave, fail or crash, at
  most one serves at a time, and the socket file that exists while it serves is its own: no later
  start unlinks or replaces it.\<close>

theorem singleton_daemon:
  assumes "reach host_start host_step h" "procs h p = Some Serving" "procs h q = Some Serving"
  shows "q = p \<and> sock_by h = Some p \<and> flock_by h = Some p"
proof -
  have inv: "host_inv h" using assms(1) by (rule hosts.reach_inv)
  from host_inv_unique [OF inv serving_owns [OF assms(2)] serving_owns [OF assms(3)]]
  show ?thesis using inv assms(2) serving_owns [OF assms(2)] by (auto simp: host_inv_def)
qed

definition demo_host :: host where
  "demo_host = \<lparr>procs = (\<lambda>_. None), flock_by = None, sock_by = None\<rparr>"

text \<open>Calls of several processes in turn.\<close>

lemma start_progress:
  assumes "procs h p = Some ph" "rank Serving \<le> rank ph + n" "n \<le> length (filter (\<lambda>c. fst c = p) cs)"
  shows "\<exists>ph'. procs (fold (\<lambda>(q, ok). serve_call q ok) cs h) p = Some ph' \<and> Serving \<le> ph'"
  using assms
proof (induction cs arbitrary: h ph n)
  case Nil
  then show ?case by (auto simp: less_eq_phase_def)
next
  case (Cons c cs)
  obtain q ok where c: "c = (q, ok)" by (cases c)
  obtain ph' where ph': "procs (serve_call q ok h) p = Some ph'"
    and le: "rank ph \<le> rank ph'" "q = p \<and> ph < Serving \<longrightarrow> rank ph < rank ph'"
    using serve_call_moves [OF Cons.prems(1), of q ok] by (auto simp: less_phase_def less_eq_phase_def)
  have "rank Serving \<le> rank ph' + (if q = p then n - 1 else n)"
    using Cons.prems(2) le by (auto simp: less_phase_def)
  moreover have "(if q = p then n - 1 else n) \<le> length (filter (\<lambda>c. fst c = p) cs)"
    using Cons.prems(3) c by auto
  ultimately show ?case using Cons.IH [OF ph'] c by simp
qed

text \<open>Process \<open>p\<close> is spawned and makes \<open>n\<close> successful calls.\<close>

fun run_calls :: "nat \<Rightarrow> nat \<Rightarrow> host \<Rightarrow> host" where
  "run_calls p 0 h = h"
| "run_calls p (Suc n) h = run_calls p n (serve_call p True h)"

lemma reach_calls: "reach host_start host_step h \<Longrightarrow> reach host_start host_step (run_calls p n h)"
  by (induction n arbitrary: h) (auto intro: reach_step host_step.call)

lemma reach_spawn:
  "reach host_start host_step h \<Longrightarrow> procs h p = None \<Longrightarrow> reach host_start host_step (set_phase p Starting h)"
  by (rule reach_step [where s = h]) (simp_all add: host_step.spawn)

lemma demo_host_start: "reach host_start host_step demo_host"
  by (rule reach_init) (simp add: host_start_def demo_host_def)

lemmas run_simps = eval_nat_numeral serve_call_def Let_def demo_host_def proc_exit_def

theorem singleton_daemon_witness:
  "\<exists>h. reach host_start host_step h \<and> procs h 1 = Some Serving \<and> sock_by h = Some 1"
proof -
  let ?h = "run_calls 1 5 (set_phase 1 Starting demo_host)"
  have r: "reach host_start host_step ?h"
    by (intro reach_calls reach_spawn demo_host_start) (simp add: demo_host_def)
  have s: "procs ?h 1 = Some Serving" by (simp add: run_simps)
  from singleton_daemon [OF r s s] r s show ?thesis by blast
qed



text \<open>A second daemon defers to a live owner: while another process owns the lock, a starting process
  exits with code 0 and changes nothing - not the lock, not the socket.\<close>

theorem second_daemon_defers:
  assumes "reach host_start host_step h" "owns h q" "procs h p = Some LockOpen"
  shows "serve_call p ok h = h\<lparr>procs := (procs h)(p \<mapsto> Exited 0)\<rparr>"
proof -
  have inv: "host_inv h" using assms(1) by (rule hosts.reach_inv)
  then have f: "flock_by h = Some q" using assms(2) by (simp add: host_inv_def)
  have "q \<noteq> p" using assms(2,3) by (auto simp: owns_def)
  with f assms(3) show ?thesis by (simp add: serve_call_def proc_exit_def set_phase_def)
qed

theorem second_daemon_defers_witness:
  "\<exists>h. reach host_start host_step h \<and> procs h 1 = Some Serving \<and> procs h 2 = Some LockOpen \<and>
     serve_call 2 True h = h\<lparr>procs := (procs h)(2 \<mapsto> Exited 0)\<rparr>"
proof -
  let ?h1 = "run_calls 1 5 (set_phase 1 Starting demo_host)"
  let ?h = "run_calls 2 2 (set_phase 2 Starting ?h1)"
  have r: "reach host_start host_step ?h"
    by (intro reach_calls reach_spawn demo_host_start) (simp_all add: run_simps)
  have s: "procs ?h 1 = Some Serving" "procs ?h 2 = Some LockOpen" by (simp_all add: run_simps)
  then have "owns ?h 1" by (simp add: serving_owns)
  from second_daemon_defers [OF r this s(2), of True] r s show ?thesis by blast
qed

text \<open>The window at shutdown: a daemon that has unlinked its socket still owns the lock until it ends,
  and a daemon started in that window defers to it; both end, and nobody serves the client that
  started the second one.\<close>

theorem shutdown_window:
  "\<exists>h. reach host_start host_step h \<and> procs h 1 = Some Unlinked \<and> sock_by h = None \<and>
     procs h 2 = Some (Exited 0) \<and> procs (serve_call 1 True h) 1 = Some (Exited 0)"
proof -
  let ?h1 = "run_calls 1 6 (set_phase 1 Starting demo_host)"
  let ?h = "run_calls 2 3 (set_phase 2 Starting ?h1)"
  have "reach host_start host_step ?h"
    by (intro reach_calls reach_spawn demo_host_start) (simp_all add: run_simps)
  moreover have "procs ?h 1 = Some Unlinked \<and> sock_by ?h = None \<and> procs ?h 2 = Some (Exited 0)"
    by (simp add: run_simps)
  moreover have "procs (serve_call 1 True ?h) 1 = Some (Exited 0)" by (simp add: run_simps)
  ultimately show ?thesis by blast
qed

subsection \<open>The end of the daemon\<close>


definition demo_life :: life where
  "demo_life = \<lparr>daemon = Server_new demo_cfg demo_os, ending = [], timers = [], sock_file = True, exited = False\<rparr>"

lemma demo_life_start: "life_start demo_cfg demo_life"
  by (auto simp: life_start_def demo_life_def)


text \<open>C39. The count is taken before the writer has drained: with no linger time, a client that connects
  while the previous one's connection is still closing is cut off - the daemon exits although that
  client is connected.\<close>

theorem stale_count_exits_with_client:
  "\<exists>l. reach (life_start demo_cfg) (life_step x) l \<and> \<not> exited l \<and> client_count (daemon l) = 1 \<and>
     (\<exists>m. life_step x l m \<and> m = close_end True 0 l \<and> exited m)"
proof -
  let ?a = "accept_conn (Some 1000) 1000 demo_life"
  let ?b = "close_begin 1 ?a"
  let ?l = "accept_conn (Some 1000) 1000 ?b"
  have "reach (life_start demo_cfg) (life_step x) demo_life" by (rule reach_init) (rule demo_life_start)
  then have "reach (life_start demo_cfg) (life_step x) ?a"
    by (rule reach_step) (rule life_connect, simp add: demo_life_def)
  then have "reach (life_start demo_cfg) (life_step x) ?b"
    by (rule reach_step)
      (rule life_close, simp_all add: demo_life_def register_client_def accept_conn_def peer_allowed_def Server_new_def Let_def)
  then have r: "reach (life_start demo_cfg) (life_step x) ?l"
    by (rule reach_step) (rule life_connect, simp add: demo_life_def)
  have e: "\<not> exited ?l" "ending ?l = [0]" "client_count (daemon ?l) = 1" "cfg (daemon ?l) = demo_cfg"
    by (simp_all add: demo_life_def register_client_def accept_conn_def peer_allowed_def close_begin_def unregister_client_def
        Server_new_def Let_def client_count_def)
  moreover have "exited (close_end True 0 ?l)"
    using e by (simp add: close_end_def Let_def after_close_def demo_cfg_def)
  ultimately show ?thesis using r life_drained [of ?l 0 x] by auto
qed

definition linger_cfg :: Config where
  "linger_cfg = demo_cfg\<lparr>c_linger := 10 * NANOS\<rparr>"

text \<open>A linger timer is not cancelled by a new client: with a linger time of 10 seconds, a client that
  disconnects 9 seconds after the previous one is followed by an exit one second later, by the first
  one's timer.\<close>

theorem linger_cut_short:
  "\<exists>l m. reach (life_start linger_cfg) (life_step x) l \<and> client_count (daemon l) = 1 \<and>
     c_linger (cfg (daemon l)) = 10 * NANOS \<and>
     life_step x (close_end True 0 (close_begin 2 l)) m \<and>
     m = (close_end True 0 (close_begin 2 l))\<lparr>daemon := (daemon (close_end True 0 (close_begin 2 l)))
           \<lparr>sys := sleep_secs 1 (sys (daemon (close_end True 0 (close_begin 2 l))))\<rparr>\<rparr> \<and>
     life_step x m (linger_fire True (10 * NANOS) m) \<and> exited (linger_fire True (10 * NANOS) m)"
proof -
  let ?s = "\<lparr>daemon = Server_new linger_cfg demo_os, ending = [], timers = [], sock_file = True, exited = False\<rparr>"
  let ?a = "accept_conn (Some 1000) 1000 ?s"
  let ?b = "close_begin 1 ?a"
  let ?c = "close_end True 0 ?b"
  let ?d = "accept_conn (Some 1000) 1000 ?c"
  let ?l = "?d\<lparr>daemon := (daemon ?d)\<lparr>sys := sleep_secs 9 (sys (daemon ?d))\<rparr>\<rparr>"
  let ?e = "close_end True 0 (close_begin 2 ?l)"
  let ?m = "?e\<lparr>daemon := (daemon ?e)\<lparr>sys := sleep_secs 1 (sys (daemon ?e))\<rparr>\<rparr>"
  note defs = accept_conn_def peer_allowed_def register_client_def close_begin_def unregister_client_def Server_new_def Let_def
    client_count_def close_end_def after_close_def linger_cfg_def NANOS_def demo_os_def
    sleep_secs_def linger_fire_def
  have "life_start linger_cfg ?s" by (auto simp: life_start_def)
  then have "reach (life_start linger_cfg) (life_step x) ?s" by (rule reach_init)
  then have "reach (life_start linger_cfg) (life_step x) ?a"
    by (rule reach_step) (rule life_connect, simp)
  then have "reach (life_start linger_cfg) (life_step x) ?b"
    by (rule reach_step) (rule life_close, simp_all add: defs)
  then have "reach (life_start linger_cfg) (life_step x) ?c"
    by (rule reach_step) (rule life_drained, simp_all add: defs)
  then have "reach (life_start linger_cfg) (life_step x) ?d"
    by (rule reach_step) (rule life_connect, simp add: defs demo_cfg_def)
  then have r: "reach (life_start linger_cfg) (life_step x) ?l"
    by (rule reach_step) (rule life_clock, simp add: defs demo_cfg_def)
  have "client_count (daemon ?l) = 1" "c_linger (cfg (daemon ?l)) = 10 * NANOS"
    by (simp_all add: defs demo_cfg_def)
  moreover have "life_step x ?e ?m" by (rule life_clock) (simp add: defs demo_cfg_def)
  moreover have "life_step x ?m (linger_fire True (10 * NANOS) ?m)"
    by (rule life_linger) (simp_all add: defs demo_cfg_def)
  moreover have "exited (linger_fire True (10 * NANOS) ?m)" by (simp add: defs demo_cfg_def)
  ultimately show ?thesis using r by blast
qed

end
