(* ===== verification/KR_Credential.thy ===== *)
theory KR_Credential
  imports KR_Main
begin

text \<open>
  \<open>native/src/credential.rs\<close>, the \<open>git-credential\<close> helper: git's attributes, one request and its answer
  over the agent's socket, the lookup of a host's credential, and the three operations. The socket is
  the parameter \<open>dial\<close>; \<open>agent_dial\<close> is the daemon of \<open>KR_Main\<close> behind it.
\<close>

subsection \<open>Attributes\<close>

definition NL :: rchar where "NL = 10"
definition EQUALS :: rchar where "EQUALS = 61"

definition split_once :: "rchar \<Rightarrow> rstring \<Rightarrow> (rstring \<times> rstring) option" where
  "split_once c s =
     (case dropWhile (\<lambda>d. d \<noteq> c) s of [] \<Rightarrow> None | _ # r \<Rightarrow> Some (takeWhile (\<lambda>d. d \<noteq> c) s, r))"

type_synonym attrs = "rstring \<rightharpoonup> rstring"

text \<open>The items of \<open>lines()\<close>: a line, or \<open>None\<close> for a read error or bytes that are not UTF-8.\<close>

fun attr_loop :: "rstring option list \<Rightarrow> attrs \<Rightarrow> attrs" where
  "attr_loop [] m = m"
| "attr_loop (None # ls) m = m"
| "attr_loop (Some l # ls) m =
     (if l = [] then m
      else attr_loop ls (case split_once EQUALS l of Some (k, v) \<Rightarrow> m(k \<mapsto> v) | None \<Rightarrow> m))"

definition read_attrs :: "rstring option list \<Rightarrow> attrs" where
  "read_attrs ls = attr_loop ls Map.empty"

subsection \<open>The socket\<close>

definition socket_path :: "environ \<Rightarrow> rstring option" where
  "socket_path env =
     (case Option.bind (env (lit ''LVIM_KEYRING_SOCK'')) nonempty of
        Some s \<Rightarrow> Some s
      | None \<Rightarrow> map_option (\<lambda>runtime. runtime @ lit ''/lvim-keyring/agent.sock'')
                  (Option.bind (env (lit ''XDG_RUNTIME_DIR'')) nonempty))"

text \<open>
  What can be read from a connection: bytes, and then the end of the stream, an error, or nothing
  more, ever. A read of the last kind does not return: \<open>Blocks\<close>.
\<close>

datatype tail = Eof | ReadError | Silent

datatype 'a blocking = Returns 'a | Blocks

text \<open>\<open>read_line\<close>: the count of bytes read, the line without its end, and what is left to read.\<close>

fun read_line :: "tail \<Rightarrow> nat \<Rightarrow> byte list \<Rightarrow> byte list \<Rightarrow> (nat \<times> byte list \<times> byte list) option blocking" where
  "read_line e n buf [] =
     (case e of Eof \<Rightarrow> Returns (Some (n, buf, [])) | ReadError \<Rightarrow> Returns None | Silent \<Rightarrow> Blocks)"
| "read_line e n buf (b # bs) =
     (if b = 10 then Returns (Some (n + 1, buf, bs)) else read_line e (n + 1) (buf @ [b]) bs)"

lemma read_line_rest:
  "read_line e n buf bs = Returns (Some (k, l, r)) \<Longrightarrow> n \<le> k \<and> length r + k \<le> n + length bs"
  by (induction e n buf bs rule: read_line.induct) (fastforce split: tail.splits if_splits)+

text \<open>The loop of \<open>rpc\<close>: the first message whose id is 1; others are skipped.\<close>

function rpc_loop :: "'x rpc_ext_scheme \<Rightarrow> tail \<Rightarrow> byte list \<Rightarrow> json option blocking" where
  "rpc_loop x e bs =
     (case read_line e 0 [] bs of
        Blocks \<Rightarrow> Blocks
      | Returns None \<Rightarrow> Returns None
      | Returns (Some (n, buf, rest)) \<Rightarrow>
          if n = 0 then Returns None
          else case json_parse x (trim (from_utf8_lossy buf)) of
            None \<Rightarrow> Returns None
          | Some msg \<Rightarrow>
              if Option.bind (json_get (lit ''id'') msg) as_u64 \<noteq> Some 1 then rpc_loop x e rest
              else Returns (Some msg))"
  by pat_completeness auto

termination
  by (relation "measure (\<lambda>(x, e, bs). length bs)") (auto dest!: read_line_rest)

declare rpc_loop.simps [simp del]

text \<open>
  Connecting to a path and writing these bytes: \<open>None\<close> if the connection or a write fails. The
  state \<open>'w\<close> is that of everything behind the socket.
\<close>

type_synonym 'w dial = "rstring \<Rightarrow> byte list \<Rightarrow> 'w \<Rightarrow> (byte list \<times> tail) option \<times> 'w"

definition request_line :: "'x rpc_ext_scheme \<Rightarrow> rstring \<Rightarrow> json \<Rightarrow> rstring" where
  "request_line x m ps = json_text x (request_value 1 m ps)"

definition rpc ::
  "'x rpc_ext_scheme \<Rightarrow> environ \<Rightarrow> 'w dial \<Rightarrow> rstring \<Rightarrow> json \<Rightarrow> 'w \<Rightarrow> json option blocking \<times> 'w" where
  "rpc x env dial m ps w =
     (case socket_path env of
        None \<Rightarrow> (Returns None, w)
      | Some path \<Rightarrow>
          (case dial path (as_bytes (request_line x m ps) @ [10]) w of
             (None, w1) \<Rightarrow> (Returns None, w1)
           | (Some (bs, e), w1) \<Rightarrow> (rpc_loop x e bs, w1)))"

subsection \<open>Lookup\<close>

fun json_pointer :: "rstring list \<Rightarrow> json \<Rightarrow> json option" where
  "json_pointer [] j = Some j"
| "json_pointer (k # ks) j = Option.bind (json_get k j) (json_pointer ks)"

definition get_params :: "rstring \<Rightarrow> json" where
  "get_params name = JObj [(lit ''name'', JStr name), (lit ''wait'', JBool False)]"

definition answer_value :: "json \<Rightarrow> (rstring \<times> rstring option) option" where
  "answer_value msg =
     map_option (\<lambda>value. (value, Option.bind (json_pointer [lit ''result'', lit ''meta'', lit ''user''] msg) as_str))
       (Option.bind (json_pointer [lit ''result'', lit ''value''] msg) as_str)"

fun lookup_names ::
  "'x rpc_ext_scheme \<Rightarrow> environ \<Rightarrow> 'w dial \<Rightarrow> rstring list \<Rightarrow> 'w \<Rightarrow>
   (rstring \<times> rstring option) option blocking \<times> 'w" where
  "lookup_names x env dial [] w = (Returns None, w)"
| "lookup_names x env dial (name # names) w =
     (case rpc x env dial (lit ''secret.get'') (get_params name) w of
        (Blocks, w1) \<Rightarrow> (Blocks, w1)
      | (Returns None, w1) \<Rightarrow> lookup_names x env dial names w1
      | (Returns (Some msg), w1) \<Rightarrow>
          if Option.bind (json_get (lit ''ok'') msg) as_bool = Some True
          then (Returns (answer_value msg), w1)
          else lookup_names x env dial names w1)"

definition git_name :: "rstring \<Rightarrow> rstring" where "git_name host = lit ''git/'' @ host"
definition forge_name :: "rstring \<Rightarrow> rstring" where "forge_name host = lit ''forge/'' @ host"

definition lookup ::
  "'x rpc_ext_scheme \<Rightarrow> environ \<Rightarrow> 'w dial \<Rightarrow> rstring \<Rightarrow> 'w \<Rightarrow>
   (rstring \<times> rstring option) option blocking \<times> 'w" where
  "lookup x env dial host = lookup_names x env dial [git_name host, forge_name host]"

subsection \<open>The subcommand\<close>

definition credential_text :: "attrs \<Rightarrow> rstring \<times> rstring option \<Rightarrow> rstring" where
  "credential_text as = (\<lambda>(v, user).
     (case (case as (lit ''username'') of Some u \<Rightarrow> Some u | None \<Rightarrow> user) of
        Some u \<Rightarrow> lit ''username='' @ u @ [NL] | None \<Rightarrow> []) @
     lit ''password='' @ v @ [NL])"

definition store_params :: "attrs \<Rightarrow> rstring \<Rightarrow> rstring \<Rightarrow> json" where
  "store_params as host password =
     (let ps = JObj [(lit ''name'', JStr (git_name host)), (lit ''value'', JStr password),
                     (lit ''wait'', JBool False)]
      in case as (lit ''username'') of
           Some u \<Rightarrow> json_put (lit ''meta'') (JObj [(lit ''user'', JStr u)]) ps
         | None \<Rightarrow> ps)"

text \<open>The exit code and what is written to standard output.\<close>

definition run ::
  "'x rpc_ext_scheme \<Rightarrow> environ \<Rightarrow> 'w dial \<Rightarrow> rstring \<Rightarrow> rstring option list \<Rightarrow> 'w \<Rightarrow>
   (nat \<times> rstring) blocking \<times> 'w" where
  "run x env dial opn input w =
     (let as = read_attrs input
      in case as (lit ''host'') of
           None \<Rightarrow> (Returns (0, []), w)
         | Some host \<Rightarrow>
             if opn = lit ''get'' then
               (case lookup x env dial host w of
                  (Blocks, w1) \<Rightarrow> (Blocks, w1)
                | (Returns None, w1) \<Rightarrow> (Returns (0, []), w1)
                | (Returns (Some c), w1) \<Rightarrow> (Returns (0, credential_text as c), w1))
             else if opn = lit ''store'' then
               (case as (lit ''password'') of
                  None \<Rightarrow> (Returns (0, []), w)
                | Some password \<Rightarrow>
                    (case rpc x env dial (lit ''secret.set'') (store_params as host password) w of
                       (Blocks, w1) \<Rightarrow> (Blocks, w1)
                     | (Returns _, w1) \<Rightarrow> (Returns (0, []), w1)))
             else if opn = lit ''erase'' then
               (case rpc x env dial (lit ''secret.delete'') (get_params (git_name host)) w of
                  (Blocks, w1) \<Rightarrow> (Blocks, w1)
                | (Returns _, w1) \<Rightarrow> (Returns (0, []), w1))
             else (Returns (0, []), w))"

lemma run_no_host: "read_attrs input (lit ''host'') = None \<Longrightarrow> run x env dial opn input w = (Returns (0, []), w)"
  by (simp add: run_def)

lemma run_cases:
  assumes "read_attrs input (lit ''host'') = Some h"
  shows "run x env dial (lit ''get'') input w =
      (case lookup x env dial h w of
         (Blocks, w1) \<Rightarrow> (Blocks, w1)
       | (Returns None, w1) \<Rightarrow> (Returns (0, []), w1)
       | (Returns (Some c), w1) \<Rightarrow> (Returns (0, credential_text (read_attrs input) c), w1))"
    and "run x env dial (lit ''store'') input w =
      (case read_attrs input (lit ''password'') of
         None \<Rightarrow> (Returns (0, []), w)
       | Some p \<Rightarrow>
           (case rpc x env dial (lit ''secret.set'') (store_params (read_attrs input) h p) w of
              (Blocks, w1) \<Rightarrow> (Blocks, w1) | (Returns _, w1) \<Rightarrow> (Returns (0, []), w1)))"
    and "run x env dial (lit ''erase'') input w =
      (case rpc x env dial (lit ''secret.delete'') (get_params (git_name h)) w of
         (Blocks, w1) \<Rightarrow> (Blocks, w1) | (Returns _, w1) \<Rightarrow> (Returns (0, []), w1))"
    and "opn \<notin> {lit ''get'', lit ''store'', lit ''erase''} \<Longrightarrow>
      run x env dial opn input w = (Returns (0, []), w)"
  using assms by (simp_all add: run_def Let_def)

subsection \<open>Reading an answer\<close>

lemma read_line_line:
  "10 \<notin> set l \<Longrightarrow> read_line e n buf (l @ 10 # r) = Returns (Some (n + length l + 1, buf @ l, r))"
  by (induction l arbitrary: n buf) auto

lemma rpc_loop_line:
  assumes "json_codec x"
  shows "rpc_loop x e (as_bytes (json_text x v) @ 10 # r) =
    (if Option.bind (json_get (lit ''id'') (canon v)) as_u64 \<noteq> Some 1 then rpc_loop x e r
     else Returns (Some (canon v)))"
proof -
  let ?s = "json_text x v"
  have s: "list_all scalar ?s" "10 \<notin> set ?s" "trim ?s = ?s" and p: "json_parse x ?s = Some (canon v)"
    using assms by (simp_all add: json_codec_def)
  show ?thesis
    by (subst rpc_loop.simps)
      (simp only: read_line_line [OF as_bytes_no_newline [OF s(1,2)]], simp add: utf8_roundtrip s p)
qed

text \<open>Notifications before the answer are skipped; what follows it is not read.\<close>

lemma rpc_loop_finds:
  assumes "json_codec x"
    and "\<forall>v \<in> set vs. Option.bind (json_get (lit ''id'') (canon v)) as_u64 \<noteq> Some 1"
    and "Option.bind (json_get (lit ''id'') (canon u)) as_u64 = Some 1"
  shows "rpc_loop x e (writer_bytes (map (json_text x) vs @ [json_text x u]) @ r) = Returns (Some (canon u))"
  using assms(2)
  by (induction vs) (simp_all add: writer_bytes_def rpc_loop_line [OF assms(1)] assms(3))

subsection \<open>The contract of the agent\<close>

text \<open>
  The requests the helper makes, and what it relies on to never block git: the answer to each is
  there to be read. \<open>ok\<close> stands for what the provider itself relies on.
\<close>

definition helper_request :: "rstring \<Rightarrow> json \<Rightarrow> bool" where
  "helper_request m ps \<longleftrightarrow>
     m \<in> {lit ''secret.get'', lit ''secret.delete''} \<and> (\<exists>n. ps = get_params n) \<or>
     m = lit ''secret.set'' \<and> (\<exists>as h p. ps = store_params as h p)"

locale prompt_agent =
  fixes x :: "'x rpc_ext_scheme" and dial :: "'w dial" and ok :: bool
  assumes answers:
    "ok \<Longrightarrow> helper_request m ps \<Longrightarrow> dial path (as_bytes (request_line x m ps) @ [10]) w = (Some (bs, e), w1) \<Longrightarrow>
     rpc_loop x e bs \<noteq> Blocks"
begin

lemma rpc_returns: "ok \<Longrightarrow> helper_request m ps \<Longrightarrow> fst (rpc x env dial m ps w) \<noteq> Blocks"
  by (auto simp: rpc_def answers split: option.split prod.split)

lemma lookup_names_returns: "ok \<Longrightarrow> fst (lookup_names x env dial ns w) \<noteq> Blocks"
proof (induction ns arbitrary: w)
  case (Cons n ns)
  then have "fst (rpc x env dial (lit ''secret.get'') (get_params n) w) \<noteq> Blocks"
    by (intro rpc_returns) (auto simp: helper_request_def)
  with Cons show ?case
    by (cases "rpc x env dial (lit ''secret.get'') (get_params n) w")
      (auto split: blocking.split option.split)
qed simp

lemma run_returns:
  assumes "ok"
  shows "\<exists>out. fst (run x env dial opn input w) = Returns (0, out)"
proof -
  have ret: "\<exists>v w1. p = (Returns v, w1)" if "fst p \<noteq> Blocks" for p :: "'b blocking \<times> 'w"
    using that by (cases p; cases "fst p") auto
  have r: "\<exists>v w1. rpc x env dial m ps w = (Returns v, w1)" if "helper_request m ps" for m ps
    using assms that by (intro ret rpc_returns)
  have get: "\<exists>v w1. lookup x env dial h w = (Returns v, w1)" for h
    unfolding lookup_def using assms
    by (metis lookup_names_returns blocking.exhaust prod.collapse)
  have set: "\<exists>v w1. rpc x env dial (lit ''secret.set'') (store_params as h p) w = (Returns v, w1)" for as h p
    by (rule r) (auto simp: helper_request_def)
  have del: "\<exists>v w1. rpc x env dial (lit ''secret.delete'') (get_params n) w = (Returns v, w1)" for n
    by (rule r) (auto simp: helper_request_def)
  show ?thesis
  proof (cases "read_attrs input (lit ''host'')")
    case None
    then show ?thesis by (simp add: run_no_host)
  next
    case (Some h)
    note eqs = run_cases [OF Some]
    consider "opn = lit ''get''" | "opn = lit ''store''" | "opn = lit ''erase''"
      | "opn \<notin> {lit ''get'', lit ''store'', lit ''erase''}" by blast
    then show ?thesis
    proof cases
      case 1
      obtain c w1 where "lookup x env dial h w = (Returns c, w1)" using get by blast
      with 1 show ?thesis by (cases c) (simp_all add: eqs)
    next
      case 2
      show ?thesis
      proof (cases "read_attrs input (lit ''password'')")
        case None
        with 2 show ?thesis by (simp add: eqs)
      next
        case (Some p)
        with 2 show ?thesis using set [of "read_attrs input" h p] by (auto simp: eqs)
      qed
    next
      case 3
      then show ?thesis using del [of "git_name h"] by (auto simp: eqs)
    next
      case 4
      then show ?thesis by (simp add: eqs)
    qed
  qed
qed

end

subsection \<open>The daemon behind the socket\<close>

text \<open>
  A process that dials \<open>path\<close>, writes \<open>bytes\<close>, reads its answer and hangs up, with the daemon of
  \<open>KR_Main\<close> listening on \<open>sock\<close>. A request that parks keeps the connection silent.
\<close>

definition agent_dial :: "'x rpc_ext_scheme \<Rightarrow> rstring \<Rightarrow> nat option \<Rightarrow> nat \<Rightarrow> bool \<Rightarrow> life dial" where
  "agent_dial x sock cred my_uid rm path bytes l =
     (if path \<noteq> sock \<or> exited l \<or> \<not> sock_file l then (None, l)
      else if \<not> peer_allowed cred my_uid then (Some ([], Eof), l)
      else
        let i = next_client (daemon l);
            l1 = accept_conn cred my_uid l;
            ls = str_lines (from_utf8_lossy bytes)
        in case handle_conn x rm i ls l1 of
             Some (bs, l2) \<Rightarrow> (Some (bs, Silent), l2)
           | None \<Rightarrow>
               (case map (\<lambda>s. request_parse x (trim s)) ls of
                  Some req # _ \<Rightarrow>
                    let a = parked_state x req (daemon l1)
                    in (Some (writer_bytes (queue_of i a), Silent), l1\<lparr>daemon := a\<rparr>)
                | _ \<Rightarrow> (Some ([], Silent), l1)))"

definition helper_libs :: "'x rpc_ext_scheme \<Rightarrow> bool" where
  "helper_libs x \<longleftrightarrow> json_codec x \<and> request_codec x \<and> serde_name x \<and> serde_set x"

text \<open>The three requests decode to what the helper meant, none of them willing to wait.\<close>

lemma canon_fields:
  "distinct (map fst m) \<Longrightarrow> \<exists>fs. canon (JObj m) = JObj fs \<and> distinct (map fst fs) \<and>
     (\<forall>k. map_of fs k = map_option canon (map_of m k))"
  using json_get_canon [of m] by (auto simp: distinct_bt_of_list)

lemma get_params_decode:
  assumes "helper_libs x"
  shows "de_name x (canon (get_params n)) = Inr \<lparr>np_name = n, np_wait = False\<rparr>"
proof -
  let ?m = "[(lit ''name'', JStr n), (lit ''wait'', JBool False)]"
  obtain fs where "canon (get_params n) = JObj fs" "distinct (map fst fs)"
    "\<And>k. map_of fs k = map_option canon (map_of ?m k)"
    using canon_fields [of ?m] by (auto simp: get_params_def)
  with assms show ?thesis
    by (auto simp: helper_libs_def intro!: serde_nameD)
qed

definition user_meta :: "rstring \<Rightarrow> MetaIn" where
  "user_meta u = \<lparr>mi_user = Some u, mi_url = None, mi_notes = None, mi_tags = None, mi_totp = None\<rparr>"

lemma store_params_decode:
  assumes "helper_libs x"
  shows "de_set x (canon (store_params as h v)) =
    Inr \<lparr>sp_name = git_name h, sp_value = Some v, sp_meta = map_option user_meta (as (lit ''username'')),
         sp_wait = False\<rparr>"
proof -
  let ?m = "[(lit ''name'', JStr (git_name h)), (lit ''value'', JStr v), (lit ''wait'', JBool False)] @
    (case as (lit ''username'') of Some u \<Rightarrow> [(lit ''meta'', JObj [(lit ''user'', JStr u)])] | None \<Rightarrow> [])"
  have "store_params as h v = JObj ?m"
    by (simp add: store_params_def Let_def split: option.split)
  moreover have "distinct (map fst ?m)" by (simp split: option.split)
  ultimately obtain fs where "canon (store_params as h v) = JObj fs" "distinct (map fst fs)"
    "\<And>k. map_of fs k = map_option canon (map_of ?m k)"
    using canon_fields [of ?m] by auto
  with assms show ?thesis
    by (cases "as (lit ''username'')")
      (simp_all add: helper_libs_def user_meta_def serde_setD del: canon.simps(2))
qed

lemma blank_lit_prefix: "c \<in> set s \<Longrightarrow> \<not> is_whitespace c \<Longrightarrow> \<not> blank s"
  by (auto simp: blank_iff list_all_iff)

lemma git_name_not_blank [simp]: "\<not> blank (git_name h)"
  by (rule blank_lit_prefix [of 103]) (simp_all add: git_name_def lit_def is_whitespace_def)

lemma with_session_clients:
  "\<exists>r a1. with_session x False quiet f a = Some (r, a1) \<and> clients a1 = clients a \<and>
     next_client a1 = next_client a \<and> cfg a1 = cfg a \<and> (session a = None \<longrightarrow> r = Inl ELocked \<and> a1 = a)"
  by (cases "session a") (auto simp: with_session_unlocked split: sum.split prod.split)

lemma read_session_same:
  "\<exists>r. read_session x False quiet f a = Some (r, a) \<and> (session a = None \<longrightarrow> r = Inl ELocked)"
  by (cases "session a") (auto simp: read_session_unlocked)

text \<open>Each is answered in any state of the agent, and nobody else is told.\<close>

lemma helper_dispatch:
  assumes "helper_libs x" "helper_request m ps"
  shows "\<exists>r a1. dispatch x quiet m (canon ps) a = Some (r, a1) \<and> clients a1 = clients a \<and>
    next_client a1 = next_client a \<and> cfg a1 = cfg a \<and>
    (session a = None \<longrightarrow> r = Inl ELocked \<and> a1 = touch a)"
proof -
  from assms(2) consider n where "m = lit ''secret.get''" "ps = get_params n"
    | n where "m = lit ''secret.delete''" "ps = get_params n"
    | as h v where "m = lit ''secret.set''" "ps = store_params as h v"
    by (auto simp: helper_request_def)
  then show ?thesis
  proof cases
    case 1
    obtain r where "secret_get x quiet (canon ps) (touch a) = Some (r, touch a)"
      "session a = None \<longrightarrow> r = Inl ELocked"
      using read_session_same [of x _ "touch a"] 1(2)
      by (auto simp: secret_get_def get_params_decode [OF assms(1)])
    with 1 show ?thesis by (auto simp: dispatch_methods)
  next
    case 2
    obtain r a1 where "with_session x False quiet (delete_op n) (touch a) = Some (r, a1)"
      "clients a1 = clients a" "next_client a1 = next_client a" "cfg a1 = cfg a"
      "session a = None \<longrightarrow> r = Inl ELocked \<and> a1 = touch a"
      using with_session_clients [of x "delete_op n" "touch a"] by auto
    with 2 show ?thesis
      by (cases r) (auto simp: dispatch_methods secret_delete_def get_params_decode [OF assms(1)])
  next
    case 3
    let ?p = "\<lparr>sp_name = git_name h, sp_value = Some v, sp_meta = map_option user_meta (as (lit ''username'')),
      sp_wait = False\<rparr>"
    obtain r a1 where "with_session x False quiet (set_op ?p) (touch a) = Some (r, a1)"
      "clients a1 = clients a" "next_client a1 = next_client a" "cfg a1 = cfg a"
      "session a = None \<longrightarrow> r = Inl ELocked \<and> a1 = touch a"
      using with_session_clients [of x "set_op ?p" "touch a"] by auto
    with 3 show ?thesis
      by (cases r) (auto simp: dispatch_methods secret_set_def store_params_decode [OF assms(1)])
  qed
qed

text \<open>A request of the helper as the daemon sees it, and the line it is answered with.\<close>

lemma request_line_fed:
  assumes "helper_libs x"
  shows "str_lines (from_utf8_lossy (as_bytes (request_line x m ps) @ [10])) = [request_line x m ps]"
    and "conn_line x sch i (request_line x m ps) a =
      handle x sch i \<lparr>r_id = 1, r_method = m, r_params = canon ps\<rparr> a"
proof -
  let ?s = "request_line x m ps"
  have s: "list_all scalar ?s" "10 \<notin> set ?s" "trim ?s = ?s" "?s \<noteq> []"
    using assms by (simp_all add: helper_libs_def json_codec_def request_line_def)
  from one_line [OF s(1-3)] show "str_lines (from_utf8_lossy (as_bytes ?s @ [10])) = [?s]" .
  have "request_parse x ?s = Some \<lparr>r_id = 1, r_method = m, r_params = canon ps\<rparr>"
    using assms by (simp add: helper_libs_def request_codec_def request_line_def)
  with s show "conn_line x sch i ?s a =
      handle x sch i \<lparr>r_id = 1, r_method = m, r_params = canon ps\<rparr> a"
    by (simp add: conn_line_def)
qed

definition reply_value :: "err + json \<Rightarrow> json" where
  "reply_value r = (case r of Inr v \<Rightarrow> ok_value 1 v | Inl e \<Rightarrow> err_value 1 (show_err e))"

lemma reply_value_id [simp]: "json_get (lit ''id'') (canon (reply_value r)) = Some (JInt 1)"
  by (simp add: reply_value_def split: sum.split)

definition listening :: "rstring \<Rightarrow> nat option \<Rightarrow> nat \<Rightarrow> rstring \<Rightarrow> life \<Rightarrow> bool" where
  "listening sock cred my_uid path l \<longleftrightarrow>
     path = sock \<and> \<not> exited l \<and> sock_file l \<and> peer_allowed cred my_uid"

definition after_request :: "bool \<Rightarrow> u64 \<Rightarrow> agent \<Rightarrow> life \<Rightarrow> life" where
  "after_request rm i a l =
     close_end rm (fst (unregister_client i a)) (close_begin i (l\<lparr>daemon := a\<rparr>))"

lemma agent_dial_answer:
  assumes libs: "helper_libs x" and up: "listening sock cred my_uid path l"
    and i: "i = next_client (daemon l)"
    and d: "dispatch x quiet m (canon ps) (snd (register_client (daemon l))) = Some (r, a1)"
    and c: "clients a1 = clients (snd (register_client (daemon l)))"
  shows "agent_dial x sock cred my_uid rm path (as_bytes (request_line x m ps) @ [10]) l =
    (Some (writer_bytes [json_text x (reply_value r)], Silent),
     after_request rm i (send_to i (json_text x (reply_value r)) a1) l)"
proof -
  let ?a0 = "snd (register_client (daemon l))"
  let ?line = "json_text x (reply_value r)"
  have "handle x quiet i \<lparr>r_id = 1, r_method = m, r_params = canon ps\<rparr> ?a0 = Some (send_to i ?line a1)"
    using d by (simp add: handle_def reply_value_def response_ok_def response_err_def split: sum.split)
  then have feed: "feed x i [request_line x m ps] ?a0 = Some (send_to i ?line a1)"
    by (simp add: request_line_fed(2) [OF libs])
  have q: "queue_of i (send_to i ?line a1) = [?line]"
    using c i by (simp add: queue_of_def send_to_def register_client_def Let_def)
  from up have ac: "accept_conn cred my_uid l = l\<lparr>daemon := ?a0\<rparr>"
    by (simp add: listening_def accept_conn_def)
  have "handle_conn x rm i [request_line x m ps] (l\<lparr>daemon := ?a0\<rparr>) =
      Some (writer_bytes [?line], after_request rm i (send_to i ?line a1) l)"
    using feed q by (simp add: handle_conn_def after_request_def)
  then show ?thesis
    using up i ac by (simp add: agent_dial_def listening_def Let_def request_line_fed(1) [OF libs])
qed

lemma agent_dial_down:
  "\<not> listening sock cred my_uid path l \<Longrightarrow>
   agent_dial x sock cred my_uid rm path bytes l \<in> {(None, l), (Some ([], Eof), l)}"
  by (auto simp: agent_dial_def listening_def)

lemma rpc_loop_reply:
  "json_codec x \<Longrightarrow> rpc_loop x e (writer_bytes [json_text x (reply_value r)]) = Returns (Some (canon (reply_value r)))"
  using rpc_loop_finds [of x "[]" "reply_value r" e "[]"] by simp

interpretation helper: prompt_agent x "agent_dial x sock cred my_uid rm" "helper_libs x"
  for x :: "'x rpc_ext_scheme" and sock cred my_uid rm
proof
  fix m ps path w w1 bs e
  assume libs: "helper_libs x" and req: "helper_request m ps"
    and dial: "agent_dial x sock cred my_uid rm path (as_bytes (request_line x m ps) @ [10]) w = (Some (bs, e), w1)"
  show "rpc_loop x e bs \<noteq> Blocks"
  proof (cases "listening sock cred my_uid path w")
    case True
    from helper_dispatch [OF libs req, of "snd (register_client (daemon w))"] obtain r a1 where
      "dispatch x quiet m (canon ps) (snd (register_client (daemon w))) = Some (r, a1)"
      "clients a1 = clients (snd (register_client (daemon w)))" by blast
    from agent_dial_answer [OF libs True refl this] dial have "bs = writer_bytes [json_text x (reply_value r)]"
      by simp
    with libs show ?thesis by (simp add: helper_libs_def rpc_loop_reply)
  next
    case False
    from agent_dial_down [OF this, of x rm "as_bytes (request_line x m ps) @ [10]"] dial
    have "bs = []" "e = Eof" by auto
    then show ?thesis by (subst rpc_loop.simps) simp
  qed
qed

end
