(* ===== verification/KR_CredentialProps.thy ===== *)
theory KR_CredentialProps
  imports KR_Credential KR_StoreProps
begin

text \<open>
  Properties of the \<open>git-credential\<close> helper together with the daemon it asks: it always returns to
  git, what it prints, what it stores, and how git reads it.
\<close>

subsection \<open>A request that leaves the daemon running\<close>

text \<open>
  \<open>attended n l\<close>: the daemon stays up through \<open>n\<close> connections of helpers, because it persists or
  because an editor is connected (whose id the next \<open>n\<close> ids do not reuse).
\<close>

definition attended :: "nat \<Rightarrow> life \<Rightarrow> bool" where
  "attended n l \<longleftrightarrow>
     c_persist (cfg (daemon l)) \<or>
     (\<exists>j \<in> fst ` set (clients (daemon l)). \<forall>k < n. j \<noteq> next_client (daemon l) + of_nat k)"

definition others :: "u64 \<Rightarrow> agent \<Rightarrow> (u64 \<times> rstring list) list" where
  "others i a = filter (\<lambda>(j, _). j \<noteq> i) (clients a)"

lemma register_simps:
  "clients (snd (register_client a)) = (next_client a, []) # others (next_client a) a"
  "next_client (snd (register_client a)) = next_client a + 1" "cfg (snd (register_client a)) = cfg a"
  "session (snd (register_client a)) = session a" "sys (snd (register_client a)) = sys a"
  by (simp_all add: register_client_def others_def Let_def)

lemma after_request_stays:
  assumes att: "attended (Suc n) l" and i: "i = next_client (daemon l)"
    and a: "clients a = (i, q) # others i (daemon l)" "cfg a = cfg (daemon l)" "next_client a = i + 1"
  shows "daemon (after_request rm i a l) = a\<lparr>clients := others i (daemon l)\<rparr>"
    and "exited (after_request rm i a l) = exited l" "sock_file (after_request rm i a l) = sock_file l"
    and "attended n (after_request rm i a l)"
proof -
  let ?cs = "others i (daemon l)"
  have un: "unregister_client i a = (length ?cs, a\<lparr>clients := ?cs\<rparr>)"
    using a by (simp add: unregister_client_def others_def Let_def)
  from att consider "c_persist (cfg a)" | j where "j \<in> fst ` set ?cs" "\<forall>k < n. j \<noteq> i + 1 + of_nat k"
  proof -
    have "\<exists>j. j \<in> fst ` set ?cs \<and> (\<forall>k < n. j \<noteq> i + 1 + of_nat k)" if "\<not> c_persist (cfg a)"
    proof -
      from att that a obtain j where j: "j \<in> fst ` set (clients (daemon l))"
        "\<forall>k < Suc n. j \<noteq> next_client (daemon l) + of_nat k" by (auto simp: attended_def)
      have "j \<noteq> i" using j(2) [rule_format, of 0] i by simp
      with j(1) have "j \<in> fst ` set ?cs" by (force simp: others_def)
      moreover have "j \<noteq> i + 1 + of_nat k" if "k < n" for k
        using j(2) [rule_format, of "Suc k"] that i by (simp add: ac_simps)
      ultimately show ?thesis by blast
    qed
    then show thesis using that by blast
  qed
  then have "after_close (cfg a) (length ?cs) = Stay \<and>
      (c_persist (cfg a) \<or> (\<exists>j \<in> fst ` set ?cs. \<forall>k < n. j \<noteq> i + 1 + of_nat k))"
    by cases (auto simp: after_close_def)
  then show "daemon (after_request rm i a l) = a\<lparr>clients := ?cs\<rparr>"
    and "exited (after_request rm i a l) = exited l" "sock_file (after_request rm i a l) = sock_file l"
    and "attended n (after_request rm i a l)"
    using a(3)
    by (simp_all add: after_request_def close_begin_def close_end_def un Let_def attended_def)
qed

lemma rpc_attended:
  assumes libs: "helper_libs x" and env: "socket_path env = Some sock"
    and up: "listening sock cred my_uid sock l" and att: "attended (Suc n) l"
    and req: "helper_request m ps"
    and d: "dispatch x quiet m (canon ps) (snd (register_client (daemon l))) = Some (r, a1)"
  shows "\<exists>l1. rpc x env (agent_dial x sock cred my_uid rm) m ps l = (Returns (Some (canon (reply_value r))), l1) \<and>
    daemon l1 = a1\<lparr>clients := others (next_client (daemon l)) (daemon l)\<rparr> \<and>
    listening sock cred my_uid sock l1 \<and> attended n l1"
proof -
  let ?i = "next_client (daemon l)"
  let ?a = "send_to ?i (json_text x (reply_value r)) a1"
  let ?l1 = "after_request rm ?i ?a l"
  from helper_dispatch [OF libs req, of "snd (register_client (daemon l))"] d
  have a1: "clients a1 = (?i, []) # others ?i (daemon l)" "next_client a1 = ?i + 1"
    "cfg a1 = cfg (daemon l)" by (auto simp: register_simps)
  then have c: "clients a1 = clients (snd (register_client (daemon l)))" by (simp add: register_simps)
  have "clients ?a = (?i, [json_text x (reply_value r)]) # others ?i (daemon l)"
    using a1(1) by (auto simp: send_to_def others_def intro!: map_idI)
  note st = after_request_stays [OF att refl this, of rm]
  have "rpc_loop x Silent (writer_bytes [json_text x (reply_value r)]) = Returns (Some (canon (reply_value r)))"
    using libs by (simp add: helper_libs_def rpc_loop_reply)
  then have "rpc x env (agent_dial x sock cred my_uid rm) m ps l =
      (Returns (Some (canon (reply_value r))), ?l1)"
    using env by (simp add: rpc_def agent_dial_answer [OF libs up refl d c])
  moreover have "daemon ?l1 = a1\<lparr>clients := others ?i (daemon l)\<rparr>"
    using st(1) a1 by (simp add: send_to_def)
  moreover have "listening sock cred my_uid sock ?l1" "attended n ?l1"
    using st(2-4) a1 up by (simp_all add: listening_def)
  ultimately show ?thesis by blast
qed

subsection \<open>Looking up a credential\<close>

lemma get_dispatch:
  "helper_libs x \<Longrightarrow> session a = Some s \<Longrightarrow>
   dispatch x quiet (lit ''secret.get'') (canon (get_params n)) a =
     Some (fst (spec_get n (store_of s)), touch a)"
  by (simp add: dispatch_methods secret_get_def get_params_decode read_session_unlocked [of "touch a" s]
      spec_get_def get_entry_op_def store_of_def bindS_def split: option.split)

lemma answer_value_get:
  "answer_value (canon (reply_value (Inr (JObj [(lit ''value'', JStr v), (lit ''meta'', entry_meta e)])))) =
     Some (v, e_user e)"
proof -
  have "json_get (lit ''user'') (canon (entry_meta e)) = Some (json_opt (e_user e))"
    by (simp add: entry_meta_def json_get_canon json_opt_def split: option.split del: canon.simps(2))
  then show ?thesis
    by (simp add: answer_value_def reply_value_def json_get_canon json_opt_def split: option.split
        del: canon.simps(2))
qed

lemma lookup_step:
  assumes libs: "helper_libs x" and env: "socket_path env = Some sock"
    and up: "listening sock cred my_uid sock l" and att: "attended (Suc k) l"
    and s: "session (daemon l) = Some s"
  shows "\<exists>l1. lookup_names x env (agent_dial x sock cred my_uid rm) (n # ns) l =
      (case store_of s n of
         Some e \<Rightarrow> (Returns (Some (e_value e, e_user e)), l1)
       | None \<Rightarrow> lookup_names x env (agent_dial x sock cred my_uid rm) ns l1) \<and>
    session (daemon l1) = Some s \<and> sys (daemon l1) = sys (daemon l) \<and>
    listening sock cred my_uid sock l1 \<and> attended k l1"
proof -
  let ?a = "snd (register_client (daemon l))"
  have "session ?a = Some s" using s by (simp add: register_simps)
  from rpc_attended [OF libs env up att _ get_dispatch [OF libs this], where rm = rm]
  obtain l1 where r: "rpc x env (agent_dial x sock cred my_uid rm) (lit ''secret.get'') (get_params n) l =
      (Returns (Some (canon (reply_value (fst (spec_get n (store_of s)))))), l1)"
    and l1: "daemon l1 = (touch ?a)\<lparr>clients := others (next_client (daemon l)) (daemon l)\<rparr>"
      "listening sock cred my_uid sock l1" "attended k l1"
    by (auto simp: helper_request_def)
  have "lookup_names x env (agent_dial x sock cred my_uid rm) (n # ns) l =
      (case store_of s n of
         Some e \<Rightarrow> (Returns (Some (e_value e, e_user e)), l1)
       | None \<Rightarrow> lookup_names x env (agent_dial x sock cred my_uid rm) ns l1)"
    using r answer_value_get
    by (cases "store_of s n") (simp_all add: spec_get_def, simp_all add: reply_value_def)
  moreover have "session (daemon l1) = Some s" "sys (daemon l1) = sys (daemon l)"
    using l1(1) s by (simp_all add: register_simps)
  ultimately show ?thesis using l1 by blast
qed

text \<open>What the helper promises: the entry of the host, the \<open>git/\<close> one first.\<close>

definition host_entry :: "store \<Rightarrow> rstring \<Rightarrow> Entry option" where
  "host_entry st h = (case st (git_name h) of Some e \<Rightarrow> Some e | None \<Rightarrow> st (forge_name h))"

lemma lookup_answers:
  assumes libs: "helper_libs x" and env: "socket_path env = Some sock"
    and up: "listening sock cred my_uid sock l" and att: "attended 2 l"
    and s: "session (daemon l) = Some s"
  shows "\<exists>l1. lookup x env (agent_dial x sock cred my_uid rm) h l =
      (Returns (map_option (\<lambda>e. (e_value e, e_user e)) (host_entry (store_of s) h)), l1) \<and>
    session (daemon l1) = Some s \<and> disk (sys (daemon l1)) = disk (sys (daemon l))"
proof -
  from att have "attended (Suc (Suc 0)) l" by (simp add: numeral_2_eq_2)
  from lookup_step [OF libs env up this s, where rm = rm and n = "git_name h" and ns = "[forge_name h]"]
  obtain l1 where
    1: "lookup x env (agent_dial x sock cred my_uid rm) h l =
      (case store_of s (git_name h) of
         Some e \<Rightarrow> (Returns (Some (e_value e, e_user e)), l1)
       | None \<Rightarrow> lookup_names x env (agent_dial x sock cred my_uid rm) [forge_name h] l1)"
    and l1: "session (daemon l1) = Some s" "sys (daemon l1) = sys (daemon l)"
      "listening sock cred my_uid sock l1" "attended (Suc 0) l1"
    by (auto simp: lookup_def)
  from lookup_step [OF libs env l1(3,4,1), where rm = rm and n = "forge_name h" and ns = "[]"]
  obtain l2 where
    2: "lookup_names x env (agent_dial x sock cred my_uid rm) [forge_name h] l1 =
      (case store_of s (forge_name h) of
         Some e \<Rightarrow> (Returns (Some (e_value e, e_user e)), l2) | None \<Rightarrow> (Returns None, l2))"
    and l2: "session (daemon l2) = Some s" "sys (daemon l2) = sys (daemon l1)"
    by (auto simp del: lookup_names.simps(2)) (auto simp: lookup_names.simps(1) split: option.splits)
  show ?thesis
    unfolding host_entry_def using 1 2 l1 l2 by (auto split: option.split)
qed


subsection \<open>Storing one\<close>

lemma in_sync_same:
  "session b = session a \<Longrightarrow> sys b = sys a \<Longrightarrow> cfg b = cfg a \<Longrightarrow> in_sync x pw b s = in_sync x pw a s"
  by (simp add: in_sync_def)

text \<open>C10. What git stores is what git gets: after \<open>git-credential store\<close> on an unlocked daemon the vault
  file holds the password under \<open>git/<host>\<close>, no other secret has changed, and \<open>get\<close> for that host
  prints that password with the stored user name (or the earlier one, if none was given).\<close>

theorem credential_store_then_get:
  assumes libs: "helper_libs x" "sealing_total x" and env: "socket_path env = Some sock"
    and up: "listening sock cred my_uid sock l" "attended 3 l"
    and sync: "in_sync x pw (daemon l) s" "reliable (sys (daemon l))"
    and attrs: "read_attrs input (lit ''host'') = Some h" "read_attrs input (lit ''password'') = Some v"
      "read_attrs input2 (lit ''host'') = Some h"
  shows "\<exists>l1 l2 s1. run x env (agent_dial x sock cred my_uid rm) (lit ''store'') input l = (Returns (0, []), l1) \<and>
    in_sync x pw (daemon l1) s1 \<and> (\<forall>n. n \<noteq> git_name h \<longrightarrow> store_of s1 n = store_of s n) \<and>
    run x env (agent_dial x sock cred my_uid rm) (lit ''get'') input2 l1 =
      (Returns (0, credential_text (read_attrs input2)
         (v, case read_attrs input (lit ''username'') of
               Some u \<Rightarrow> nonempty u | None \<Rightarrow> Option.bind (store_of s (git_name h)) e_user)), l2)"
proof -
  let ?a = "snd (register_client (daemon l))"
  let ?ps = "store_params (read_attrs input) h v"
  let ?p = "\<lparr>sp_name = git_name h, sp_value = Some v,
    sp_meta = map_option user_meta (read_attrs input (lit ''username'')), sp_wait = False\<rparr>"
  let ?sp = "spec_set ?p (unix (sys (daemon l))) (store_of s)"
  have sync_a: "in_sync x pw ?a s" "reliable (sys ?a)"
    using sync by (simp_all add: in_sync_same [of ?a "daemon l"] register_simps)
  have spec: "spec_request x (unix (sys ?a)) (lit ''secret.set'') (canon ?ps) (store_of s) = ?sp"
    by (simp add: spec_request_def decoded_def store_params_decode [OF libs(1)] register_simps)
  obtain e where sp: "?sp = (Inr (JObj []), (store_of s)(git_name h \<mapsto> e))" and e: "e_value e = v"
    "e_user e = (case read_attrs input (lit ''username'') of
       Some u \<Rightarrow> nonempty u | None \<Rightarrow> Option.bind (store_of s (git_name h)) e_user)"
    by (cases "store_of s (git_name h)"; cases "read_attrs input (lit ''username'')")
      (auto simp: spec_set_def user_meta_def maybe_meta_def apply_meta_def new_entry_def Let_def)
  from request_refines [OF _ sync_a libs(2), of "lit ''secret.set''" "canon ?ps"] spec sp
  obtain a1 s1 where d: "dispatch x quiet (lit ''secret.set'') (canon ?ps) ?a = Some (Inr (JObj []), a1)"
    and s1: "in_sync x pw a1 s1" "store_of s1 = (store_of s)(git_name h \<mapsto> e)"
    by (auto simp: store_methods_def)
  have "attended (Suc 2) l" using up(2) by (simp add: eval_nat_numeral)
  from rpc_attended [OF libs(1) env up(1) this _ d, where rm = rm] obtain l1 where
    r: "rpc x env (agent_dial x sock cred my_uid rm) (lit ''secret.set'') ?ps l =
      (Returns (Some (canon (reply_value (Inr (JObj []))))), l1)"
    and l1: "daemon l1 = a1\<lparr>clients := others (next_client (daemon l)) (daemon l)\<rparr>"
      "listening sock cred my_uid sock l1" "attended 2 l1"
    by (auto simp: helper_request_def)
  have store: "run x env (agent_dial x sock cred my_uid rm) (lit ''store'') input l = (Returns (0, []), l1)"
    by (simp add: run_cases [OF attrs(1)] attrs(2) r)
  have sync1: "in_sync x pw (daemon l1) s1" using s1(1) l1(1) by (simp add: in_sync_def)
  then have "session (daemon l1) = Some s1" by (simp add: in_sync_def)
  from lookup_answers [OF libs(1) env l1(2,3) this, of rm h] s1(2) e obtain l2 where
    "lookup x env (agent_dial x sock cred my_uid rm) h l1 = (Returns (Some (v, e_user e)), l2)"
    by (auto simp: host_entry_def)
  then have "run x env (agent_dial x sock cred my_uid rm) (lit ''get'') input2 l1 =
      (Returns (0, credential_text (read_attrs input2) (v, e_user e)), l2)"
    by (simp add: run_cases [OF attrs(3)])
  with store sync1 s1(2) e(2) show ?thesis by auto
qed

subsection \<open>Never in git's way\<close>

text \<open>A locked daemon that was asked and left as it was, its clients not told anything.\<close>

definition undisturbed :: "life \<Rightarrow> life \<Rightarrow> bool" where
  "undisturbed l l1 \<longleftrightarrow>
     session (daemon l1) = None \<and> disk (sys (daemon l1)) = disk (sys (daemon l)) \<and>
     set (clients (daemon l1)) \<subseteq> set (clients (daemon l))"

lemma undisturbed_trans: "undisturbed l l1 \<Longrightarrow> undisturbed l1 l2 \<Longrightarrow> undisturbed l l2"
  by (auto simp: undisturbed_def)

lemma after_request_any:
  "clients (daemon (after_request rm i a l)) = others i a"
  "sys (daemon (after_request rm i a l)) = sys a"
  "session a = None \<Longrightarrow> session (daemon (after_request rm i a l)) = None"
  by (simp_all add: after_request_def close_end_def close_begin_def lock_and_exit_def lock_def
      unregister_client_def others_def Let_def split: closing.split)

lemma others_send: "others i (send_to i line a) = others i a"
proof -
  have "filter (\<lambda>(j, _). j \<noteq> i) (map (\<lambda>(j, q). (j, if j = i then q @ [line] else q)) cs) =
      filter (\<lambda>(j, _). j \<noteq> i) cs" for cs :: "(u64 \<times> rstring list) list"
    by (induction cs) auto
  then show ?thesis by (simp add: others_def send_to_def)
qed

lemma rpc_locked:
  assumes libs: "helper_libs x" and req: "helper_request m ps" and s: "session (daemon l) = None"
  shows "\<exists>v l1. rpc x env (agent_dial x sock cred my_uid rm) m ps l = (Returns v, l1) \<and> undisturbed l l1 \<and>
    (\<forall>msg. v = Some msg \<longrightarrow> json_get (lit ''ok'') msg = Some (JBool False))"
proof (cases "socket_path env")
  case None
  then show ?thesis using s by (simp add: rpc_def undisturbed_def)
next
  case (Some p)
  let ?bs = "as_bytes (request_line x m ps) @ [10]"
  show ?thesis
  proof (cases "listening sock cred my_uid p l")
    case False
    from agent_dial_down [OF this, of x rm ?bs] show ?thesis
    proof
      assume "agent_dial x sock cred my_uid rm p ?bs l = (None, l)"
      with Some s show ?thesis by (simp add: rpc_def undisturbed_def)
    next
      assume "agent_dial x sock cred my_uid rm p ?bs l \<in> {(Some ([], Eof), l)}"
      moreover have "rpc_loop x Eof [] = Returns None" by (subst rpc_loop.simps) simp
      ultimately show ?thesis using Some s by (simp add: rpc_def undisturbed_def)
    qed
  next
    case True
    let ?i = "next_client (daemon l)"
    let ?a = "snd (register_client (daemon l))"
    let ?v = "reply_value (Inl ELocked)"
    let ?l1 = "after_request rm ?i (send_to ?i (json_text x ?v) (touch ?a)) l"
    have "session ?a = None" using s by (simp add: register_simps)
    with helper_dispatch [OF libs req, of ?a]
    have d: "dispatch x quiet m (canon ps) ?a = Some (Inl ELocked, touch ?a)" by auto
    have "rpc x env (agent_dial x sock cred my_uid rm) m ps l = (Returns (Some (canon ?v)), ?l1)"
      using Some libs
      by (simp add: rpc_def agent_dial_answer [OF libs True refl d] helper_libs_def rpc_loop_reply)
    moreover have "others ?i (touch ?a) = others ?i (daemon l)"
      by (simp add: others_def register_simps)
    then have "undisturbed l ?l1"
      using s by (auto simp: undisturbed_def after_request_any others_send register_simps)
        (auto simp: others_def)
    moreover have "json_get (lit ''ok'') (canon ?v) = Some (JBool False)"
      by (simp add: reply_value_def)
    ultimately show ?thesis by blast
  qed
qed

lemma lookup_names_locked:
  assumes "helper_libs x" "session (daemon l) = None"
  shows "\<exists>l1. lookup_names x env (agent_dial x sock cred my_uid rm) ns l = (Returns None, l1) \<and> undisturbed l l1"
  using assms(2)
proof (induction ns arbitrary: l)
  case Nil
  then show ?case by (simp add: undisturbed_def)
next
  case (Cons n ns)
  have "helper_request (lit ''secret.get'') (get_params n)" by (auto simp: helper_request_def)
  from rpc_locked [OF assms(1) this Cons.prems, of env sock cred my_uid rm] obtain v l1 where
    r: "rpc x env (agent_dial x sock cred my_uid rm) (lit ''secret.get'') (get_params n) l = (Returns v, l1)"
    and u: "undisturbed l l1" and no: "\<forall>msg. v = Some msg \<longrightarrow> json_get (lit ''ok'') msg = Some (JBool False)"
    by blast
  from u have "session (daemon l1) = None" by (simp add: undisturbed_def)
  from Cons.IH [OF this] u r no show ?case
    by (cases v) (auto intro: undisturbed_trans)
qed

text \<open>C11. The helper never gets in git's way. Whatever the operation, the input and the state of the
  daemon - running or gone, locked or not, its socket refused or not - it returns with exit code 0.
  And with a locked vault it prints nothing, prompts nobody and changes nothing stored.\<close>

theorem credential_never_blocks:
  assumes "helper_libs x"
  shows "\<exists>out l1. run x env (agent_dial x sock cred my_uid rm) opn input l = (Returns (0, out), l1) \<and>
    (session (daemon l) = None \<longrightarrow> out = [] \<and> undisturbed l l1)"
proof (cases "session (daemon l) = None")
  case False
  then show ?thesis using helper.run_returns [OF assms, of env sock cred my_uid rm opn input l]
    by (metis prod.collapse)
next
  case True
  note rpc = rpc_locked [OF assms _ True, of _ _ env sock cred my_uid rm]
  have same: "undisturbed l l" using True by (simp add: undisturbed_def)
  show ?thesis
  proof (cases "read_attrs input (lit ''host'')")
    case None
    with same show ?thesis by (simp add: run_no_host)
  next
    case (Some h)
    note eqs = run_cases [OF Some]
    consider "opn = lit ''get''" | "opn = lit ''store''" | "opn = lit ''erase''"
      | "opn \<notin> {lit ''get'', lit ''store'', lit ''erase''}" by blast
    then show ?thesis
    proof cases
      case 1
      obtain l1 where "lookup x env (agent_dial x sock cred my_uid rm) h l = (Returns None, l1)" "undisturbed l l1"
        unfolding lookup_def using lookup_names_locked [OF assms True] by blast
      with 1 show ?thesis by (simp add: eqs)
    next
      case 2
      show ?thesis
      proof (cases "read_attrs input (lit ''password'')")
        case None
        with 2 same show ?thesis by (simp add: eqs)
      next
        case (Some p)
        have "helper_request (lit ''secret.set'') (store_params (read_attrs input) h p)"
          by (auto simp: helper_request_def)
        from rpc [OF this] 2 Some show ?thesis by (auto simp: eqs)
      qed
    next
      case 3
      have "helper_request (lit ''secret.delete'') (get_params (git_name h))"
        by (auto simp: helper_request_def)
      from rpc [OF this] 3 show ?thesis by (auto simp: eqs)
    next
      case 4
      with same show ?thesis by (simp add: eqs)
    qed
  qed
qed

subsection \<open>What git reads\<close>

lemma split_once_key:
  "c \<notin> set k \<Longrightarrow> split_once c (k @ c # v) = Some (k, v)"
  by (induction k) (auto simp: split_once_def split: list.splits)

lemma attr_line:
  assumes "10 \<notin> set v" "strip_cr v = v" "EQUALS \<notin> set k" "10 \<notin> set k" "k \<noteq> []"
  shows "str_lines (k @ EQUALS # v @ NL # r) = (k @ EQUALS # v) # str_lines r"
proof -
  have "strip_cr (k @ EQUALS # v) = k @ EQUALS # v"
    using assms(2) by (cases v rule: rev_cases) (auto simp: strip_cr_def EQUALS_def)
  moreover have "10 \<notin> set (k @ EQUALS # v)" using assms by (auto simp: EQUALS_def)
  ultimately show ?thesis using str_lines_line [of "k @ EQUALS # v" r] by (simp add: NL_def)
qed

definition one_liner :: "rstring \<Rightarrow> bool" where
  "one_liner v \<longleftrightarrow> NL \<notin> set v \<and> strip_cr v = v"

lemma attr_loop_line:
  "EQUALS \<notin> set k \<Longrightarrow> attr_loop (Some (k @ EQUALS # v) # ls) m = attr_loop ls (m(k \<mapsto> v))"
  by (simp add: split_once_key)

lemma key_ok:
  "EQUALS \<notin> set (lit ''username'')" "10 \<notin> set (lit ''username'')"
  "EQUALS \<notin> set (lit ''password'')" "10 \<notin> set (lit ''password'')"
  by (simp_all add: lit_def EQUALS_def)

text \<open>One printed attribute, as it is read.\<close>

lemma read_attr:
  assumes "one_liner v" "EQUALS \<notin> set k" "10 \<notin> set k" "k \<noteq> []"
  shows "attr_loop (map Some (str_lines (k @ EQUALS # v @ NL # r))) m =
    attr_loop (map Some (str_lines r)) (m(k \<mapsto> v))"
  using assms attr_line [of v k r] attr_loop_line [of k v]
  by (simp add: one_liner_def NL_def del: attr_loop.simps)

lemma credential_text_lines:
  "credential_text as (v, user) =
     (case (case as (lit ''username'') of Some u \<Rightarrow> Some u | None \<Rightarrow> user) of
        Some u \<Rightarrow> lit ''username'' @ EQUALS # u @ NL # lit ''password'' @ EQUALS # v @ NL # []
      | None \<Rightarrow> lit ''password'' @ EQUALS # v @ NL # [])"
  by (simp add: credential_text_def lit_def EQUALS_def NL_def split: option.split)

text \<open>What the helper prints is read as what it meant: a value and a user name that are single lines
  come back exactly, equal signs and all, and no other attribute does.\<close>

theorem credential_readback:
  assumes "one_liner v" and "\<forall>u. user = Some u \<longrightarrow> one_liner u" "as (lit ''username'') = None"
  shows "read_attrs (map Some (str_lines (credential_text as (v, user)))) =
    (case user of Some u \<Rightarrow> [lit ''username'' \<mapsto> u, lit ''password'' \<mapsto> v] | None \<Rightarrow> [lit ''password'' \<mapsto> v])"
  using assms(2,3) read_attr [OF assms(1) key_ok(3,4), of "[]"] read_attr [OF _ key_ok(1,2)]
  by (auto simp: read_attrs_def credential_text_lines split: option.split)

theorem credential_readback_witness:
  "read_attrs (map Some (str_lines (credential_text Map.empty (lit ''a=b'', Some (lit ''me''))))) =
     [lit ''username'' \<mapsto> lit ''me'', lit ''password'' \<mapsto> lit ''a=b'']"
  using credential_readback [of "lit ''a=b''" "Some (lit ''me'')" Map.empty]
  by (simp add: one_liner_def strip_cr_def lit_def NL_def)



subsection \<open>A concrete helper and daemon\<close>

lemma demo_helper_libs: "helper_libs demo_rpc"
  by (simp add: helper_libs_def demo_json_codec demo_request_codec demo_serde_name demo_serde_set)

definition helper_env :: environ where
  "helper_env = [lit ''LVIM_KEYRING_SOCK'' \<mapsto> lit ''/s'']"

definition helper_life :: "Session \<Rightarrow> os \<Rightarrow> life" where
  "helper_life s o1 =
     \<lparr>daemon = (demo_agent o1)\<lparr>cfg := demo_cfg\<lparr>c_persist := True\<rparr>, session := Some s\<rparr>,
      ending = [], timers = [], sock_file = True, exited = False\<rparr>"

definition demo_locked_life :: life where
  "demo_locked_life = (helper_life (demo_session [1] [2]) demo_os)
     \<lparr>daemon := (demo_agent demo_os)\<lparr>session := None\<rparr>\<rparr>"

lemma helper_life_ok:
  "socket_path helper_env = Some (lit ''/s'')" "listening (lit ''/s'') (Some 1) 1 (lit ''/s'') (helper_life s o1)"
  "attended n (helper_life s o1)" "session (daemon (helper_life s o1)) = Some s"
  "sys (daemon (helper_life s o1)) = o1"
  by (simp_all add: socket_path_def helper_env_def nonempty_def listening_def helper_life_def
      peer_allowed_def attended_def)

lemma helper_life_sync:
  "in_sync x pw (demo_agent o1) s \<Longrightarrow> in_sync x pw (daemon (helper_life s o1)) s"
  by (simp add: in_sync_def helper_life_def)

lemma demo_input:
  "read_attrs [Some (lit ''protocol=https''), Some (lit ''host=h'')] =
     [lit ''protocol'' \<mapsto> lit ''https'', lit ''host'' \<mapsto> lit ''h'']"
  "read_attrs [Some (lit ''host=h''), Some (lit ''username=me''), Some (lit ''password=t'')] =
     [lit ''host'' \<mapsto> lit ''h'', lit ''username'' \<mapsto> lit ''me'', lit ''password'' \<mapsto> lit ''t'']"
  by (simp_all add: read_attrs_def split_once_def EQUALS_def lit_def)

definition demo_host_session :: Session where
  "demo_host_session =
     on_entries (\<lambda>_. [(lit ''forge/h'', demo_entry (lit ''t''))]) (demo_session [1] [2])"

lemma demo_host_entry: "host_entry (store_of demo_host_session) (lit ''h'') = Some (demo_entry (lit ''t''))"
  by (simp add: host_entry_def store_of_def demo_host_session_def git_name_def forge_name_def lit_def)


theorem credential_store_then_get_witness:
  "\<exists>o1 l1 l2. run demo_rpc helper_env (agent_dial demo_rpc (lit ''/s'') (Some 1) 1 True) (lit ''store'')
      [Some (lit ''host=h''), Some (lit ''username=me''), Some (lit ''password=t'')]
      (helper_life (demo_session [1] [2]) o1) = (Returns (0, []), l1) \<and>
    run demo_rpc helper_env (agent_dial demo_rpc (lit ''/s'') (Some 1) 1 True) (lit ''get'')
      [Some (lit ''protocol=https''), Some (lit ''host=h'')] l1 =
    (Returns (0, credential_text Map.empty (lit ''t'', Some (lit ''me''))), l2)"
proof -
  obtain o1 where o1: "in_sync demo_rpc [1] (demo_agent o1) (demo_session [1] [2])" "reliable o1"
    by (rule demo_in_sync)
  let ?l = "helper_life (demo_session [1] [2]) o1"
  let ?in1 = "[Some (lit ''host=h''), Some (lit ''username=me''), Some (lit ''password=t'')]"
  let ?in2 = "[Some (lit ''protocol=https''), Some (lit ''host=h'')]"
  have attrs: "read_attrs ?in1 (lit ''host'') = Some (lit ''h'')" "read_attrs ?in1 (lit ''password'') = Some (lit ''t'')"
    "read_attrs ?in2 (lit ''host'') = Some (lit ''h'')" by (simp_all add: demo_input)
  have rel: "reliable (sys (daemon ?l))" using o1(2) by (simp add: helper_life_ok)
  have "credential_text (read_attrs ?in2) c = credential_text Map.empty c" for c
    by (simp add: credential_text_def demo_input)
  then show ?thesis
    using credential_store_then_get [OF demo_helper_libs demo_sealing_total helper_life_ok(1-3)
        helper_life_sync [OF o1(1)] rel attrs, of True]
    by (auto simp: demo_input nonempty_def)
qed

theorem credential_never_blocks_witness:
  "\<exists>l1. run demo_rpc helper_env (agent_dial demo_rpc (lit ''/s'') (Some 1) 1 True) (lit ''get'')
      [Some (lit ''host=h'')] demo_locked_life = (Returns (0, []), l1) \<and> undisturbed demo_locked_life l1"
  using credential_never_blocks [OF demo_helper_libs, of helper_env "lit ''/s''" "Some 1" 1 True "lit ''get''"
      "[Some (lit ''host=h'')]" demo_locked_life]
  by (auto simp: demo_locked_life_def helper_life_def)

end
