(* ===== verification/KR_StdioProps.thy ===== *)
theory KR_StdioProps
  imports KR_CredentialProps "HOL-Library.Multiset"
begin

text \<open>
  A session on standard input and output from end to end: the request lines, their handling and the
  bytes written.
\<close>

subsection \<open>What a handler sends\<close>

text \<open>An undisturbed request tells every client the same lines, all of them notifications.\<close>

definition tells :: "'x rpc_ext_scheme \<Rightarrow> agent \<Rightarrow> agent \<Rightarrow> bool" where
  "tells x a b \<longleftrightarrow>
     (\<exists>ns. set ns \<subseteq> range (state_line x) \<and> clients b = map (\<lambda>(j, q). (j, q @ ns)) (clients a))"

lemma tells_same: "clients b = clients a \<Longrightarrow> tells x a b"
  unfolding tells_def by (intro exI [of _ "[]"]) (simp add: case_prod_beta)

lemma tells_state: "clients b = clients (broadcast_state x v a) \<Longrightarrow> tells x a b"
  unfolding tells_def by (intro exI [of _ "[state_line x v]"]) (auto simp: broadcast_state_def broadcast_def)

lemma tells_adopt: "clients c = clients a \<Longrightarrow> tells x a (adopt x s c)"
  by (rule tells_state [where v = False])
    (simp add: adopt_def wake_unlock_waiters_def broadcast_state_def broadcast_def)

lemma acquire_quiet_same: "acquire x w quiet a = Some (u, b) \<Longrightarrow> b = a"
  using UNLOCK_WAIT_pos
  by (cases "session a"; cases w)
    (auto simp: acquire_wait wait_for_unlock_def Let_def wait_loop_Nil wait_check_def is_locked_def
      broadcast_unlock_needed_def)

lemma quiet_sessions_same:
  "with_session x w quiet f a = Some (r, b) \<Longrightarrow> clients b = clients a"
  "read_session x w quiet g a = Some (q, b) \<Longrightarrow> clients b = clients a"
  by (auto simp: with_session_def read_session_def lift_sys_def
      split: option.splits sum.splits prod.splits dest: acquire_quiet_same)

lemma secret_ops_same:
  "secret_get x quiet ps a = Some (r, b) \<Longrightarrow> clients b = clients a"
  "secret_set x quiet ps a = Some (r, b) \<Longrightarrow> clients b = clients a"
  "secret_delete x quiet ps a = Some (r, b) \<Longrightarrow> clients b = clients a"
  "secret_rename x quiet ps a = Some (r, b) \<Longrightarrow> clients b = clients a"
  "secret_totp x quiet ps a = Some (r, b) \<Longrightarrow> clients b = clients a"
  "secret_list x quiet ps a = Some (r, b) \<Longrightarrow> clients b = clients a"
  "secret_generate x quiet ps a = Some (r, b) \<Longrightarrow> clients b = clients a"
  by (auto simp: secret_get_def secret_set_def secret_delete_def secret_rename_def secret_totp_def
      secret_list_def secret_generate_def Let_def split: sum.splits if_splits option.splits prod.splits
      dest!: reply_SomeD dest: quiet_sessions_same acquire_quiet_same)

lemma lifecycle_tells:
  "h_create x ps a = (r, b) \<Longrightarrow> tells x a b"
  "h_unlock x ps a = (r, b) \<Longrightarrow> tells x a b"
  "h_rotate x ps a = (r, b) \<Longrightarrow> tells x a b"
  "do_lock x a = (r, b) \<Longrightarrow> tells x a b"
  "unlock_cancel a = (r, b) \<Longrightarrow> tells x a b"
proof -
  note simps = h_create_def h_unlock_def h_rotate_def lift_sys_def Let_def
  show "h_create x ps a = (r, b) \<Longrightarrow> tells x a b"
    by (auto simp: simps split: sum.splits prod.splits intro: tells_same tells_adopt)
  show "h_unlock x ps a = (r, b) \<Longrightarrow> tells x a b"
    by (auto simp: simps split: sum.splits prod.splits intro: tells_same tells_adopt)
  show "h_rotate x ps a = (r, b) \<Longrightarrow> tells x a b"
    by (auto simp: simps split: sum.splits prod.splits intro: tells_same tells_adopt)
  show "do_lock x a = (r, b) \<Longrightarrow> tells x a b"
    by (auto simp: do_lock_def lock_def broadcast_state_def broadcast_def split: if_splits
        intro: tells_same tells_state [where v = True])
  show "unlock_cancel a = (r, b) \<Longrightarrow> tells x a b"
    by (auto simp: unlock_cancel_def wake_unlock_waiters_def intro: tells_same)
qed

lemma dispatch_tells:
  assumes "dispatch x quiet m ps a = Some (r, b)"
  shows "tells x a b"
proof -
  define c where "c = (if m \<in> set no_touch then a else touch a)"
  have c: "clients c = clients a" by (simp add: c_def)
  have "tells x c b"
    using assms lifecycle_tells(1-3) [of x ps c r b] lifecycle_tells(4) [of x c r b] lifecycle_tells(5) [of c r b x]
      secret_ops_same [of x ps c r b]
    unfolding dispatch_def c_def [symmetric] Let_def
    by (auto split: if_splits intro: tells_same simp: hello_def Let_def)
  with c show ?thesis by (simp add: tells_def)
qed

subsection \<open>Requests in, answers out\<close>

text \<open>The requests among the lines of a session, and the ids of the responses among those sent.\<close>

definition requests_of :: "'x rpc_ext_scheme \<Rightarrow> rstring list \<Rightarrow> Request list" where
  "requests_of x ls = List.map_filter (\<lambda>l. if trim l = [] then None else request_parse x (trim l)) ls"

definition response_ids :: "'x rpc_ext_scheme \<Rightarrow> rstring list \<Rightarrow> int list" where
  "response_ids x ls =
     List.map_filter (\<lambda>l. Option.bind (json_parse x l) (\<lambda>v. Option.bind (json_get (lit ''id'') v) as_u64)) ls"

lemma response_ids_simps [simp]:
  "response_ids x [] = []" "response_ids x (ls @ ms) = response_ids x ls @ response_ids x ms"
  by (simp_all add: response_ids_def List.map_filter_def)

lemma response_ids_notes:
  assumes "json_codec x" "set ns \<subseteq> range (state_line x)"
  shows "response_ids x ns = []"
proof -
  have "json_parse x l = Some v \<longrightarrow> json_get (lit ''id'') v = None" if "l \<in> set ns" for l v
  proof -
    from that assms(2) obtain c where "l = state_line x c" by blast
    with assms(1) show ?thesis by (auto simp: state_line_def notification_def json_codecD)
  qed
  then show ?thesis
    by (fastforce simp: response_ids_def List.map_filter_def filter_empty_conv split: bind_splits)
qed

lemma response_ids_answer:
  assumes "json_codec x"
  shows "response_ids x [response_ok x i v] = [uint i]" "response_ids x [response_err x i e] = [uint i]"
  using json_codecD [OF assms] uint_lt2p [of i]
  by (simp_all add: response_ids_def List.map_filter_def response_ok_def response_err_def)

lemma map_of_queues: "map_of (map (\<lambda>(j, q). (j, f j q)) cs) i = map_option (f i) (map_of cs i)"
  by (induction cs) auto

lemma handle_queue:
  assumes "json_codec x" "handle x quiet i req a = Some b" "map_of (clients a) i = Some q"
  shows "\<exists>q1. map_of (clients b) i = Some q1 \<and> response_ids x q1 = response_ids x q @ [uint (r_id req)]"
proof -
  from assms(2) obtain r c where d: "dispatch x quiet (r_method req) (r_params req) a = Some (r, c)"
    and b: "b = send_to i (case r of Inr v \<Rightarrow> response_ok x (r_id req) v
        | Inl e \<Rightarrow> response_err x (r_id req) (show_err e)) c"
    by (auto simp: handle_def)
  from dispatch_tells [OF d] obtain ns where ns: "set ns \<subseteq> range (state_line x)"
    and c: "clients c = map (\<lambda>(j, q). (j, q @ ns)) (clients a)" by (auto simp: tells_def)
  have "map_of (clients b) i = Some (q @ ns @ [case r of Inr v \<Rightarrow> response_ok x (r_id req) v
        | Inl e \<Rightarrow> response_err x (r_id req) (show_err e)])"
    using assms(3) by (simp add: b clients_send_map c map_of_queues del: map_map list.map_comp)
  then show ?thesis
    using response_ids_notes [OF assms(1) ns] response_ids_answer [OF assms(1)] by (cases r) simp_all
qed

lemma feed_queue:
  assumes "json_codec x"
  shows "feed x i ls a = Some b \<Longrightarrow> map_of (clients a) i = Some q \<Longrightarrow>
    \<exists>q1. map_of (clients b) i = Some q1 \<and>
      response_ids x q1 = response_ids x q @ map (\<lambda>r. uint (r_id r)) (requests_of x ls)"
proof (induction ls arbitrary: a q)
  case Nil
  then show ?case by (simp add: requests_of_def List.map_filter_def)
next
  case (Cons l ls)
  from Cons.prems(1) obtain c where c: "conn_line x quiet i l a = Some c" "feed x i ls c = Some b"
    by (auto split: bind_splits)
  show ?case
  proof (cases "if trim l = [] then None else request_parse x (trim l)")
    case None
    with c(1) have "c = a" by (auto simp: conn_line_def split: if_splits)
    with None Cons c(2) show ?thesis by (simp add: requests_of_def List.map_filter_simps)
  next
    case (Some req)
    with c(1) have "handle x quiet i req a = Some c" by (auto simp: conn_line_def split: if_splits)
    from handle_queue [OF assms this Cons.prems(2)] obtain q1 where
      "map_of (clients c) i = Some q1" "response_ids x q1 = response_ids x q @ [uint (r_id req)]" by blast
    with Cons.IH [OF c(2)] Some show ?thesis by (simp add: requests_of_def List.map_filter_simps)
  qed
qed

lemma requests_of_mset: "mset ms = mset ls \<Longrightarrow> mset (requests_of x ms) = mset (requests_of x ls)"
  by (simp add: requests_of_def List.map_filter_def)



end
