(* ===== verification/KR_Concurrency.thy ===== *)
theory KR_Concurrency
  imports KR_Handlers
begin

text \<open>
  The threads of \<open>server.rs\<close> around the lock state, one mutex access or broadcast at a time: callers of
  \<open>wait_for_unlock\<close>, \<open>unlock\<close> once its password is accepted, \<open>unlock_cancel\<close> and \<open>do_lock\<close>.
  \<open>KR_Agent\<close> takes each of these as one step; here they interleave.
\<close>

subsection \<open>Threads and their steps\<close>

text \<open>
  Where a thread is. A waiter carries its deadline and the generation it captured; in \<open>WCheck\<close>,
  \<open>WGen\<close> and \<open>WTime\<close> it holds the generation mutex. \<open>wait_timeout\<close> gives the mutex up and joins the sleepers in
  one step.
\<close>

datatype pc =
    WStart                    \<comment> \<open>\<open>if !self.is_locked()\<close>\<close>
  | WPrompt                   \<comment> \<open>\<open>broadcast_unlock_needed\<close>, the deadline\<close>
  | WCapture nat              \<comment> \<open>\<open>unlock_gen.lock()\<close>, \<open>start = *gen\<close>\<close>
  | WCheck nat u64            \<comment> \<open>the loop: \<open>is_locked\<close>\<close>
  | WGen nat u64              \<comment> \<open>found locked: \<open>*gen != start\<close>\<close>
  | WTime nat u64             \<comment> \<open>\<open>now >= deadline\<close>, or sleep\<close>
  | WAsleep nat u64           \<comment> \<open>in \<open>wait_timeout\<close>\<close>
  | WWake nat u64             \<comment> \<open>woken, taking the mutex again\<close>
  | WDone bool
  | USet                      \<comment> \<open>\<open>*session = Some(..)\<close>\<close>
  | UAnnounce                 \<comment> \<open>\<open>broadcast_state(false)\<close>\<close>
  | UNotify                   \<comment> \<open>\<open>notify_all\<close>\<close>
  | CBump                     \<comment> \<open>\<open>*gen += 1\<close> under the generation mutex\<close>
  | CNotify
  | LTake                     \<comment> \<open>\<open>session.take()\<close>\<close>
  | LAnnounce                 \<comment> \<open>\<open>broadcast_state(true)\<close>, if it was unlocked\<close>
  | Finished

text \<open>
  \<open>announced\<close> is the last state the clients were told; \<open>holder\<close> the thread inside the generation
  mutex; \<open>now\<close> the monotonic clock.
\<close>

record park =
  unlocked :: bool
  gen :: u64
  holder :: "nat option"
  announced :: bool
  now :: nat
  thr :: "nat \<Rightarrow> pc option"

definition goto :: "nat \<Rightarrow> pc \<Rightarrow> park \<Rightarrow> park" where
  "goto p c s = s\<lparr>thr := (thr s)(p \<mapsto> c)\<rparr>"

fun rouse :: "pc \<Rightarrow> pc" where
  "rouse (WAsleep d g) = WWake d g"
| "rouse c = c"

definition notify_all :: "park \<Rightarrow> park" where
  "notify_all s = s\<lparr>thr := (\<lambda>p. map_option rouse (thr s p))\<rparr>"

text \<open>The next step of a thread, by its request; one that waits for the mutex stays where it is.\<close>

definition wait_step :: "nat \<Rightarrow> pc \<Rightarrow> park \<Rightarrow> park" where
  "wait_step p c s =
     (case c of
        WStart \<Rightarrow> if unlocked s then goto p (WDone True) s else goto p WPrompt s
      | WPrompt \<Rightarrow> goto p (WCapture (now s + UNLOCK_WAIT)) s
      | WCapture d \<Rightarrow>
          if holder s = None then goto p (WCheck d (gen s)) (s\<lparr>holder := Some p\<rparr>) else s
      | WCheck d g \<Rightarrow>
          if unlocked s then goto p (WDone True) (s\<lparr>holder := None\<rparr>) else goto p (WGen d g) s
      | WGen d g \<Rightarrow>
          if gen s \<noteq> g then goto p (WDone False) (s\<lparr>holder := None\<rparr>) else goto p (WTime d g) s
      | WTime d g \<Rightarrow>
          if d \<le> now s then goto p (WDone False) (s\<lparr>holder := None\<rparr>)
          else goto p (WAsleep d g) (s\<lparr>holder := None\<rparr>)
      | WAsleep d g \<Rightarrow> if d \<le> now s then goto p (WWake d g) s else s
      | WWake d g \<Rightarrow>
          if holder s = None then goto p (WCheck d g) (s\<lparr>holder := Some p\<rparr>) else s
      | _ \<Rightarrow> s)"

definition unlock_step :: "nat \<Rightarrow> pc \<Rightarrow> park \<Rightarrow> park" where
  "unlock_step p c s =
     (case c of
        USet \<Rightarrow> goto p UAnnounce (s\<lparr>unlocked := True\<rparr>)
      | UAnnounce \<Rightarrow> goto p UNotify (s\<lparr>announced := True\<rparr>)
      | UNotify \<Rightarrow> goto p Finished (notify_all s)
      | _ \<Rightarrow> s)"

definition cancel_step :: "nat \<Rightarrow> pc \<Rightarrow> park \<Rightarrow> park" where
  "cancel_step p c s =
     (case c of
        CBump \<Rightarrow> if holder s = None then goto p CNotify (s\<lparr>gen := gen s + 1\<rparr>) else s
      | CNotify \<Rightarrow> goto p Finished (notify_all s)
      | _ \<Rightarrow> s)"

definition lock_step :: "nat \<Rightarrow> pc \<Rightarrow> park \<Rightarrow> park" where
  "lock_step p c s =
     (case c of
        LTake \<Rightarrow> if unlocked s then goto p LAnnounce (s\<lparr>unlocked := False\<rparr>) else goto p Finished s
      | LAnnounce \<Rightarrow> goto p Finished (s\<lparr>announced := False\<rparr>)
      | _ \<Rightarrow> s)"

definition park_call :: "nat \<Rightarrow> park \<Rightarrow> park" where
  "park_call p s =
     (case thr s p of
        None \<Rightarrow> s
      | Some c \<Rightarrow>
          if c \<in> {USet, UAnnounce, UNotify} then unlock_step p c s
          else if c \<in> {CBump, CNotify} then cancel_step p c s
          else if c \<in> {LTake, LAnnounce} then lock_step p c s
          else wait_step p c s)"

lemmas park_steps = park_call_def wait_step_def unlock_step_def cancel_step_def lock_step_def

definition entry_points :: "pc set" where
  "entry_points = {WStart, USet, CBump, LTake}"

inductive park_step :: "park \<Rightarrow> park \<Rightarrow> bool" where
  park_spawn: "thr s p = None \<Longrightarrow> c \<in> entry_points \<Longrightarrow> park_step s (goto p c s)"
| park_run: "park_step s (park_call p s)"
| park_spurious: "thr s p = Some (WAsleep d g) \<Longrightarrow> park_step s (goto p (WWake d g) s)"
| park_tick: "park_step s (s\<lparr>now := now s + d\<rparr>)"

definition park_start :: "park \<Rightarrow> bool" where
  "park_start s \<longleftrightarrow> thr s = (\<lambda>_. None) \<and> holder s = None \<and> announced s = unlocked s"

subsection \<open>The invariant\<close>

fun holds :: "pc \<Rightarrow> bool" where
  "holds (WCheck d g) = True"
| "holds (WGen d g) = True"
| "holds (WTime d g) = True"
| "holds _ = False"

fun deadline_of :: "pc \<Rightarrow> nat option" where
  "deadline_of (WCapture d) = Some d"
| "deadline_of (WCheck d g) = Some d"
| "deadline_of (WGen d g) = Some d"
| "deadline_of (WTime d g) = Some d"
| "deadline_of (WAsleep d g) = Some d"
| "deadline_of (WWake d g) = Some d"
| "deadline_of _ = None"

text \<open>
  The mutex is held exactly by the thread inside it; deadlines are at most the waiting time away;
  and a waiter sleeps through a change of the generation only while its author has yet to notify.
\<close>

definition mutex_inv :: "park \<Rightarrow> bool" where
  "mutex_inv s \<longleftrightarrow> (\<forall>p. holder s = Some p \<longleftrightarrow> (\<exists>c. thr s p = Some c \<and> holds c))"

definition deadline_inv :: "park \<Rightarrow> bool" where
  "deadline_inv s \<longleftrightarrow>
     (\<forall>p c d. thr s p = Some c \<longrightarrow> deadline_of c = Some d \<longrightarrow> d \<le> now s + UNLOCK_WAIT)"

definition cancel_inv :: "park \<Rightarrow> bool" where
  "cancel_inv s \<longleftrightarrow>
     (\<forall>p d g. thr s p = Some (WTime d g) \<longrightarrow> gen s = g) \<and>
     (\<forall>p d g. thr s p = Some (WAsleep d g) \<longrightarrow> gen s \<noteq> g \<longrightarrow> (\<exists>c. thr s c = Some CNotify))"

definition park_inv :: "park \<Rightarrow> bool" where
  "park_inv s \<longleftrightarrow> mutex_inv s \<and> deadline_inv s \<and> cancel_inv s"

lemma goto_simps [simp]:
  "thr (goto p c s) q = (if q = p then Some c else thr s q)" "holder (goto p c s) = holder s"
  "gen (goto p c s) = gen s" "now (goto p c s) = now s" "unlocked (goto p c s) = unlocked s"
  "announced (goto p c s) = announced s"
  by (simp_all add: goto_def)

lemma notify_simps [simp]:
  "thr (notify_all s) q = map_option rouse (thr s q)" "holder (notify_all s) = holder s"
  "gen (notify_all s) = gen s" "now (notify_all s) = now s" "unlocked (notify_all s) = unlocked s"
  "announced (notify_all s) = announced s"
  by (simp_all add: notify_all_def)

lemma rouse_simps [simp]: "holds (rouse c) = holds c" "deadline_of (rouse c) = deadline_of c"
  "rouse c \<noteq> WAsleep d g" "WAsleep d g \<noteq> rouse c"
  by (cases c; simp)+

lemma thr_updates [simp]:
  "thr (s\<lparr>holder := h\<rparr>) = thr s" "thr (s\<lparr>gen := g\<rparr>) = thr s" "thr (s\<lparr>unlocked := u\<rparr>) = thr s"
  "thr (s\<lparr>announced := u\<rparr>) = thr s" "thr (s\<lparr>now := n\<rparr>) = thr s"
  by simp_all

lemma mutex_unique:
  "mutex_inv s \<Longrightarrow> thr s p = Some c \<Longrightarrow> holds c \<Longrightarrow> thr s q = Some d \<Longrightarrow> holds d \<Longrightarrow> q = p"
  unfolding mutex_inv_def by (metis option.inject)

lemma mutex_inv_updates [simp]:
  "mutex_inv (s\<lparr>gen := g\<rparr>) = mutex_inv s" "mutex_inv (s\<lparr>unlocked := u\<rparr>) = mutex_inv s"
  "mutex_inv (s\<lparr>announced := u\<rparr>) = mutex_inv s" "mutex_inv (s\<lparr>now := n\<rparr>) = mutex_inv s"
  by (simp_all add: mutex_inv_def)

lemma mutex_stay:
  "mutex_inv s \<Longrightarrow> thr s p = Some c \<Longrightarrow> holds c' = holds c \<Longrightarrow> mutex_inv (goto p c' s)"
  by (auto simp: mutex_inv_def)

lemma mutex_take:
  "mutex_inv s \<Longrightarrow> holder s = None \<Longrightarrow> holds c' \<Longrightarrow> mutex_inv (goto p c' (s\<lparr>holder := Some p\<rparr>))"
  by (auto simp: mutex_inv_def)

lemma mutex_release:
  assumes "mutex_inv s" "thr s p = Some c" "holds c" "\<not> holds c'"
  shows "mutex_inv (goto p c' (s\<lparr>holder := None\<rparr>))"
proof -
  have "\<not> holds d" if "thr s q = Some d" "q \<noteq> p" for q d
    using that mutex_unique [OF assms(1-3) that(1)] by blast
  with assms(4) show ?thesis by (auto simp: mutex_inv_def)
qed

lemma mutex_notify: "mutex_inv (notify_all s) = mutex_inv s"
proof -
  have "(\<exists>c. map_option rouse (thr s p) = Some c \<and> holds c) \<longleftrightarrow> (\<exists>c. thr s p = Some c \<and> holds c)" for p
    by (cases "thr s p") auto
  then show ?thesis by (simp add: mutex_inv_def del: map_option_eq_Some)
qed

lemma mutex_call: "mutex_inv s \<Longrightarrow> mutex_inv (park_call p s)"
proof (cases "thr s p")
  case (Some c)
  assume inv: "mutex_inv s"
  have "mutex_inv (goto p Finished (notify_all s))" if "\<not> holds c"
    by (rule mutex_stay [where c = "rouse c"]) (use that inv Some in \<open>simp_all add: mutex_notify\<close>)
  then show ?thesis
    using Some inv by (cases c)
      (simp_all add: park_steps mutex_stay mutex_take mutex_release [OF inv Some])
qed (simp add: park_steps)

lemma deadline_call: "deadline_inv s \<Longrightarrow> deadline_inv (park_call p s)"
proof (cases "thr s p")
  case (Some c)
  assume "deadline_inv s"
  with Some show ?thesis
    by (cases c) (auto simp: park_steps deadline_inv_def)
qed (simp add: park_steps)

lemma cancel_inv_updates [simp]:
  "cancel_inv (s\<lparr>holder := h\<rparr>) = cancel_inv s" "cancel_inv (s\<lparr>unlocked := u\<rparr>) = cancel_inv s"
  "cancel_inv (s\<lparr>announced := u\<rparr>) = cancel_inv s" "cancel_inv (s\<lparr>now := n\<rparr>) = cancel_inv s"
  by (simp_all add: cancel_inv_def)

lemma rouse_WTime [simp]: "rouse c = WTime d g \<longleftrightarrow> c = WTime d g"
  by (cases c) simp_all

lemma cancel_inv_goto:
  assumes "cancel_inv s" "thr s p \<noteq> Some CNotify"
    and "\<And>d g. c = WTime d g \<or> c = WAsleep d g \<Longrightarrow> gen s = g"
  shows "cancel_inv (goto p c s)"
  unfolding cancel_inv_def
proof (intro conjI allI impI)
  fix q d g
  show "gen (goto p c s) = g" if "thr (goto p c s) q = Some (WTime d g)"
    using that assms by (auto simp: cancel_inv_def split: if_splits)
  show "\<exists>c'. thr (goto p c s) c' = Some CNotify"
    if "thr (goto p c s) q = Some (WAsleep d g)" "gen (goto p c s) \<noteq> g"
  proof -
    from that assms(3) have "thr s q = Some (WAsleep d g)" by (auto split: if_splits)
    moreover have "gen s \<noteq> g" using that(2) by simp
    ultimately obtain r where "thr s r = Some CNotify"
      using assms(1) unfolding cancel_inv_def by blast
    with assms(2) have "thr (goto p c s) r = Some CNotify" by auto
    then show ?thesis ..
  qed
qed

lemma cancel_inv_notify: "cancel_inv s \<Longrightarrow> cancel_inv (goto p Finished (notify_all s))"
  by (auto simp: cancel_inv_def)

lemma cancel_call: "mutex_inv s \<Longrightarrow> cancel_inv s \<Longrightarrow> cancel_inv (park_call p s)"
proof (cases "thr s p")
  case (Some c)
  assume mutex: "mutex_inv s" and inv: "cancel_inv s"
  have stay: "cancel_inv (goto p c' t)"
    if "c \<noteq> CNotify" "cancel_inv t" "thr t = thr s" "gen t = gen s"
      "\<And>d g. c' = WTime d g \<or> c' = WAsleep d g \<Longrightarrow> gen s = g" for c' t
    using Some that by (intro cancel_inv_goto) auto
  have time: "gen s = g" if "c = WTime d g" for d g
    using inv Some that by (auto simp: cancel_inv_def)
  show ?thesis
  proof (cases c)
    case CBump
    have "thr s q \<noteq> Some (WTime d g)" if "holder s = None" for q d g
      using mutex that holds.simps(3) unfolding mutex_inv_def by (metis option.distinct(1))
    with CBump Some inv show ?thesis by (auto simp: park_steps cancel_inv_def)
  next
    case CNotify
    then show ?thesis using Some inv by (simp add: park_steps cancel_inv_notify)
  next
    case UNotify
    then show ?thesis using Some inv by (simp add: park_steps cancel_inv_notify)
  qed (use Some inv time in \<open>auto simp: park_steps intro!: stay\<close>)
qed (simp add: park_steps)

interpretation parks: invariant_system park_start park_step park_inv
proof
  show "park_inv s" if "park_start s" for s
    using that by (simp add: park_start_def park_inv_def mutex_inv_def deadline_inv_def cancel_inv_def)
  show "park_inv t" if "park_inv s" "park_step s t" for s t
    using that(2)
  proof cases
    case (park_spawn p c)
    then have c: "\<not> holds c" "deadline_of c = None" "c \<noteq> WTime d g" "c \<noteq> WAsleep d g" for d g
      by (auto simp: entry_points_def)
    with that(1) park_spawn show ?thesis
      by (auto simp: park_inv_def mutex_inv_def deadline_inv_def intro!: cancel_inv_goto)
  next
    case (park_run p)
    with that(1) show ?thesis
      by (simp add: park_inv_def mutex_call deadline_call cancel_call)
  next
    case (park_spurious p d g)
    with that(1) show ?thesis
      by (auto simp: park_inv_def deadline_inv_def intro!: cancel_inv_goto mutex_stay [where c = "WAsleep d g"])
  next
    case (park_tick d)
    with that(1) show ?thesis
      by (fastforce simp: park_inv_def deadline_inv_def)
  qed
qed

subsection \<open>Rotation and a concurrent write\<close>

text \<open>
  \<open>rotate\<close> in its two parts: the file, done without the session mutex, and then the session. Between
  them another request may use the old session.
\<close>

definition rotate_file :: "'x rpc_ext_scheme \<Rightarrow> RotateParam \<Rightarrow> agent \<Rightarrow> (err + Session) \<times> agent" where
  "rotate_file x p a =
     lift_sys (vault_rotate x (c_vault_path (cfg a)) (as_bytes (rp_old p)) (as_bytes (rp_new p))
       (c_kdf (cfg a))) a"

lemma h_rotate_parts:
  "de_rotate x ps = Inr p \<Longrightarrow>
   h_rotate x ps a = (case rotate_file x p a of
     (Inl e, a1) \<Rightarrow> (Inl e, a1) | (Inr s, a1) \<Rightarrow> (Inr (JObj []), adopt x s a1))"
  by (simp add: h_rotate_def rotate_file_def)

end
