(* ===== verification/KR_RaceProps.thy ===== *)
theory KR_RaceProps
  imports KR_Concurrency KR_StoreProps
begin

text \<open>
  Properties of the interleavings \<open>KR_Concurrency\<close> models: what the parking protocol guarantees, and
  what it and the rotation leave open.
\<close>

subsection \<open>Parking\<close>

text \<open>C13. A dismissal is never lost on a request that is asleep. In every reachable state, if the
  generation has moved past the one a sleeper captured, the thread that moved it has yet to notify;
  its notification wakes the sleeper, which, once it has the mutex and finds the vault still locked,
  ends with \<open>locked\<close>. And no sleeper's deadline is more than 120 seconds away.\<close>

theorem cancel_not_lost:
  assumes "reach park_start park_step s" "thr s w = Some (WAsleep d g)"
  shows "d \<le> now s + UNLOCK_WAIT \<and>
    (gen s \<noteq> g \<longrightarrow> (\<exists>c. thr s c = Some CNotify \<and>
      (holder s = None \<longrightarrow> \<not> unlocked s \<longrightarrow>
         thr (park_call w (park_call w (park_call w (park_call c s)))) w = Some (WDone False))))"
proof -
  have inv: "park_inv s" using assms(1) by (rule parks.reach_inv)
  then have "d \<le> now s + UNLOCK_WAIT"
    using assms(2) by (auto simp: park_inv_def deadline_inv_def)
  moreover have "\<exists>c. thr s c = Some CNotify" if "gen s \<noteq> g"
    using inv assms(2) that unfolding park_inv_def cancel_inv_def by blast
  moreover have "thr (park_call w (park_call w (park_call w (park_call c s)))) w = Some (WDone False)"
    if "thr s c = Some CNotify" "holder s = None" "\<not> unlocked s" "gen s \<noteq> g" for c
  proof -
    have "c \<noteq> w" using that(1) assms(2) by auto
    then show ?thesis using that assms(2) by (simp add: park_steps)
  qed
  ultimately show ?thesis by blast
qed

text \<open>A state with two threads at most, and its steps.\<close>

definition two :: "bool \<Rightarrow> u64 \<Rightarrow> nat option \<Rightarrow> bool \<Rightarrow> pc option \<Rightarrow> pc option \<Rightarrow> park" where
  "two u g h v c1 c2 =
     \<lparr>unlocked = u, gen = g, holder = h, announced = v, now = 0,
      thr = (\<lambda>p. if p = 1 then c1 else if p = 2 then c2 else None)\<rparr>"

lemma two_fields [simp]:
  "unlocked (two u g h v c1 c2) = u" "gen (two u g h v c1 c2) = g" "holder (two u g h v c1 c2) = h"
  "announced (two u g h v c1 c2) = v" "now (two u g h v c1 c2) = 0"
  "thr (two u g h v c1 c2) p = (if p = 1 then c1 else if p = 2 then c2 else None)"
  by (simp_all add: two_def)

lemma two_steps [simp]:
  "(two u g h v c1 c2)\<lparr>unlocked := u'\<rparr> = two u' g h v c1 c2"
  "(two u g h v c1 c2)\<lparr>gen := g'\<rparr> = two u g' h v c1 c2"
  "(two u g h v c1 c2)\<lparr>holder := h'\<rparr> = two u g h' v c1 c2"
  "(two u g h v c1 c2)\<lparr>announced := v'\<rparr> = two u g h v' c1 c2"
  "goto (Suc 0) c (two u g h v c1 c2) = two u g h v (Some c) c2"
  "goto 2 c (two u g h v c1 c2) = two u g h v c1 (Some c)"
  "notify_all (two u g h v c1 c2) = two u g h v (map_option rouse c1) (map_option rouse c2)"
  by (auto simp: two_def goto_def notify_all_def)

lemma UNLOCK_WAIT_bounds [simp]: "0 < UNLOCK_WAIT" "UNLOCK_WAIT \<noteq> 0"
  by (simp_all add: UNLOCK_WAIT_def NANOS_def)

text \<open>Runs of the system: a thread is started, or makes its next step.\<close>

abbreviation parks_reach :: "park \<Rightarrow> bool" where
  "parks_reach \<equiv> reach park_start park_step"

lemma reach_calm: "parks_reach (two False 0 None False None None)"
  by (rule reach_init) (simp add: park_start_def fun_eq_iff)

lemma reach_begin:
  "parks_reach s \<Longrightarrow> thr s p = None \<Longrightarrow> c \<in> entry_points \<Longrightarrow> parks_reach (goto p c s)"
  by (rule reach_step [where s = s]) (simp_all add: park_spawn)

lemma reach_runs: "parks_reach s \<Longrightarrow> parks_reach (fold park_call ps s)"
  by (induction ps arbitrary: s) (auto intro: reach_step park_run)

lemma reach_waiter: "parks_reach (two False 0 None False (Some WStart) None)"
  using reach_begin [OF reach_calm, of 1 WStart] by (simp add: entry_points_def)

lemma reach_second:
  "parks_reach (two u g h v c1 None) \<Longrightarrow> c \<in> entry_points \<Longrightarrow> parks_reach (two u g h v c1 (Some c))"
  using reach_begin [of "two u g h v c1 None" 2 c] by simp

theorem cancel_not_lost_witness:
  "\<exists>s. parks_reach s \<and> thr s 1 = Some (WAsleep UNLOCK_WAIT 0) \<and> gen s = 1 \<and>
     thr (park_call 1 (park_call 1 (park_call 1 (park_call 2 s)))) 1 = Some (WDone False)"
proof -
  let ?s = "two False 1 None False (Some (WAsleep UNLOCK_WAIT 0)) (Some CNotify)"
  have "parks_reach (two False 0 None False (Some (WAsleep UNLOCK_WAIT 0)) None)"
    using reach_runs [OF reach_waiter, of "[1, 1, 1, 1, 1, 1]"] by (simp add: park_steps)
  then have "parks_reach (two False 0 None False (Some (WAsleep UNLOCK_WAIT 0)) (Some CBump))"
    by (rule reach_second) (simp add: entry_points_def)
  from reach_runs [OF this, of "[2]"] have r: "parks_reach ?s" by (simp add: park_steps)
  have "c = 2" if "thr ?s c = Some CNotify" for c using that by (simp split: if_splits)
  moreover have "thr ?s 1 = Some (WAsleep UNLOCK_WAIT 0)" by simp
  ultimately show ?thesis using cancel_not_lost [OF r, of 1 UNLOCK_WAIT 0] r
    by (intro exI [of _ ?s]) fastforce
qed

text \<open>C37. What the protocol leaves open. (1) An unlock can be missed: it notifies without the
  generation mutex, so a request that found the vault locked and has yet to fall asleep is not woken;
  the vault is unlocked, every thread but that sleeper has finished, and nothing moves until its full
  120 seconds are over. (2) A dismissal can be missed: one that arrives after the prompt was sent and
  before the request reads the generation leaves the request asleep for its full time.\<close>

theorem wakeups_missed:
  "(\<exists>s g. parks_reach s \<and> unlocked s \<and> thr s 1 = Some (WAsleep (now s + UNLOCK_WAIT) g) \<and>
      thr s 2 = Some Finished \<and> (\<forall>p. park_call p s = s)) \<and>
   (\<exists>s0 s d g. parks_reach s0 \<and> thr s0 1 = Some (WCapture d) \<and> thr s0 2 = Some CBump \<and>
      park_step\<^sup>*\<^sup>* s0 s \<and> thr s 1 = Some (WAsleep (now s + UNLOCK_WAIT) g) \<and>
      thr s 2 = Some Finished \<and> (\<forall>p. park_call p s = s))"
proof
  let ?s = "two True 0 None True (Some (WAsleep UNLOCK_WAIT 0)) (Some Finished)"
  have "parks_reach (two False 0 (Some 1) False (Some (WGen UNLOCK_WAIT 0)) None)"
    using reach_runs [OF reach_waiter, of "[1, 1, 1, 1]"] by (simp add: park_steps)
  then have "parks_reach (two False 0 (Some 1) False (Some (WGen UNLOCK_WAIT 0)) (Some USet))"
    by (rule reach_second) (simp add: entry_points_def)
  from reach_runs [OF this, of "[2, 2, 2, 1, 1]"] have "parks_reach ?s" by (simp add: park_steps)
  moreover have "park_call p ?s = ?s" for p by (simp add: park_steps)
  ultimately show "\<exists>s g. parks_reach s \<and> unlocked s \<and> thr s 1 = Some (WAsleep (now s + UNLOCK_WAIT) g) \<and>
      thr s 2 = Some Finished \<and> (\<forall>p. park_call p s = s)"
    by (intro exI [of _ ?s]) auto
next
  let ?early = "two False 0 None False (Some (WCapture UNLOCK_WAIT)) (Some CBump)"
  let ?late = "two False 1 None False (Some (WAsleep UNLOCK_WAIT 1)) (Some Finished)"
  have "parks_reach (two False 0 None False (Some (WCapture UNLOCK_WAIT)) None)"
    using reach_runs [OF reach_waiter, of "[1, 1]"] by (simp add: park_steps)
  then have r: "parks_reach ?early" by (rule reach_second) (simp add: entry_points_def)
  have run: "park_step\<^sup>*\<^sup>* t (fold park_call ps t)" for ps t
    by (induction ps arbitrary: t) (auto intro: converse_rtranclp_into_rtranclp park_run)
  have "park_step\<^sup>*\<^sup>* ?early ?late"
    using run [of ?early "[2, 2, 1, 1, 1, 1]"] by (simp add: park_steps)
  moreover have "park_call p ?late = ?late" for p by (simp add: park_steps)
  ultimately show "\<exists>s0 s d g. parks_reach s0 \<and> thr s0 1 = Some (WCapture d) \<and> thr s0 2 = Some CBump \<and>
      park_step\<^sup>*\<^sup>* s0 s \<and> thr s 1 = Some (WAsleep (now s + UNLOCK_WAIT) g) \<and>
      thr s 2 = Some Finished \<and> (\<forall>p. park_call p s = s)"
    using r by (intro exI [of _ ?early] exI [of _ ?late]) auto
qed

text \<open>C38. The announcements of an unlock and of a lock are not ordered with their effects: both can have
  finished with the vault locked and every client told last that it is unlocked.\<close>

theorem announcement_race:
  "\<exists>s. parks_reach s \<and> \<not> unlocked s \<and> announced s \<and> ran (thr s) = {Finished}"
proof -
  have "parks_reach (two False 0 None False (Some USet) None)"
    using reach_begin [OF reach_calm, of 1 USet] by (simp add: entry_points_def)
  then have "parks_reach (two False 0 None False (Some USet) (Some LTake))"
    by (rule reach_second) (simp add: entry_points_def)
  from reach_runs [OF this, of "[1, 2, 2, 1, 1]"]
  have "parks_reach (two False 0 None True (Some Finished) (Some Finished))"
    by (simp add: park_steps)
  then show ?thesis
    by (intro exI [of _ "two False 0 None True (Some Finished) (Some Finished)"])
      (auto simp: ran_def intro: exI [of _ "1 :: nat"])
qed

subsection \<open>Rotation against a write\<close>

text \<open>C15. Rotating the password while another client writes can undo the rotation on disk and lose the
  write. If a \<open>secret.set\<close> runs between the rotation's write of the file and its change of the session,
  both clients are told that all went well, but the file then opens with the old password, holding the
  written secret, while the session - which the next save writes - is the rotated one without it.\<close>

theorem rotate_set_race:
  assumes libs: "aead_ok x" "body_codec x" "sealing_total x"
    and sync: "in_sync x (as_bytes (rp_old rp)) a s" and rel: "reliable (sys a)"
    and kdf: "\<forall>sl. length sl = SALT_LEN \<longrightarrow> (\<exists>k. derive_key x (as_bytes (rp_new rp)) sl (c_kdf (cfg a)) = Inr k)"
    and set: "de_set x ps = Inr p" "\<not> blank (sp_name p)" "sp_value p = Some v"
  shows "\<exists>s2 a1 a2 e f s1. rotate_file x rp a = (Inr s2, a1) \<and>
    dispatch x quiet (lit ''secret.set'') ps a1 = Some (Inr (JObj []), a2) \<and>
    (let b = adopt x s2 a2 in
      files (disk (sys b)) (v_file (c_vault_path (cfg a))) = Some f \<and>
      decode_vault x (as_bytes (rp_old rp)) (content f) = Inr s1 \<and>
      store_of s1 = (store_of s)(sp_name p \<mapsto> e) \<and> e_value e = v \<and>
      session b = Some s2 \<and> keyed_by x (as_bytes (rp_new rp)) s2 \<and> store_of s2 = store_of s)"
proof -
  let ?vp = "c_vault_path (cfg a)"
  from sync obtain f0 where s: "session a = Some s" "session_ok s" "keyed_by x (as_bytes (rp_old rp)) s"
    and f0: "files (disk (sys a)) (v_file ?vp) = Some f0" "seals x s (content f0)"
    by (auto simp: in_sync_def)
  have dec: "decode_vault x (as_bytes (rp_old rp)) (content f0) = Inr s"
    by (rule decode_sealed [OF libs(1,2) s(2,3) f0(2)])
  have seal: "\<forall>b key sl. sealable x b key sl (c_kdf (cfg a))" using libs(3) by (simp add: sealing_total_def)
  obtain s2 o1 where rot: "vault_rotate x ?vp (as_bytes (rp_old rp)) (as_bytes (rp_new rp)) (c_kdf (cfg a)) (sys a) =
      (Inr s2, o1)" and rel1: "reliable o1"
    by (rule vault_rotate_reliable [OF rel f0(1) dec kdf seal])
  have s2: "store_of s2 = store_of s" "keyed_by x (as_bytes (rp_new rp)) s2"
    using rot by (rule vault_rotate_Inr; use f0(1) dec in \<open>auto simp: store_of_def\<close>)+
  let ?a1 = "a\<lparr>sys := o1\<rparr>"
  have rotf: "rotate_file x rp a = (Inr s2, ?a1)" using rot by (simp add: rotate_file_def lift_sys_def)
  obtain s1 where op: "set_op p (unix o1) s = (Inr (), s1)"
    using set(3) by (cases "bt_get (entries (body s)) (sp_name p)")
      (auto simp: set_op_def Let_def split: option.splits)
  have wf: "bt_wf (entries (body s))" using s(2) by (simp add: session_ok_def)
  have "store_of s1 = snd (spec_set p (unix o1) (store_of s))"
    using implementsD(1) [OF set_op_implements [OF set(2)] wf op] by simp
  moreover have "\<exists>e. snd (spec_set p (unix o1) (store_of s)) = (store_of s)(sp_name p \<mapsto> e) \<and> e_value e = v"
    using set(2,3) by (cases "store_of s (sp_name p)")
      (simp add: spec_set_def, rule exI, rule conjI [OF refl], simp add: new_entry_def)+
  ultimately obtain e where st: "store_of s1 = (store_of s)(sp_name p \<mapsto> e)" "e_value e = v" by auto
  have "session (touch ?a1) = Some s" "reliable (sys (touch ?a1))" "set_op p (unix (sys (touch ?a1))) s = (Inr (), s1)"
    using s(1) rel1 op by simp_all
  from with_session_saves [OF set_op_implements [OF set(2)] this(1) s(2,3) this(2) libs(3) this(3), of "sp_wait p"]
  obtain o2 where w: "with_session x (sp_wait p) quiet (set_op p) (touch ?a1) =
      Some (Inr (), (touch ?a1)\<lparr>session := Some s1, sys := o2\<rparr>)"
    and sync1: "in_sync x (as_bytes (rp_old rp)) ((touch ?a1)\<lparr>session := Some s1, sys := o2\<rparr>) s1" by blast
  let ?a2 = "(touch ?a1)\<lparr>session := Some s1, sys := o2\<rparr>"
  have disp: "dispatch x quiet (lit ''secret.set'') ps ?a1 = Some (Inr (JObj []), ?a2)"
    using w set(1,2) by (simp add: dispatch_methods secret_set_def)
  from sync1 obtain f where f: "files (disk o2) (v_file ?vp) = Some f" "seals x s1 (content f)" "session_ok s1"
    "keyed_by x (as_bytes (rp_old rp)) s1" by (auto simp: in_sync_def)
  have "decode_vault x (as_bytes (rp_old rp)) (content f) = Inr s1"
    by (rule decode_sealed [OF libs(1,2) f(3,4,2)])
  then show ?thesis
    using rotf disp f(1) st s2
    by (intro exI [of _ s2] exI [of _ ?a1] exI [of _ ?a2] exI [of _ e] exI [of _ f] exI [of _ s1])
      (simp add: Let_def adopt_def wake_unlock_waiters_def broadcast_state_def)
qed

theorem rotate_set_race_witness:
  "\<exists>o1 s2 a1 a2. rotate_file demo_rpc \<lparr>rp_old = [1], rp_new = [7]\<rparr> (demo_agent o1) = (Inr s2, a1) \<and>
     dispatch demo_rpc quiet (lit ''secret.set'') (set_ps ''git/h'' ''t'') a1 = Some (Inr (JObj []), a2) \<and>
     session (adopt demo_rpc s2 a2) = Some s2 \<and> store_of s2 (lit ''git/h'') = None"
proof -
  obtain o1 where o1: "in_sync demo_rpc [1] (demo_agent o1) (demo_session [1] [2])" "reliable o1"
    by (rule demo_in_sync)
  let ?rp = "\<lparr>rp_old = [1], rp_new = [7]\<rparr> :: RotateParam"
  have b: "as_bytes [1] = [1]" "as_bytes [7] = [7]" by (simp_all add: utf8_char_def)
  have sync: "in_sync demo_rpc (as_bytes (rp_old ?rp)) (demo_agent o1) (demo_session [1] [2])"
    "reliable (sys (demo_agent o1))" using o1 b by simp_all
  have k: "\<forall>sl. length sl = SALT_LEN \<longrightarrow>
      (\<exists>k. derive_key demo_rpc (as_bytes (rp_new ?rp)) sl (c_kdf (cfg (demo_agent o1))) = Inr k)"
    by (subst demo_rpc_lib) (simp add: demo_cfg_def lib_derive demo_params_def)
  have set: "de_set demo_rpc (set_ps ''git/h'' ''t'') =
      Inr \<lparr>sp_name = lit ''git/h'', sp_value = Some (lit ''t''), sp_meta = None, sp_wait = False\<rparr>"
    by simp
  have "\<not> blank (lit ''git/h'')" by (simp add: blank_lit is_whitespace_def)
  moreover have "store_of (demo_session [1] [2]) (lit ''git/h'') = None"
    by (simp add: store_of_def demo_session_def)
  ultimately show ?thesis
    using rotate_set_race [OF demo_rpc_aead_ok demo_rpc_body_codec demo_sealing_total sync k set]
    by (fastforce simp: Let_def)
qed

end
