(* ===== verification/KR_Files.thy ===== *)
theory KR_Files
  imports KR_VaultWrite
begin

text \<open>
  \<open>vault.rs\<close>'s \<open>write\<close> one system call at a time, for several threads on one file system. Names lead to
  inodes and an open file is an inode, so a thread can go on writing to a file that another has renamed
  or truncated. Run alone, the calls are the write of \<open>KR_Vault\<close>.
\<close>

subsection \<open>Names, inodes and the calls\<close>

record vfs =
  inode :: "rstring \<Rightarrow> nat option"
  node :: "nat \<Rightarrow> filerec"
  fresh :: nat
  umode :: nat

definition files_of :: "vfs \<Rightarrow> rstring \<Rightarrow> filerec option" where
  "files_of v p = map_option (node v) (inode v p)"

text \<open>There are no hard links and no dangling names.\<close>

definition vfs_ok :: "vfs \<Rightarrow> bool" where
  "vfs_ok v \<longleftrightarrow> (\<forall>p i. inode v p = Some i \<longrightarrow> i < fresh v) \<and>
     (\<forall>p q i. inode v p = Some i \<longrightarrow> inode v q = Some i \<longrightarrow> p = q)"

definition open_trunc :: "rstring \<Rightarrow> vfs \<Rightarrow> nat \<times> vfs" where
  "open_trunc p v =
     (case inode v p of
        Some i \<Rightarrow> (i, v\<lparr>node := (node v)(i := (node v i)\<lparr>content := []\<rparr>)\<rparr>)
      | None \<Rightarrow>
          (fresh v, v\<lparr>inode := (inode v)(p \<mapsto> fresh v),
                      node := (node v)(fresh v := \<lparr>content = [], fmode = umode v\<rparr>),
                      fresh := Suc (fresh v)\<rparr>))"

definition fchmod :: "nat \<Rightarrow> nat \<Rightarrow> vfs \<Rightarrow> vfs" where
  "fchmod fd m v = v\<lparr>node := (node v)(fd := (node v fd)\<lparr>fmode := m\<rparr>)\<rparr>"

text \<open>Writing at an offset: a gap is filled with zeros, what lies behind is kept.\<close>

definition overlay :: "nat \<Rightarrow> byte list \<Rightarrow> byte list \<Rightarrow> byte list" where
  "overlay off bs c = take off (c @ replicate (off - length c) 0) @ bs @ drop (off + length bs) c"

definition pwrite :: "nat \<Rightarrow> nat \<Rightarrow> byte list \<Rightarrow> vfs \<Rightarrow> vfs" where
  "pwrite fd off bs v =
     v\<lparr>node := (node v)(fd := (node v fd)\<lparr>content := overlay off bs (content (node v fd))\<rparr>)\<rparr>"

definition pread :: "nat \<Rightarrow> nat \<Rightarrow> nat \<Rightarrow> vfs \<Rightarrow> byte list" where
  "pread fd off n v = take n (drop off (content (node v fd)))"

text \<open>\<open>fs::copy\<close> of the first \<open>k\<close> bytes (all of them unless it fails), with the mode.\<close>

definition copy_file :: "rstring \<Rightarrow> rstring \<Rightarrow> nat \<Rightarrow> vfs \<Rightarrow> vfs" where
  "copy_file p q k v =
     (case inode v p of
        None \<Rightarrow> v
      | Some i \<Rightarrow>
          (case open_trunc q v of
             (j, v1) \<Rightarrow> v1\<lparr>node := (node v1)(j := (node v i)\<lparr>content := take k (content (node v i))\<rparr>)\<rparr>))"

definition rename_file :: "rstring \<Rightarrow> rstring \<Rightarrow> vfs \<Rightarrow> (rstring + unit) \<times> vfs" where
  "rename_file p q v =
     (case inode v p of
        None \<Rightarrow> (Inl NOT_FOUND, v)
      | Some i \<Rightarrow> (Inr (), v\<lparr>inode := (inode v)(p := None, q \<mapsto> i)\<rparr>))"

subsection \<open>The calls of \<open>write\<close>\<close>

text \<open>Where a thread is in \<open>write\<close>; in \<open>CWrite\<close> it has written up to an offset and the rest is left.\<close>

datatype wpc = CMkdir | COpen | CMode nat | CWrite nat nat "byte list" | CSync nat | CBackup | CRename

datatype wnext = Next wpc | Stop "err + unit"

text \<open>
  The next call, which fails with the text \<open>f\<close> if there is one. One \<open>write\<close> takes at most \<open>n\<close> bytes, and
  at least one. Setting modes and the backup ignore their failure.
\<close>

definition write_call ::
  "vpath \<Rightarrow> byte list \<Rightarrow> nat \<Rightarrow> rstring option \<Rightarrow> wpc \<Rightarrow> vfs \<Rightarrow> wnext \<times> vfs" where
  "write_call p out n f c v =
     (case c of
        CMkdir \<Rightarrow>
          (case f of Some e \<Rightarrow> if v_dir p = None then (Next COpen, v) else (Stop (Inl (EMkdir e)), v)
           | None \<Rightarrow> (Next COpen, v))
      | COpen \<Rightarrow>
          (case f of Some e \<Rightarrow> (Stop (Inl (EOpenTmp e)), v)
           | None \<Rightarrow> (case open_trunc (tmp_path p) v of (fd, v1) \<Rightarrow> (Next (CMode fd), v1)))
      | CMode fd \<Rightarrow> (Next (CWrite fd 0 out), if f = None then fchmod fd 384 v else v)
      | CWrite fd off rest \<Rightarrow>
          if rest = [] then (Next (CSync fd), v)
          else (case f of Some e \<Rightarrow> (Stop (Inl (EWriteTmp e)), v)
                | None \<Rightarrow>
                    let k = max 1 (min n (length rest))
                    in (Next (CWrite fd (off + k) (drop k rest)), pwrite fd off (take k rest) v))
      | CSync fd \<Rightarrow> (case f of Some e \<Rightarrow> (Stop (Inl (EFsync e)), v) | None \<Rightarrow> (Next CBackup, v))
      | CBackup \<Rightarrow>
          (Next CRename,
           copy_file (v_file p) (bak_path p)
             (case f of Some e \<Rightarrow> n | None \<Rightarrow> length (content (node v (the (inode v (v_file p)))))) v)
      | CRename \<Rightarrow>
          (case f of Some e \<Rightarrow> (Stop (Inl (EReplace e)), v)
           | None \<Rightarrow> (case rename_file (tmp_path p) (v_file p) v of
               (Inl e, v1) \<Rightarrow> (Stop (Inl (EReplace e)), v1)
             | (Inr u, v1) \<Rightarrow> (Stop (Inr ()), v1))))"

text \<open>A thread that runs without others in between, by the size of each call and its failure.\<close>

fun write_run ::
  "vpath \<Rightarrow> byte list \<Rightarrow> (nat \<times> rstring option) list \<Rightarrow> wpc \<Rightarrow> vfs \<Rightarrow> wnext \<times> vfs" where
  "write_run p out [] c v = (Next c, v)"
| "write_run p out ((n, f) # ns) c v =
     (case write_call p out n f c v of
        (Next c1, v1) \<Rightarrow> write_run p out ns c1 v1
      | (Stop r, v1) \<Rightarrow> (Stop r, v1))"

subsection \<open>Effects of the calls\<close>

lemma vfs_okD:
  "vfs_ok v \<Longrightarrow> inode v p = Some i \<Longrightarrow> i < fresh v"
  "vfs_ok v \<Longrightarrow> inode v p = Some i \<Longrightarrow> inode v q = Some i \<Longrightarrow> p = q"
  unfolding vfs_ok_def by blast+

lemma vfs_fresh [simp]: "vfs_ok v \<Longrightarrow> inode v p \<noteq> Some (fresh v)"
  using vfs_okD(1) by blast

lemma overlay_append [simp]: "off = length c \<Longrightarrow> overlay off bs c = c @ bs"
  by (simp add: overlay_def)

lemma overlay_start: "overlay 0 bs c = bs @ drop (length bs) c"
  by (simp add: overlay_def)

lemma open_trunc_props:
  assumes "vfs_ok v" "open_trunc p v = (fd, v1)"
  shows "vfs_ok v1" "inode v1 = (inode v)(p \<mapsto> fd)" "content (node v1 fd) = []"
    "fresh v \<le> fresh v1" "i < fresh v \<Longrightarrow> inode v p \<noteq> Some i \<Longrightarrow> i \<noteq> fd \<and> node v1 i = node v i"
proof -
  have "vfs_ok v1 \<and> inode v1 = (inode v)(p \<mapsto> fd) \<and> content (node v1 fd) = [] \<and> fresh v \<le> fresh v1 \<and>
    (i < fresh v \<longrightarrow> inode v p \<noteq> Some i \<longrightarrow> i \<noteq> fd \<and> node v1 i = node v i)"
  proof (cases "inode v p")
    case None
    with assms(2) have v1: "fd = fresh v" "v1 = v\<lparr>inode := (inode v)(p \<mapsto> fresh v),
        node := (node v)(fresh v := \<lparr>content = [], fmode = umode v\<rparr>), fresh := Suc (fresh v)\<rparr>"
      by (auto simp: open_trunc_def)
    have "vfs_ok v1" unfolding vfs_ok_def
    proof (intro conjI allI impI)
      show "j < fresh v1" if "inode v1 q = Some j" for q j
        using that v1 vfs_okD(1) [OF assms(1), of q j] by (auto split: if_splits)
      show "q = r" if "inode v1 q = Some j" "inode v1 r = Some j" for q r j
        using that v1 vfs_okD(2) [OF assms(1), of q j r] vfs_fresh [OF assms(1)]
        by (cases "q = p"; cases "r = p") auto
    qed
    then show ?thesis using v1 by auto
  next
    case (Some j)
    with assms(2) have "fd = j" "v1 = v\<lparr>node := (node v)(j := (node v j)\<lparr>content := []\<rparr>)\<rparr>"
      by (auto simp: open_trunc_def)
    with Some assms(1) show ?thesis by (auto simp: vfs_ok_def fun_upd_idem)
  qed
  then show "vfs_ok v1" "inode v1 = (inode v)(p \<mapsto> fd)" "content (node v1 fd) = []"
    "fresh v \<le> fresh v1" "i < fresh v \<Longrightarrow> inode v p \<noteq> Some i \<Longrightarrow> i \<noteq> fd \<and> node v1 i = node v i"
    by blast+
qed

lemma files_of_node:
  assumes "vfs_ok v" "inode v p = Some fd"
  shows "files_of (v\<lparr>node := (node v)(fd := g)\<rparr>) = (files_of v)(p \<mapsto> g)"
proof
  fix q
  have "inode v q = Some fd \<longleftrightarrow> q = p" using vfs_okD(2) [OF assms] assms(2) by blast
  then show "files_of (v\<lparr>node := (node v)(fd := g)\<rparr>) q = ((files_of v)(p \<mapsto> g)) q"
    by (cases "inode v q") (simp_all add: files_of_def)
qed

lemma files_of_open:
  assumes "vfs_ok v" "open_trunc p v = (fd, v1)"
  shows "files_of v1 = (files_of v)(p \<mapsto> node v1 fd)"
proof
  fix q
  show "files_of v1 q = ((files_of v)(p \<mapsto> node v1 fd)) q"
  proof (cases "q = p \<or> inode v q = None")
    case False
    then obtain i where i: "inode v q = Some i" "q \<noteq> p" by blast
    with vfs_okD [OF assms(1)] have "i < fresh v" "inode v p \<noteq> Some i" by blast+
    with i open_trunc_props(2,5) [OF assms] show ?thesis by (simp add: files_of_def)
  qed (use open_trunc_props(2) [OF assms] in \<open>auto simp: files_of_def\<close>)
qed

lemma vfs_ok_node [simp]: "vfs_ok (v\<lparr>node := g\<rparr>) = vfs_ok v"
  by (simp add: vfs_ok_def)

lemma fchmod_simps [simp]:
  "inode (fchmod fd m v) = inode v" "fresh (fchmod fd m v) = fresh v" "vfs_ok (fchmod fd m v) = vfs_ok v"
  "node (fchmod fd m v) i = (if i = fd then (node v fd)\<lparr>fmode := m\<rparr> else node v i)"
  by (simp_all add: fchmod_def)

lemma pwrite_simps [simp]:
  "inode (pwrite fd off bs v) = inode v" "fresh (pwrite fd off bs v) = fresh v"
  "vfs_ok (pwrite fd off bs v) = vfs_ok v"
  "node (pwrite fd off bs v) i =
     (if i = fd then (node v fd)\<lparr>content := overlay off bs (content (node v fd))\<rparr> else node v i)"
  by (simp_all add: pwrite_def)

text \<open>What the backup leaves: only the target's inode changes, and it is no other name's.\<close>

lemma copy_file_props:
  assumes "vfs_ok v" "p \<noteq> q"
  shows "vfs_ok (copy_file p q k v)" "fresh v \<le> fresh (copy_file p q k v)"
    "r \<noteq> q \<Longrightarrow> inode (copy_file p q k v) r = inode v r"
    "i < fresh v \<Longrightarrow> inode v q \<noteq> Some i \<Longrightarrow>
       node (copy_file p q k v) i = node v i \<and> inode (copy_file p q k v) q \<noteq> Some i"
proof -
  obtain fd v1 where o: "open_trunc q v = (fd, v1)" by (cases "open_trunc q v")
  note t = open_trunc_props [OF assms(1) o]
  show "vfs_ok (copy_file p q k v)" "fresh v \<le> fresh (copy_file p q k v)"
    "r \<noteq> q \<Longrightarrow> inode (copy_file p q k v) r = inode v r"
    "i < fresh v \<Longrightarrow> inode v q \<noteq> Some i \<Longrightarrow>
       node (copy_file p q k v) i = node v i \<and> inode (copy_file p q k v) q \<noteq> Some i"
    using t(1-4) t(5) [of i] assms o by (auto simp: copy_file_def split: option.splits)
qed

lemma files_of_copy:
  assumes "vfs_ok v" "p \<noteq> q"
  shows "files_of (copy_file p q k v) = (case files_of v p of None \<Rightarrow> files_of v
     | Some f \<Rightarrow> (files_of v)(q \<mapsto> f\<lparr>content := take k (content f)\<rparr>))"
proof (cases "inode v p")
  case (Some i)
  obtain fd v1 where o: "open_trunc q v = (fd, v1)" by (cases "open_trunc q v")
  note t = open_trunc_props [OF assms(1) o]
  have "files_of (v1\<lparr>node := (node v1)(fd := g)\<rparr>) = (files_of v1)(q \<mapsto> g)" for g
    by (rule files_of_node) (simp_all add: t)
  with Some o files_of_open [OF assms(1) o] show ?thesis
    by (simp add: copy_file_def files_of_def [of _ p])
qed (simp add: copy_file_def files_of_def)

lemma files_of_rename:
  "rename_file p q v = (Inr u, v1) \<Longrightarrow> files_of v1 = (files_of v)(p := None, q := files_of v p)"
  by (auto simp: rename_file_def files_of_def fun_eq_iff split: option.splits)

subsection \<open>One writer among readers\<close>

text \<open>
  \<open>tmp_holds\<close>: the temporary file is the inode \<open>fd\<close>, with this content. \<open>wpc_ok\<close>: what a writer that no
  other disturbs knows before each call. \<open>settled\<close>: an inode that is neither the temporary file nor the
  backup, which no such writer touches again.
\<close>

definition tmp_holds :: "vpath \<Rightarrow> vfs \<Rightarrow> nat \<Rightarrow> byte list \<Rightarrow> bool" where
  "tmp_holds p v fd bs \<longleftrightarrow> inode v (tmp_path p) = Some fd \<and> content (node v fd) = bs"

definition wpc_ok :: "vpath \<Rightarrow> byte list \<Rightarrow> vfs \<Rightarrow> wpc \<Rightarrow> bool" where
  "wpc_ok p out v c =
     (case c of
        CMkdir \<Rightarrow> True
      | COpen \<Rightarrow> True
      | CMode fd \<Rightarrow> tmp_holds p v fd []
      | CWrite fd off rest \<Rightarrow> rest = drop off out \<and> off \<le> length out \<and> tmp_holds p v fd (take off out)
      | CSync fd \<Rightarrow> tmp_holds p v fd out
      | CBackup \<Rightarrow> (\<exists>fd. tmp_holds p v fd out)
      | CRename \<Rightarrow> (\<exists>fd. tmp_holds p v fd out))"

definition settled :: "vpath \<Rightarrow> vfs \<Rightarrow> nat \<Rightarrow> bool" where
  "settled p v i \<longleftrightarrow> i < fresh v \<and> inode v (tmp_path p) \<noteq> Some i \<and> inode v (bak_path p) \<noteq> Some i"

lemma vault_settled: "vfs_ok v \<Longrightarrow> inode v (v_file p) = Some i \<Longrightarrow> settled p v i"
  using vfs_okD [of v "v_file p" i] paths_distinct unfolding settled_def by metis

text \<open>What a call of such a writer does: it keeps all this until its rename puts the image in place.\<close>

definition call_effect :: "vpath \<Rightarrow> byte list \<Rightarrow> vfs \<Rightarrow> wnext \<Rightarrow> vfs \<Rightarrow> bool" where
  "call_effect p out v r v1 \<longleftrightarrow>
     vfs_ok v1 \<and> (\<forall>i. settled p v i \<longrightarrow> settled p v1 i \<and> node v1 i = node v i) \<and>
     (case r of
        Next c1 \<Rightarrow> wpc_ok p out v1 c1 \<and> inode v1 (v_file p) = inode v (v_file p)
      | Stop (Inl e) \<Rightarrow> inode v1 (v_file p) = inode v (v_file p)
      | Stop (Inr u) \<Rightarrow> \<exists>i. inode v1 (v_file p) = Some i \<and> content (node v1 i) = out)"

lemma call_effect_open:
  assumes "vfs_ok v"
  shows "call_effect p out v (fst (write_call p out n f COpen v)) (snd (write_call p out n f COpen v))"
proof (cases f)
  case None
  obtain fd v1 where o: "open_trunc (tmp_path p) v = (fd, v1)" by (cases "open_trunc (tmp_path p) v")
  note t = open_trunc_props [OF assms o]
  have "settled p v1 i \<and> node v1 i = node v i" if "settled p v i" for i
    using that t(2,4) t(5) [of i] by (auto simp: settled_def)
  then show ?thesis
    using None o t(1-3) by (simp add: call_effect_def write_call_def wpc_ok_def tmp_holds_def)
qed (simp add: call_effect_def write_call_def assms)

lemma call_effect_backup:
  assumes "vfs_ok v" "wpc_ok p out v CBackup"
  shows "call_effect p out v (Next CRename) (copy_file (v_file p) (bak_path p) k v)"
proof -
  note t = copy_file_props [OF assms(1), of "v_file p" "bak_path p", simplified]
  have "settled p (copy_file (v_file p) (bak_path p) k v) i \<and>
      node (copy_file (v_file p) (bak_path p) k v) i = node v i" if "settled p v i" for i
    using that t(2) [of k] t(4) [of i k] t(3) [of "tmp_path p" k] by (simp add: settled_def)
  moreover obtain fd where fd: "tmp_holds p v fd out" using assms(2) by (auto simp: wpc_ok_def)
  then have "fd < fresh v" "inode v (bak_path p) \<noteq> Some fd"
    using vfs_okD [OF assms(1)] paths_distinct unfolding tmp_holds_def by metis+
  with t(3,4) fd have "tmp_holds p (copy_file (v_file p) (bak_path p) k v) fd out"
    by (simp add: tmp_holds_def)
  ultimately show ?thesis
    using t(1,3) by (auto simp: call_effect_def wpc_ok_def)
qed

lemma call_effect_rename:
  assumes "vfs_ok v" "wpc_ok p out v CRename"
  shows "call_effect p out v (fst (write_call p out n f CRename v)) (snd (write_call p out n f CRename v))"
proof (cases f)
  case None
  from assms(2) obtain fd where fd: "inode v (tmp_path p) = Some fd" "content (node v fd) = out"
    by (auto simp: wpc_ok_def tmp_holds_def)
  let ?v = "v\<lparr>inode := (inode v)(tmp_path p := None, v_file p \<mapsto> fd)\<rparr>"
  have "vfs_ok ?v" unfolding vfs_ok_def
  proof (intro conjI allI impI)
    show "i < fresh ?v" if "inode ?v q = Some i" for q i
      using that vfs_okD(1) [OF assms(1), of q i] vfs_okD(1) [OF assms(1) fd(1)]
      by (simp split: if_splits)
    have only: "q = tmp_path p" if "inode v q = Some fd" for q
      using vfs_okD(2) [OF assms(1) fd(1) that] by simp
    show "q = r" if "inode ?v q = Some i" "inode ?v r = Some i" for q r i
      using that vfs_okD(2) [OF assms(1), of q i r] only [of q] only [of r]
      by (simp split: if_splits)
  qed
  then show ?thesis
    using None fd
    by (auto simp: call_effect_def write_call_def rename_file_def settled_def)
qed (simp add: call_effect_def write_call_def assms)

lemma write_call_effect:
  assumes "vfs_ok v" "wpc_ok p out v c" "write_call p out n f c v = (r, v1)"
  shows "call_effect p out v r v1"
proof (cases c)
  case CMkdir
  with assms show ?thesis
    by (auto simp: write_call_def call_effect_def wpc_ok_def split: option.splits if_splits)
next
  case COpen
  with call_effect_open [OF assms(1), of p out n f] assms(3) show ?thesis by simp
next
  case (CMode fd)
  with assms show ?thesis
    by (cases f) (auto simp: write_call_def call_effect_def wpc_ok_def tmp_holds_def settled_def)
next
  case (CWrite fd off rest)
  with assms(2) have w: "rest = drop off out" "off \<le> length out" "inode v (tmp_path p) = Some fd"
    "content (node v fd) = take off out" by (auto simp: wpc_ok_def tmp_holds_def)
  define k where "k = max 1 (min n (length rest))"
  show ?thesis
  proof (cases "rest = [] \<or> f \<noteq> None")
    case True
    with assms CWrite w show ?thesis
      by (auto simp: write_call_def call_effect_def wpc_ok_def tmp_holds_def split: if_splits)
  next
    case False
    then have k: "off + k \<le> length out" using w(1,2) by (cases rest) (auto simp: k_def)
    have "r = Next (CWrite fd (off + k) (drop k rest))" "v1 = pwrite fd off (take k rest) v"
      using assms(3) False CWrite by (auto simp: write_call_def k_def Let_def)
    moreover have "take off out @ take k rest = take (off + k) out" using w(1) by (simp add: take_add)
    ultimately show ?thesis
      using w k assms(1)
      by (auto simp: call_effect_def wpc_ok_def tmp_holds_def settled_def add.commute)
  qed
next
  case (CSync fd)
  with assms show ?thesis
    by (auto simp: write_call_def call_effect_def wpc_ok_def split: option.splits)
next
  case CBackup
  with call_effect_backup [OF assms(1)] assms(2,3) show ?thesis by (auto simp: write_call_def)
next
  case CRename
  with call_effect_rename [OF assms(1), of p out n f] assms(2,3) show ?thesis by simp
qed

subsection \<open>A writer alone is \<open>KR_Vault\<close>'s write\<close>

text \<open>The calls a writer makes at most, from where it is.\<close>

definition calls_left :: "byte list \<Rightarrow> wpc \<Rightarrow> nat" where
  "calls_left out c =
     (case c of CMkdir \<Rightarrow> length out + 7 | COpen \<Rightarrow> length out + 6 | CMode fd \<Rightarrow> length out + 5
      | CWrite fd off rest \<Rightarrow> length rest + 4 | CSync fd \<Rightarrow> 3 | CBackup \<Rightarrow> 2 | CRename \<Rightarrow> 1)"

lemma write_call_left: "write_call p out n f c v = (Next c1, v1) \<Longrightarrow> calls_left out c1 < calls_left out c"
  by (cases c) (auto simp: write_call_def calls_left_def Let_def
      split: option.splits if_splits prod.splits sum.splits)

lemma write_run_stops:
  "calls_left out c \<le> length ns \<Longrightarrow> \<exists>r v1. write_run p out ns c v = (Stop r, v1)"
proof (induction ns arbitrary: c v)
  case Nil
  then show ?case by (cases c) (simp_all add: calls_left_def)
next
  case (Cons nf ns)
  obtain n f where nf: "nf = (n, f)" by (cases nf)
  obtain r v1 where r: "write_call p out n f c v = (r, v1)" by (cases "write_call p out n f c v")
  show ?case
  proof (cases r)
    case (Next c1)
    with r Cons.prems have "calls_left out c1 \<le> length ns" using write_call_left by fastforce
    from Cons.IH [OF this] Next r nf show ?thesis by auto
  qed (use r nf in auto)
qed

text \<open>The files before each call, from the files at the start, without failures.\<close>

definition kept_backup :: "vpath \<Rightarrow> (rstring \<Rightarrow> filerec option) \<Rightarrow> rstring \<Rightarrow> filerec option" where
  "kept_backup p g = (case g (v_file p) of None \<Rightarrow> g | Some f \<Rightarrow> g(bak_path p \<mapsto> f))"

definition files_before :: "vpath \<Rightarrow> byte list \<Rightarrow> (rstring \<Rightarrow> filerec option) \<Rightarrow> vfs \<Rightarrow> wpc \<Rightarrow> bool" where
  "files_before p out g v c =
     (case c of
        CMkdir \<Rightarrow> files_of v = g
      | COpen \<Rightarrow> files_of v = g
      | CMode fd \<Rightarrow> \<exists>m. files_of v = g(tmp_path p \<mapsto> \<lparr>content = [], fmode = m\<rparr>)
      | CWrite fd off rest \<Rightarrow> files_of v = g(tmp_path p \<mapsto> \<lparr>content = take off out, fmode = 384\<rparr>)
      | CSync fd \<Rightarrow> files_of v = g(tmp_path p \<mapsto> \<lparr>content = out, fmode = 384\<rparr>)
      | CBackup \<Rightarrow> files_of v = g(tmp_path p \<mapsto> \<lparr>content = out, fmode = 384\<rparr>)
      | CRename \<Rightarrow> files_of v = (kept_backup p g)(tmp_path p \<mapsto> \<lparr>content = out, fmode = 384\<rparr>))"

definition files_after :: "vpath \<Rightarrow> byte list \<Rightarrow> (rstring \<Rightarrow> filerec option) \<Rightarrow> rstring \<Rightarrow> filerec option" where
  "files_after p out g =
     (kept_backup p g)(tmp_path p := None, v_file p \<mapsto> \<lparr>content = out, fmode = 384\<rparr>)"

lemma kept_backup_other [simp]: "q \<noteq> bak_path p \<Longrightarrow> kept_backup p g q = g q"
  by (simp add: kept_backup_def split: option.split)

lemma files_before_copy:
  assumes "vfs_ok v" "files_of v = g(tmp_path p \<mapsto> h)"
  shows "files_of (copy_file (v_file p) (bak_path p)
      (length (content (node v (the (inode v (v_file p)))))) v) = (kept_backup p g)(tmp_path p \<mapsto> h)"
proof (cases "inode v (v_file p)")
  case None
  moreover from this assms(2) have "g (v_file p) = None"
    by (metis files_of_def fun_upd_other option.simps(8) paths_distinct(2))
  ultimately show ?thesis using assms(2) by (simp add: copy_file_def kept_backup_def)
next
  case (Some i)
  then have "files_of v (v_file p) = Some (node v i)" by (simp add: files_of_def)
  moreover from this assms(2) have "g (v_file p) = Some (node v i)"
    by (metis fun_upd_other paths_distinct(2))
  ultimately show ?thesis
    using Some assms by (simp add: files_of_copy kept_backup_def fun_upd_twist)
qed

lemma files_step:
  assumes "vfs_ok v" "wpc_ok p out v c" "files_before p out g v c" "write_call p out n None c v = (r, v1)"
  shows "case r of Next c1 \<Rightarrow> files_before p out g v1 c1 | Stop q \<Rightarrow> q = Inr () \<and> files_of v1 = files_after p out g"
proof (cases c)
  case COpen
  obtain fd v2 where o: "open_trunc (tmp_path p) v = (fd, v2)" by (cases "open_trunc (tmp_path p) v")
  then have "r = Next (CMode fd)" "v1 = v2" using assms(4) COpen by (simp_all add: write_call_def)
  moreover obtain m where "node v2 fd = \<lparr>content = [], fmode = m\<rparr>"
    using open_trunc_props(3) [OF assms(1) o] by (cases "node v2 fd") simp
  ultimately show ?thesis
    using assms(3) COpen files_of_open [OF assms(1) o] by (auto simp: files_before_def)
next
  case (CMode fd)
  with assms(2) have "inode v (tmp_path p) = Some fd" "content (node v fd) = []"
    by (auto simp: wpc_ok_def tmp_holds_def)
  then show ?thesis
    using assms(3,4) CMode files_of_node [OF assms(1)]
    by (cases "node v fd") (auto simp: write_call_def files_before_def fchmod_def)
next
  case (CWrite fd off rest)
  with assms(2) have w: "rest = drop off out" "off \<le> length out" "inode v (tmp_path p) = Some fd"
    "content (node v fd) = take off out" by (auto simp: wpc_ok_def tmp_holds_def)
  have m: "fmode (node v fd) = 384"
    using assms(3) CWrite w(3) by (auto simp: files_before_def files_of_def dest!: fun_cong [of _ _ "tmp_path p"])
  show ?thesis
  proof (cases "rest = []")
    case True
    with assms(3,4) CWrite w show ?thesis by (auto simp: write_call_def files_before_def)
  next
    case False
    define k where "k = max 1 (min n (length rest))"
    have "r = Next (CWrite fd (off + k) (drop k rest))" "v1 = pwrite fd off (take k rest) v"
      using assms(4) False CWrite by (auto simp: write_call_def k_def Let_def)
    moreover have "take off out @ take k rest = take (off + k) out" using w(1) by (simp add: take_add)
    ultimately show ?thesis
      using assms(1,3) CWrite w m files_of_node [OF assms(1) w(3)]
      by (auto simp: files_before_def pwrite_def)
  qed
next
  case CBackup
  with assms files_before_copy [OF assms(1)] show ?thesis
    by (auto simp: write_call_def files_before_def)
next
  case CRename
  with assms(2) obtain fd where fd: "inode v (tmp_path p) = Some fd"
    by (auto simp: wpc_ok_def tmp_holds_def)
  then obtain v2 where ren: "rename_file (tmp_path p) (v_file p) v = (Inr (), v2)"
    by (simp add: rename_file_def)
  with CRename assms(4) have "r = Stop (Inr ())" "v1 = v2" by (simp_all add: write_call_def)
  moreover have "files_of v (tmp_path p) = Some \<lparr>content = out, fmode = 384\<rparr>"
    using assms(3) CRename by (simp add: files_before_def)
  ultimately show ?thesis
    using assms(3) CRename files_of_rename [OF ren] by (simp add: files_before_def files_after_def)
qed (use assms(3,4) in \<open>auto simp: write_call_def files_before_def\<close>)

lemma write_run_files:
  assumes "vfs_ok v" "wpc_ok p out v c" "files_before p out g v c" "\<forall>(n, f) \<in> set ns. f = None"
    and "write_run p out ns c v = (Stop r, v1)"
  shows "r = Inr () \<and> files_of v1 = files_after p out g \<and> vfs_ok v1"
  using assms
proof (induction ns arbitrary: c v)
  case (Cons nf ns)
  then obtain n where nf: "nf = (n, None)" by (cases nf) auto
  obtain q v2 where q: "write_call p out n None c v = (q, v2)" by (cases "write_call p out n None c v")
  have e: "call_effect p out v q v2" by (rule write_call_effect [OF Cons.prems(1,2) q])
  have s: "case q of Next c1 \<Rightarrow> files_before p out g v2 c1
      | Stop r \<Rightarrow> r = Inr () \<and> files_of v2 = files_after p out g"
    by (rule files_step [OF Cons.prems(1-3) q])
  show ?case
  proof (cases q)
    case (Next c1)
    with Cons.IH [of v2 c1] Cons.prems(4,5) e s q nf show ?thesis by (auto simp: call_effect_def)
  next
    case (Stop r1)
    with Cons.prems(5) e s q nf show ?thesis by (auto simp: call_effect_def)
  qed
qed simp

lemma replace_file_after:
  assumes "reliable s"
  obtains t where "replace_file p out s = (Inr (), t)" "reliable t"
    "files (disk t) = files_after p out (files (disk s))"
proof -
  obtain t where t: "replace_file p out s = (Inr (), t)" "reliable t"
    "files (disk t) (v_file p) = Some \<lparr>content = out, fmode = 384\<rparr>"
    "files (disk t) (tmp_path p) = None"
    "files (disk t) (bak_path p) =
       (case files (disk s) (v_file p) of None \<Rightarrow> files (disk s) (bak_path p) | Some f \<Rightarrow> Some f)"
    using replace_file_reliable [OF assms, of p out] by blast
  have "files (disk t) q = files (disk s) q" if q: "q \<noteq> v_file p" "q \<noteq> tmp_path p" "q \<noteq> bak_path p" for q
  proof -
    have "keeps (same_file q) (replace_file p out)"
      using q by (auto simp: replace_file_def write_prep_def intro!: kr_frame)
    from keepsD [OF this t(1)] show ?thesis by (simp add: same_file_def)
  qed
  then have "files (disk t) q = files_after p out (files (disk s)) q" for q
    using t(3-5) by (cases "q = bak_path p") (auto simp: files_after_def kept_backup_def split: option.split)
  then have "files (disk t) = files_after p out (files (disk s))" ..
  with t(1,2) show thesis by (rule that)
qed

text \<open>
  However the system splits the data into \<open>write\<close> calls, a writer that no other disturbs ends within
  \<open>length out + 7\<close> calls, with the result and the files of \<open>replace_file\<close>.
\<close>

lemma lone_write:
  assumes "vfs_ok v" "files_of v = files (disk s)" "reliable s"
    and "length out + 7 \<le> length ns" "\<forall>(n, f) \<in> set ns. f = None"
  shows "\<exists>v1 t. write_run p out ns CMkdir v = (Stop (Inr ()), v1) \<and> replace_file p out s = (Inr (), t) \<and>
    reliable t \<and> files_of v1 = files (disk t) \<and> vfs_ok v1"
proof -
  obtain r v1 where run: "write_run p out ns CMkdir v = (Stop r, v1)"
    using write_run_stops [of out CMkdir ns p v] assms(4) by (auto simp: calls_left_def)
  have "r = Inr () \<and> files_of v1 = files_after p out (files_of v) \<and> vfs_ok v1"
    by (rule write_run_files [OF assms(1) _ _ assms(5) run])
      (simp_all add: wpc_ok_def files_before_def)
  moreover obtain t where "replace_file p out s = (Inr (), t)" "reliable t"
    "files (disk t) = files_after p out (files (disk s))"
    using assms(3) by (rule replace_file_after)
  ultimately show ?thesis using run assms(2) by auto
qed

end
