(* ===== verification/KR_Threads.thy ===== *)
theory KR_Threads
  imports KR_Files KR_Server
begin

text \<open>
  The threads of the daemon around the session and the vault file, one mutex section or system call at
  a time: requests on a secret (\<open>with_session\<close> holds the session mutex from its change to the end of
  the write), \<open>unlock\<close> (which reads the file, works on the bytes and only then takes the mutex),
  \<open>do_lock\<close>, and \<open>rotate\<close> (which reads and writes the file without the mutex). \<open>KR_Handlers\<close> takes each
  of them as one step, \<open>KR_Concurrency\<close> refines the waiting.
\<close>

subsection \<open>Requests on the session\<close>

datatype wop =
    WGet rstring
  | WSet SetParam
  | WDelete rstring
  | WRename RenameParam
  | WUpsert rstring rstring
  | WTotp rstring
  | WList

definition op_reply :: "wop \<Rightarrow> json" where
  "op_reply q = (case q of WUpsert n v \<Rightarrow> JObj [(lit ''value'', JStr v)] | _ \<Rightarrow> JObj [])"

fun change :: "wop \<Rightarrow> unit session_fun" where
  "change (WGet n) ts s = (Inr (), s)"
| "change (WSet p) ts s = set_op p ts s"
| "change (WDelete n) ts s = delete_op n ts s"
| "change (WRename p) ts s = rename_op p ts s"
| "change (WUpsert n v) ts s = upsert_op n v ts s"
| "change (WTotp n) ts s = (Inr (), s)"
| "change WList ts s = (Inr (), s)"

text \<open>The requests that only look at the session.\<close>

fun observe :: "'x rpc_ext_scheme \<Rightarrow> wop \<Rightarrow> u64 \<Rightarrow> Session \<Rightarrow> (err + json) option" where
  "observe x (WGet n) ts s = Some (bindS (get_entry_op n s) (\<lambda>e.
     Inr (JObj [(lit ''value'', JStr (e_value e)), (lit ''meta'', entry_meta e)])))"
| "observe x (WTotp n) ts s = Some (totp_op x n ts s)"
| "observe x WList ts s = Some (Inr (JObj [(lit ''entries'', JArr (map summary (entries (body s))))]))"
| "observe x q ts s = None"

text \<open>The answer, the session after it, and whether it is saved.\<close>

definition op_run :: "'x rpc_ext_scheme \<Rightarrow> wop \<Rightarrow> u64 \<Rightarrow> Session \<Rightarrow> (err + json) \<times> Session \<times> bool" where
  "op_run x q ts s =
     (case observe x q ts s of
        Some r \<Rightarrow> (r, s, False)
      | None \<Rightarrow>
          (case change q ts s of
             (Inl e, s1) \<Rightarrow> (Inl e, s1, False)
           | (Inr _, s1) \<Rightarrow> (Inr (op_reply q), s1, True)))"

text \<open>What the handlers check before they reach the session.\<close>

definition op_valid :: "wop \<Rightarrow> bool" where
  "op_valid q =
     (case q of WSet p \<Rightarrow> \<not> blank (sp_name p) | WRename p \<Rightarrow> \<not> blank (rn_to p)
      | WUpsert n v \<Rightarrow> \<not> blank n | _ \<Rightarrow> True)"

text \<open>The same requests on the abstract store.\<close>

definition op_spec :: "'x rpc_ext_scheme \<Rightarrow> wop \<Rightarrow> u64 \<Rightarrow> store \<Rightarrow> (err + json) \<times> store" where
  "op_spec x q ts st =
     (case q of
        WGet n \<Rightarrow> spec_get n st
      | WSet p \<Rightarrow> spec_set p ts st
      | WDelete n \<Rightarrow> spec_delete n st
      | WRename p \<Rightarrow> spec_rename (rn_from p) (rn_to p) st
      | WUpsert n v \<Rightarrow>
          (Inr (JObj [(lit ''value'', JStr v)]),
           st(n \<mapsto> (case st n of Some e \<Rightarrow> e\<lparr>e_value := v, e_updated := ts\<rparr> | None \<Rightarrow> new_entry v ts)))
      | WTotp n \<Rightarrow> spec_totp x n ts st
      | WList \<Rightarrow> spec_list st)"

lemma op_run_spec:
  assumes "op_valid q" "bt_wf (entries (body s))" "op_run x q ts s = (r, s1, sv)"
  shows "op_spec x q ts (store_of s) = (r, store_of s1)" "bt_wf (entries (body s1))"
    "skey s1 = skey s" "salt s1 = salt s" "params s1 = params s" "sv \<Longrightarrow> r = Inr (op_reply q)"
    "\<not> sv \<Longrightarrow> s1 = s"
proof -
  have imp: "op_spec x q ts (store_of s) = (r, store_of s1) \<and> bt_wf (entries (body s1)) \<and>
      skey s1 = skey s \<and> salt s1 = salt s \<and> params s1 = params s \<and> (sv \<longrightarrow> r = Inr (op_reply q)) \<and>
      (\<not> sv \<longrightarrow> s1 = s)"
    if "implements f spec" "\<And>ts s. change q ts s = f ts s" "\<And>st. op_spec x q ts st = spec ts st"
      "op_reply q = JObj []" "observe x q ts s = None" for f spec
  proof -
    obtain r0 s2 where f: "f ts s = (r0, s2)" by (cases "f ts s")
    with that(2,5) assms(3) have "r = map_sum id (\<lambda>_. op_reply q) r0" "s1 = s2" "sv \<longleftrightarrow> (\<exists>u. r0 = Inr u)"
      by (auto simp: op_run_def split: sum.splits)
    then show ?thesis
      using implementsD [OF that(1) assms(2) f] that(3,4) by (cases r0) auto
  qed
  have "op_spec x q ts (store_of s) = (r, store_of s1) \<and> bt_wf (entries (body s1)) \<and>
      skey s1 = skey s \<and> salt s1 = salt s \<and> params s1 = params s \<and> (sv \<longrightarrow> r = Inr (op_reply q)) \<and>
      (\<not> sv \<longrightarrow> s1 = s)"
  proof (cases q)
    case (WGet n)
    with assms(2,3) show ?thesis
      by (auto simp: op_run_def op_spec_def spec_get_def get_entry_op_def store_of_def split: option.splits)
  next
    case (WSet p)
    then show ?thesis
      using assms(1) by (intro imp [OF set_op_implements]) (simp_all add: op_valid_def op_spec_def op_reply_def)
  next
    case (WDelete n)
    then show ?thesis by (intro imp [OF delete_op_implements]) (simp_all add: op_spec_def op_reply_def)
  next
    case (WRename p)
    then show ?thesis
      using assms(1) by (intro imp [OF rename_op_implements]) (simp_all add: op_valid_def op_spec_def op_reply_def)
  next
    case (WUpsert n v)
    with assms(2,3) show ?thesis
      by (auto simp: op_run_def op_spec_def op_reply_def upsert_op_def store_of_def bt_insert_fun bt.wf_put
          split: option.splits)
  next
    case (WTotp n)
    with assms(2,3) show ?thesis
      by (auto simp: op_run_def op_spec_def spec_totp_def totp_op_def get_entry_op_def store_of_def
          split: option.splits)
  next
    case WList
    with assms(2,3) spec_list_entries [OF assms(2)] show ?thesis by (auto simp: op_run_def op_spec_def)
  qed
  then show "op_spec x q ts (store_of s) = (r, store_of s1)" "bt_wf (entries (body s1))"
    "skey s1 = skey s" "salt s1 = salt s" "params s1 = params s" "sv \<Longrightarrow> r = Inr (op_reply q)"
    "\<not> sv \<Longrightarrow> s1 = s" by blast+
qed

subsection \<open>Threads\<close>

text \<open>
  Where a thread is. A request that may be parked stays in \<open>OCheck True\<close> while the vault is locked, until
  a cancel or its deadline ends the waiting.
  \<open>OSave\<close> and \<open>RSave\<close> carry the session being written and its image. A reader carries what it has read
  and how many renames had happened when it opened the file. \<open>Replied\<close> holds the answer of a request.
\<close>

datatype purpose = ForUnlock "byte list" | ForRotate "byte list" "byte list"

fun password_of :: "purpose \<Rightarrow> byte list" where
  "password_of (ForUnlock pw) = pw"
| "password_of (ForRotate old new) = old"

datatype tpc =
    OCheck bool wop                          \<comment> \<open>\<open>is_locked\<close>\<close>
  | OEnter wop                               \<comment> \<open>\<open>session.lock()\<close>, \<open>f(session)\<close>\<close>
  | OSave json Session "byte list" wpc       \<comment> \<open>\<open>vault::save\<close>, the mutex held\<close>
  | Replied "err + json"
  | VOpen purpose                            \<comment> \<open>\<open>fs::read\<close>\<close>
  | VRead purpose nat "byte list" nat
  | VDecode purpose "byte list" nat          \<comment> \<open>\<open>parse\<close>, \<open>derive_key\<close>, \<open>open\<close>\<close>
  | UAdopt Session nat                       \<comment> \<open>\<open>*session.lock() = Some(..)\<close>\<close>
  | RSave Session "byte list" wpc            \<comment> \<open>\<open>write\<close>, without the mutex\<close>
  | RAdopt Session
  | TLock                                    \<comment> \<open>\<open>session.lock().take()\<close>\<close>
  | TDone "err + unit"

text \<open>
  \<open>guard\<close> is the holder of the session mutex. \<open>past\<close> (the sessions whose image became the vault file,
  latest first), \<open>vers\<close> (how many did since the start) and \<open>hist\<close> (the requests in the order they took
  the mutex, with their answers) are ghosts.
\<close>

record world =
  vol :: vfs
  sess :: "Session option"
  guard :: "nat option"
  wth :: "nat \<Rightarrow> tpc option"
  past :: "Session list"
  vers :: nat
  hist :: "(nat \<times> u64 \<times> wop \<times> (err + json)) list"

text \<open>What the environment supplies to a step: the clock, random bytes, the size of a transfer, a failure,
  and whether \<open>wait_for_unlock\<close> ends in vain (when it does is the matter of \<open>KR_Concurrency\<close>).\<close>

record choice =
  ch_time :: u64
  ch_nonce :: "byte list"
  ch_salt :: "byte list"
  ch_size :: nat
  ch_fault :: "rstring option"
  ch_giveup :: bool

definition move :: "nat \<Rightarrow> tpc \<Rightarrow> world \<Rightarrow> world" where
  "move t c w = w\<lparr>wth := (wth w)(t \<mapsto> c)\<rparr>"

definition seal_image :: "'x rpc_ext_scheme \<Rightarrow> byte list \<Rightarrow> Session \<Rightarrow> err + byte list" where
  "seal_image x nonce s =
     bindS (map_errS ESerialize (body_to_vec x (body s))) (\<lambda>json.
     bindS (seal x (inner (skey s)) nonce (aad (params s) (salt s)) json) (\<lambda>c.
     Inr (aad (params s) (salt s) @ nonce @ c)))"

definition enter_step :: "'x rpc_ext_scheme \<Rightarrow> choice \<Rightarrow> nat \<Rightarrow> wop \<Rightarrow> world \<Rightarrow> world" where
  "enter_step x ch t q w =
     (case sess w of
        None \<Rightarrow> move t (Replied (Inl ELocked)) w
      | Some s \<Rightarrow>
          (case op_run x q (ch_time ch) s of (r, s1, sv) \<Rightarrow>
             let h = hist w @ [(t, ch_time ch, q, r)]
             in if \<not> sv then move t (Replied r) (w\<lparr>sess := Some s1, hist := h\<rparr>)
                else case seal_image x (ch_nonce ch) s1 of
                  Inl e \<Rightarrow> move t (Replied (Inl e)) (w\<lparr>sess := Some s1, hist := h\<rparr>)
                | Inr out \<Rightarrow> move t (OSave (op_reply q) s1 out CMkdir)
                              (w\<lparr>sess := Some s1, guard := Some t, hist := h\<rparr>)))"

definition installed :: "Session \<Rightarrow> world \<Rightarrow> world" where
  "installed s w = w\<lparr>past := s # past w, vers := Suc (vers w)\<rparr>"

definition save_step :: "vpath \<Rightarrow> choice \<Rightarrow> nat \<Rightarrow> json \<Rightarrow> Session \<Rightarrow> byte list \<Rightarrow> wpc \<Rightarrow> world \<Rightarrow> world" where
  "save_step p ch t j s out c w =
     (case write_call p out (ch_size ch) (ch_fault ch) c (vol w) of
        (Next c1, v) \<Rightarrow> move t (OSave j s out c1) (w\<lparr>vol := v\<rparr>)
      | (Stop (Inl e), v) \<Rightarrow> move t (Replied (Inl e)) (w\<lparr>vol := v, guard := None\<rparr>)
      | (Stop (Inr u), v) \<Rightarrow> move t (Replied (Inr j)) (installed s (w\<lparr>vol := v, guard := None\<rparr>)))"

definition read_step :: "vpath \<Rightarrow> choice \<Rightarrow> nat \<Rightarrow> purpose \<Rightarrow> nat \<Rightarrow> byte list \<Rightarrow> nat \<Rightarrow> world \<Rightarrow> world" where
  "read_step p ch t pu fd acc n w =
     (case ch_fault ch of
        Some e \<Rightarrow> move t (TDone (Inl (ERead e))) w
      | None \<Rightarrow>
          let bs = pread fd (length acc) (max 1 (ch_size ch)) (vol w)
          in if bs = [] then move t (VDecode pu acc n) w else move t (VRead pu fd (acc @ bs) n) w)"

definition open_step :: "vpath \<Rightarrow> choice \<Rightarrow> nat \<Rightarrow> purpose \<Rightarrow> world \<Rightarrow> world" where
  "open_step p ch t pu w =
     (case (ch_fault ch, inode (vol w) (v_file p)) of
        (Some e, _) \<Rightarrow> move t (TDone (Inl (ERead e))) w
      | (None, None) \<Rightarrow> move t (TDone (Inl (ERead NOT_FOUND))) w
      | (None, Some fd) \<Rightarrow> move t (VRead pu fd [] (vers w)) w)"

text \<open>The second half of \<open>rotate\<close> up to its write: the new session and its image.\<close>

definition reencrypt ::
  "'x rpc_ext_scheme \<Rightarrow> KdfParams \<Rightarrow> choice \<Rightarrow> byte list \<Rightarrow> Session \<Rightarrow> err + Session \<times> byte list" where
  "reencrypt x k ch new s =
     bindS (derive_key x new (ch_salt ch) k) (\<lambda>key.
     let s1 = \<lparr>body = \<lparr>entries = entries (body s)\<rparr>, skey = key, salt = ch_salt ch, params = k\<rparr>
     in bindS (seal_image x (ch_nonce ch) s1) (\<lambda>out. Inr (s1, out)))"

definition decode_step ::
  "'x rpc_ext_scheme \<Rightarrow> KdfParams \<Rightarrow> choice \<Rightarrow> nat \<Rightarrow> purpose \<Rightarrow> byte list \<Rightarrow> nat \<Rightarrow> world \<Rightarrow> world" where
  "decode_step x k ch t pu raw n w =
     (case decode_vault x (password_of pu) raw of
        Inl e \<Rightarrow> move t (TDone (Inl e)) w
      | Inr s \<Rightarrow>
          (case pu of
             ForUnlock pw \<Rightarrow> move t (UAdopt s n) w
           | ForRotate old new \<Rightarrow>
               (case reencrypt x k ch new s of
                  Inl e \<Rightarrow> move t (TDone (Inl e)) w
                | Inr (s1, out) \<Rightarrow> move t (RSave s1 out CMkdir) w)))"

definition rotate_step :: "vpath \<Rightarrow> choice \<Rightarrow> nat \<Rightarrow> Session \<Rightarrow> byte list \<Rightarrow> wpc \<Rightarrow> world \<Rightarrow> world" where
  "rotate_step p ch t s out c w =
     (case write_call p out (ch_size ch) (ch_fault ch) c (vol w) of
        (Next c1, v) \<Rightarrow> move t (RSave s out c1) (w\<lparr>vol := v\<rparr>)
      | (Stop (Inl e), v) \<Rightarrow> move t (TDone (Inl e)) (w\<lparr>vol := v\<rparr>)
      | (Stop (Inr u), v) \<Rightarrow> move t (RAdopt s) (installed s (w\<lparr>vol := v\<rparr>)))"

text \<open>
  The next step of thread \<open>t\<close>. \<open>is_locked\<close>, entering, adopting and locking take the session mutex, so
  they wait while another thread is saving.
\<close>

definition thread_step ::
  "'x rpc_ext_scheme \<Rightarrow> Config \<Rightarrow> choice \<Rightarrow> nat \<Rightarrow> world \<Rightarrow> world" where
  "thread_step x cf ch t w =
     (case wth w t of
        None \<Rightarrow> w
      | Some c \<Rightarrow>
          (case c of
             OCheck wait q \<Rightarrow>
               if guard w \<noteq> None then w
               else if sess w \<noteq> None then move t (OEnter q) w
               else if wait \<and> \<not> ch_giveup ch then w else move t (Replied (Inl ELocked)) w
           | OEnter q \<Rightarrow> if guard w \<noteq> None then w else enter_step x ch t q w
           | OSave j s out pc \<Rightarrow> save_step (c_vault_path cf) ch t j s out pc w
           | VOpen pu \<Rightarrow> open_step (c_vault_path cf) ch t pu w
           | VRead pu fd acc n \<Rightarrow> read_step (c_vault_path cf) ch t pu fd acc n w
           | VDecode pu raw n \<Rightarrow> decode_step x (c_kdf cf) ch t pu raw n w
           | UAdopt s n \<Rightarrow> if guard w \<noteq> None then w else move t (TDone (Inr ())) (w\<lparr>sess := Some s\<rparr>)
           | RSave s out pc \<Rightarrow> rotate_step (c_vault_path cf) ch t s out pc w
           | RAdopt s \<Rightarrow> if guard w \<noteq> None then w else move t (TDone (Inr ())) (w\<lparr>sess := Some s\<rparr>)
           | TLock \<Rightarrow> if guard w \<noteq> None then w else move t (TDone (Inr ())) (w\<lparr>sess := None\<rparr>)
           | Replied r \<Rightarrow> w
           | TDone r \<Rightarrow> w))"

text \<open>
  What a system may contain beside requests, locks and unlocks: failing system calls, unlocks that
  adopt a session read before a later save, and rotations.
\<close>

datatype extra = XFail | XStale | XRotate

definition starts :: "extra set \<Rightarrow> tpc \<Rightarrow> bool" where
  "starts K c =
     (case c of OCheck wait q \<Rightarrow> op_valid q | VOpen (ForUnlock pw) \<Rightarrow> True
      | VOpen (ForRotate old new) \<Rightarrow> XRotate \<in> K | TLock \<Rightarrow> True | _ \<Rightarrow> False)"

definition choice_ok :: "extra set \<Rightarrow> choice \<Rightarrow> bool" where
  "choice_ok K ch \<longleftrightarrow> length (ch_nonce ch) = NONCE_LEN \<and> length (ch_salt ch) = SALT_LEN \<and>
     (XFail \<in> K \<or> ch_fault ch = None)"

definition timely :: "extra set \<Rightarrow> tpc \<Rightarrow> world \<Rightarrow> bool" where
  "timely K c w = (case c of UAdopt s n \<Rightarrow> XStale \<in> K \<or> n = vers w | _ \<Rightarrow> True)"

inductive world_step :: "'x rpc_ext_scheme \<Rightarrow> Config \<Rightarrow> extra set \<Rightarrow> world \<Rightarrow> world \<Rightarrow> bool" for x cf K where
  w_spawn: "wth w t = None \<Longrightarrow> starts K c \<Longrightarrow> world_step x cf K w (move t c w)"
| w_run: "wth w t = Some c \<Longrightarrow> choice_ok K ch \<Longrightarrow> timely K c w \<Longrightarrow>
    world_step x cf K w (thread_step x cf ch t w)"

text \<open>The daemon, locked or not, over a vault file that is the sealing of \<open>s0\<close>.\<close>

definition good :: "'x rpc_ext_scheme \<Rightarrow> byte list \<Rightarrow> Session \<Rightarrow> bool" where
  "good x pw s \<longleftrightarrow> session_ok s \<and> keyed_by x pw s"

definition world_start :: "'x rpc_ext_scheme \<Rightarrow> vpath \<Rightarrow> byte list \<Rightarrow> Session \<Rightarrow> world \<Rightarrow> bool" where
  "world_start x p pw s0 w \<longleftrightarrow>
     vfs_ok (vol w) \<and> good x pw s0 \<and> (sess w = None \<or> sess w = Some s0) \<and> guard w = None \<and>
     wth w = (\<lambda>_. None) \<and> past w = [s0] \<and> vers w = 0 \<and> hist w = [] \<and>
     (\<exists>i. inode (vol w) (v_file p) = Some i \<and> seals x s0 (content (node (vol w) i)))"

lemma move_simps [simp]:
  "wth (move t c w) = (wth w)(t \<mapsto> c)" "vol (move t c w) = vol w" "sess (move t c w) = sess w"
  "guard (move t c w) = guard w" "past (move t c w) = past w" "vers (move t c w) = vers w"
  "hist (move t c w) = hist w"
  by (simp_all add: move_def)

lemma installed_simps [simp]:
  "wth (installed s w) = wth w" "vol (installed s w) = vol w" "sess (installed s w) = sess w"
  "guard (installed s w) = guard w" "past (installed s w) = s # past w"
  "vers (installed s w) = Suc (vers w)" "hist (installed s w) = hist w"
  by (simp_all add: installed_def)

lemma seal_image_Inr:
  "seal_image x n s = Inr out \<Longrightarrow> length n = NONCE_LEN \<Longrightarrow> seals x s out"
  by (auto simp: seal_image_def seals_def bindS_eq_Inr map_errS_def split: sum.splits)

lemma seal_image_total: "sealing_total x \<Longrightarrow> \<exists>out. seal_image x n s = Inr out"
proof -
  assume "sealing_total x"
  then have "sealable x (body s) (skey s) (salt s) (params s)" by (simp add: sealing_total_def)
  then obtain json where "body_to_vec x (body s) = Inr json"
    "\<forall>n. aead_encrypt x (inner (skey s)) n (aad (params s) (salt s)) json \<noteq> None"
    by (auto simp: sealable_def)
  then show ?thesis by (auto simp: seal_image_def bindS_eq_Inr seal_def split: option.split)
qed

subsection \<open>The vault file is always whole\<close>

text \<open>Whatever opens a sealed image opens it to the session that was sealed.\<close>

lemma decode_any:
  assumes "aead_ok x" "aead_auth x" "kdf_len x" "body_codec x" "good x pw s" "seals x s raw"
    and "decode_vault x pw' raw = Inr s'"
  shows "s' = s"
proof -
  have ok: "session_ok s" "keyed_by x pw s" using assms(5) by (simp_all add: good_def)
  from assms(6) obtain json nonce c where json: "body_to_vec x (body s) = Inr json"
    and n: "length nonce = NONCE_LEN"
    and c: "aead_encrypt x (inner (skey s)) nonce (aad (params s) (salt s)) json = Some c"
    and raw: "raw = aad (params s) (salt s) @ nonce @ c"
    by (auto simp: seals_def)
  let ?h = "\<lparr>h_params = params s, h_salt = salt s, h_nonce = nonce\<rparr>"
  have parse: "parse raw = Inr (?h, c)"
    using parse_image [of ?h c] ok(1) n by (simp add: raw session_ok_def)
  with assms(7) obtain key where key: "derive_key x pw' (salt s) (params s) = Inr key"
    and dec: "aead_decrypt x (inner key) nonce (aad (params s) (salt s)) c \<noteq> None"
    by (auto simp: decode_vault_def bindS_eq_Inr Let_def)
  have "length (inner key) = length (inner (skey s))"
    using derive_key_len [OF assms(3) key] ok(1) by (simp add: session_ok_def)
  then have "inner key = inner (skey s)"
    using aead_authD [OF assms(2) c, of "inner key" nonce "aad (params s) (salt s)"] dec by auto
  moreover have "pinned key = pinned (skey s)"
    using derive_key_len [OF assms(3) key] derive_key_len [OF assms(3)] ok(2) by (simp add: keyed_by_def)
  ultimately have "key = skey s" by (cases key; cases "skey s") auto
  then have "keyed_by x pw' s" using key by (simp add: keyed_by_def)
  from decode_sealed [OF assms(1,4) ok(1) this assms(6)] assms(7) show ?thesis by simp
qed

text \<open>What holds of a thread: the saver's image and calls, and that readers hold whole images.\<close>

definition is_save :: "tpc \<Rightarrow> bool" where
  "is_save c = (case c of OSave j s out pc \<Rightarrow> True | _ \<Rightarrow> False)"

definition sealed_past :: "'x rpc_ext_scheme \<Rightarrow> byte list \<Rightarrow> world \<Rightarrow> bool" where
  "sealed_past x raw w \<longleftrightarrow> (\<exists>s \<in> set (past w). seals x s raw)"

definition thread_ok :: "'x rpc_ext_scheme \<Rightarrow> vpath \<Rightarrow> world \<Rightarrow> nat \<Rightarrow> tpc \<Rightarrow> bool" where
  "thread_ok x p w t c =
     (case c of
        OCheck wait q \<Rightarrow> op_valid q
      | OEnter q \<Rightarrow> op_valid q
      | OSave j s out pc \<Rightarrow> guard w = Some t \<and> sess w = Some s \<and> seals x s out \<and> wpc_ok p out (vol w) pc
      | VOpen pu \<Rightarrow> (\<exists>pw. pu = ForUnlock pw)
      | VRead pu fd acc n \<Rightarrow> (\<exists>pw. pu = ForUnlock pw) \<and> settled p (vol w) fd \<and>
          sealed_past x (content (node (vol w) fd)) w \<and>
          (\<exists>rest. content (node (vol w) fd) = acc @ rest)
      | VDecode pu raw n \<Rightarrow> (\<exists>pw. pu = ForUnlock pw) \<and> sealed_past x raw w
      | UAdopt s n \<Rightarrow> s \<in> set (past w)
      | RSave s out pc \<Rightarrow> False
      | RAdopt s \<Rightarrow> False
      | _ \<Rightarrow> True)"

definition world_inv :: "'x rpc_ext_scheme \<Rightarrow> vpath \<Rightarrow> byte list \<Rightarrow> world \<Rightarrow> bool" where
  "world_inv x p pw w \<longleftrightarrow>
     vfs_ok (vol w) \<and> (\<forall>t c. wth w t = Some c \<longrightarrow> thread_ok x p w t c) \<and>
     (\<forall>t. guard w = Some t \<longrightarrow> (\<exists>c. wth w t = Some c \<and> is_save c)) \<and>
     past w \<noteq> [] \<and> (\<forall>s \<in> set (past w). good x pw s) \<and> (\<forall>s. sess w = Some s \<longrightarrow> good x pw s) \<and>
     (\<exists>i. inode (vol w) (v_file p) = Some i \<and> seals x (hd (past w)) (content (node (vol w) i)))"

lemma world_invD:
  assumes "world_inv x p pw w"
  shows "vfs_ok (vol w)" "past w \<noteq> []" "s \<in> set (past w) \<Longrightarrow> good x pw s" "sess w = Some s \<Longrightarrow> good x pw s"
    "wth w t = Some c \<Longrightarrow> thread_ok x p w t c" "wth w t = Some c \<Longrightarrow> \<not> is_save c \<Longrightarrow> guard w \<noteq> Some t"
    "\<exists>i. inode (vol w) (v_file p) = Some i \<and> seals x (hd (past w)) (content (node (vol w) i))"
    "wth w t = None \<Longrightarrow> guard w \<noteq> Some t"
  using assms by (auto simp: world_inv_def)

text \<open>Nothing a reader may rely on is lost from \<open>w\<close> to \<open>w'\<close>.\<close>

definition preserves :: "vpath \<Rightarrow> world \<Rightarrow> world \<Rightarrow> bool" where
  "preserves p w w' \<longleftrightarrow> set (past w) \<subseteq> set (past w') \<and>
     (\<forall>i. settled p (vol w) i \<longrightarrow> settled p (vol w') i \<and> node (vol w') i = node (vol w) i)"

lemma thread_ok_preserves:
  assumes "preserves p w w'" "thread_ok x p w t c" "\<not> is_save c"
  shows "thread_ok x p w' t c"
  using assms by (cases c) (auto simp: thread_ok_def is_save_def preserves_def sealed_past_def)

lemma thread_ok_same:
  assumes "vol w' = vol w" "guard w' = guard w" "sess w' = sess w" "past w' = past w"
  shows "thread_ok x p w' t c = thread_ok x p w t c"
  using assms by (cases c) (simp_all add: thread_ok_def sealed_past_def)

lemma save_is_guard: "thread_ok x p w t c \<Longrightarrow> is_save c \<Longrightarrow> guard w = Some t"
  by (cases c) (simp_all add: thread_ok_def is_save_def)

text \<open>A step of thread \<open>t\<close> alone, when no other thread holds the mutex or the step does not concern it.\<close>

lemma world_inv_move:
  assumes inv: "world_inv x p pw w"
    and th: "wth w' = (wth w)(t \<mapsto> c)" and le: "preserves p w w'" and vol: "vfs_ok (vol w')"
    and alone: "vol w' = vol w \<and> guard w' = guard w \<and> sess w' = sess w \<and> past w' = past w \<and> guard w \<noteq> Some t \<or>
      guard w \<in> {None, Some t} \<and> guard w' \<in> {None, Some t}"
    and c: "thread_ok x p w' t c" "guard w' = Some t \<Longrightarrow> is_save c"
    and good: "past w' \<noteq> []" "\<And>s. s \<in> set (past w') \<Longrightarrow> good x pw s" "\<And>s. sess w' = Some s \<Longrightarrow> good x pw s"
    and image: "\<exists>i. inode (vol w') (v_file p) = Some i \<and> seals x (hd (past w')) (content (node (vol w') i))"
  shows "world_inv x p pw w'"
proof -
  have other: "thread_ok x p w' u d" if u: "wth w u = Some d" "u \<noteq> t" for u d
  proof -
    have d: "thread_ok x p w u d" using inv u(1) by (simp add: world_inv_def)
    show ?thesis using alone
    proof
      assume "guard w \<in> {None, Some t} \<and> guard w' \<in> {None, Some t}"
      then have "\<not> is_save d" using save_is_guard [OF d] u(2) by auto
      then show ?thesis by (rule thread_ok_preserves [OF le d])
    qed (use d thread_ok_same [of w' w] in auto)
  qed
  have held: "\<exists>d. wth w' u = Some d \<and> is_save d" if u: "guard w' = Some u" for u
  proof (cases "u = t")
    case False
    with alone u have "guard w = Some u" by auto
    with inv False th show ?thesis by (auto simp: world_inv_def)
  qed (use c(2) u th in auto)
  show ?thesis
    unfolding world_inv_def
    using th other c(1) held vol good image by (auto split: if_splits)
qed

text \<open>A step that changes only where the thread is.\<close>

lemma world_inv_goto:
  assumes "world_inv x p pw w" "guard w \<noteq> Some t" "thread_ok x p w t c"
  shows "world_inv x p pw (move t c w)"
  by (rule world_inv_move [OF assms(1), of _ t c])
    (use assms in \<open>auto simp: world_inv_def preserves_def thread_ok_same [of "move t c w" w]\<close>)

text \<open>A step inside the mutex that touches only the session.\<close>

lemma world_inv_session:
  assumes "world_inv x p pw w" "guard w = None" "\<And>s. u = Some s \<Longrightarrow> good x pw s"
    and "thread_ok x p (w\<lparr>sess := u, guard := g, hist := h\<rparr>) t c" "g = None \<or> g = Some t \<and> is_save c"
  shows "world_inv x p pw (move t c (w\<lparr>sess := u, guard := g, hist := h\<rparr>))"
  by (rule world_inv_move [OF assms(1), of _ t c])
    (use assms in \<open>auto simp: world_inv_def preserves_def
        thread_ok_same [of "move t c (w\<lparr>sess := u, guard := g, hist := h\<rparr>)" "w\<lparr>sess := u, guard := g, hist := h\<rparr>"]\<close>)

lemma good_op:
  assumes "good x pw s" "op_valid q" "op_run x q ts s = (r, s1, sv)"
  shows "good x pw s1"
  using assms op_run_spec [OF assms(2) _ assms(3)] by (simp add: good_def session_ok_def keyed_by_def)

lemma guard_idle: "guard w = None \<Longrightarrow> w\<lparr>sess := u, hist := h\<rparr> = w\<lparr>sess := u, guard := None, hist := h\<rparr>"
  by (cases w) simp

lemma sess_idle: "guard w = None \<Longrightarrow> w\<lparr>sess := u\<rparr> = w\<lparr>sess := u, guard := None, hist := hist w\<rparr>"
  by (cases w) simp

lemma enter_inv:
  assumes "world_inv x p pw w" "guard w = None" "op_valid q" "length (ch_nonce ch) = NONCE_LEN"
  shows "world_inv x p pw (enter_step x ch t q w)"
proof (cases "sess w")
  case None
  with assms show ?thesis by (simp add: enter_step_def world_inv_goto thread_ok_def)
next
  case (Some s)
  then have s: "good x pw s" using assms(1) by (simp add: world_inv_def)
  obtain r s1 sv where run: "op_run x q (ch_time ch) s = (r, s1, sv)" by (cases "op_run x q (ch_time ch) s")
  have s1: "good x pw s1" by (rule good_op [OF s assms(3) run])
  let ?h = "hist w @ [(t, ch_time ch, q, r)]"
  have reply: "world_inv x p pw (move t (Replied a) (w\<lparr>sess := Some s1, hist := ?h\<rparr>))" for a
    unfolding guard_idle [OF assms(2)]
    by (rule world_inv_session [OF assms(1,2)]) (use s1 in \<open>simp_all add: thread_ok_def\<close>)
  have save: "world_inv x p pw (move t (OSave j s1 out CMkdir) (w\<lparr>sess := Some s1, guard := Some t, hist := ?h\<rparr>))"
    if "seals x s1 out" for j out
    by (rule world_inv_session [OF assms(1,2)])
      (use s1 that in \<open>simp_all add: thread_ok_def is_save_def wpc_ok_def\<close>)
  show ?thesis
  proof (cases "seal_image x (ch_nonce ch) s1")
    case (Inl e)
    with Some run reply show ?thesis by (simp add: enter_step_def Let_def)
  next
    case (Inr out)
    with Some run reply save [OF seal_image_Inr [OF Inr assms(4)]] show ?thesis
      by (simp add: enter_step_def Let_def)
  qed
qed

lemma save_inv:
  assumes inv: "world_inv x p pw w" and th: "wth w t = Some (OSave j s out c)"
  shows "world_inv x p pw (save_step p ch t j s out c w)"
proof -
  note D = world_invD [OF inv]
  have held: "guard w = Some t" "sess w = Some s" "seals x s out" "wpc_ok p out (vol w) c"
    using D(5) [OF th] by (simp_all add: thread_ok_def)
  have w: "vfs_ok (vol w)" "good x pw s" "\<forall>s \<in> set (past w). good x pw s"
    using D(1,3) D(4) [OF held(2)] by blast+
  obtain r v where call: "write_call p out (ch_size ch) (ch_fault ch) c (vol w) = (r, v)"
    by (cases "write_call p out (ch_size ch) (ch_fault ch) c (vol w)")
  have eff: "call_effect p out (vol w) r v" by (rule write_call_effect [OF w(1) held(4) call])
  then have v: "vfs_ok v" "\<And>i. settled p (vol w) i \<Longrightarrow> settled p v i \<and> node v i = node (vol w) i"
    by (simp_all add: call_effect_def)
  from D(2,7) obtain i where i: "inode (vol w) (v_file p) = Some i"
    "seals x (hd (past w)) (content (node (vol w) i))" "past w \<noteq> []" by blast
  with v(2) vault_settled [OF w(1) i(1)] have same: "node v i = node (vol w) i" by blast
  note move = world_inv_move [OF inv]
  show ?thesis
  proof (cases r)
    case (Next c1)
    have "world_inv x p pw (move t (OSave j s out c1) (w\<lparr>vol := v\<rparr>))"
      by (rule move [where t = t and c = "OSave j s out c1"])
        (use Next eff v held w i same in \<open>auto simp: call_effect_def preserves_def thread_ok_def is_save_def\<close>)
    with Next call show ?thesis by (simp add: save_step_def)
  next
    case (Stop q)
    show ?thesis
    proof (cases q)
      case (Inl e)
      have "world_inv x p pw (move t (Replied (Inl e)) (w\<lparr>vol := v, guard := None\<rparr>))"
        by (rule move [where t = t and c = "Replied (Inl e)"])
          (use Stop Inl eff v held w i same in \<open>auto simp: call_effect_def preserves_def thread_ok_def\<close>)
      with Stop Inl call show ?thesis by (simp add: save_step_def)
    next
      case (Inr u)
      with Stop eff obtain k where k: "inode v (v_file p) = Some k" "content (node v k) = out"
        by (auto simp: call_effect_def)
      have "world_inv x p pw (move t (Replied (Inr j)) (installed s (w\<lparr>vol := v, guard := None\<rparr>)))"
        by (rule move [where t = t and c = "Replied (Inr j)"])
          (use v held w k in \<open>auto simp: preserves_def thread_ok_def\<close>)
      with Stop Inr call show ?thesis by (simp add: save_step_def)
    qed
  qed
qed

lemma read_inv:
  assumes inv: "world_inv x p pw w" and th: "wth w t = Some (VRead pu fd acc n)"
  shows "world_inv x p pw (read_step p ch t pu fd acc n w)"
proof -
  have ok: "thread_ok x p w t (VRead pu fd acc n)" using th by (rule world_invD(5) [OF inv])
  let ?c = "content (node (vol w) fd)"
  let ?bs = "pread fd (length acc) (max 1 (ch_size ch)) (vol w)"
  obtain rest where acc: "?c = acc @ rest" using ok by (auto simp: thread_ok_def)
  then have bs: "?bs = take (max 1 (ch_size ch)) rest" by (simp add: pread_def)
  have "guard w \<noteq> Some t" by (rule world_invD(6) [OF inv th]) (simp add: is_save_def)
  note go = world_inv_goto [OF inv this]
  have "world_inv x p pw (move t (VDecode pu acc n) w)" if "?bs = []"
  proof (rule go)
    from that bs have "rest = []" by auto
    with acc have "acc = ?c" by simp
    with ok show "thread_ok x p w t (VDecode pu acc n)" by (simp add: thread_ok_def)
  qed
  moreover have "world_inv x p pw (move t (VRead pu fd (acc @ ?bs) n) w)"
  proof (rule go)
    have "?c = (acc @ ?bs) @ drop (max 1 (ch_size ch)) rest" using acc bs by simp
    then have "\<exists>r. ?c = (acc @ ?bs) @ r" ..
    with ok show "thread_ok x p w t (VRead pu fd (acc @ ?bs) n)" by (simp add: thread_ok_def)
  qed
  ultimately show ?thesis
    using go by (auto simp: read_step_def Let_def thread_ok_def split: option.split)
qed

definition thread_libs :: "'x rpc_ext_scheme \<Rightarrow> bool" where
  "thread_libs x \<longleftrightarrow> aead_ok x \<and> aead_auth x \<and> kdf_len x \<and> body_codec x"

lemma decode_past:
  assumes "thread_libs x" "world_inv x p pw w" "sealed_past x raw w" "decode_vault x pw' raw = Inr s"
  shows "s \<in> set (past w)"
proof -
  from assms(3) obtain s1 where s1: "s1 \<in> set (past w)" "seals x s1 raw" by (auto simp: sealed_past_def)
  have "good x pw s1" using world_invD(3) [OF assms(2) s1(1)] .
  with decode_any [OF _ _ _ _ this s1(2) assms(4)] assms(1) s1(1) show ?thesis by (auto simp: thread_libs_def)
qed

lemma decode_inv:
  assumes "thread_libs x" "world_inv x p pw w" "wth w t = Some (VDecode pu raw n)"
  shows "world_inv x p pw (decode_step x k ch t pu raw n w)"
proof -
  have ok: "thread_ok x p w t (VDecode pu raw n)" using assms(3) by (rule world_invD(5) [OF assms(2)])
  have "guard w \<noteq> Some t" by (rule world_invD(6) [OF assms(2,3)]) (simp add: is_save_def)
  note go = world_inv_goto [OF assms(2) this]
  from ok obtain pw' where pu: "pu = ForUnlock pw'" and "sealed_past x raw w" by (auto simp: thread_ok_def)
  with decode_past [OF assms(1,2)] go show ?thesis
    by (auto simp: decode_step_def thread_ok_def split: sum.split)
qed

lemma open_inv:
  assumes "world_inv x p pw w" "wth w t = Some (VOpen pu)"
  shows "world_inv x p pw (open_step p ch t pu w)"
proof -
  note D = world_invD [OF assms(1)]
  have ok: "thread_ok x p w t (VOpen pu)" using assms(2) by (rule D(5))
  have "guard w \<noteq> Some t" by (rule D(6) [OF assms(2)]) (simp add: is_save_def)
  note go = world_inv_goto [OF assms(1) this]
  from D(7) obtain i where i: "inode (vol w) (v_file p) = Some i"
    "seals x (hd (past w)) (content (node (vol w) i))" by blast
  have "thread_ok x p w t (VRead pu i [] (vers w))"
    using ok i vault_settled [OF D(1) i(1)] D(2) by (auto simp: thread_ok_def sealed_past_def)
  with go i(1) show ?thesis by (auto simp: open_step_def thread_ok_def split: option.split)
qed

lemma world_inv_step:
  assumes libs: "thread_libs x" and kinds: "XRotate \<notin> K"
    and inv: "world_inv x (c_vault_path cf) pw w" and step: "world_step x cf K w w'"
  shows "world_inv x (c_vault_path cf) pw w'"
  using step
proof cases
  case (w_spawn t c)
  then have "thread_ok x (c_vault_path cf) w t c"
    using kinds by (auto simp: starts_def thread_ok_def split: tpc.splits purpose.splits)
  moreover have "guard w \<noteq> Some t" using inv w_spawn(2) by (auto simp: world_inv_def)
  ultimately show ?thesis using inv w_spawn by (auto intro: world_inv_goto)
next
  case (w_run t c ch)
  note D = world_invD [OF inv]
  have ok: "thread_ok x (c_vault_path cf) w t c" using w_run(2) by (rule D(5))
  note go = world_inv_goto [OF inv]
  have sess: "world_inv x (c_vault_path cf) pw (move t (TDone (Inr ())) (w\<lparr>sess := u\<rparr>))"
    if "guard w = None" "\<And>s. u = Some s \<Longrightarrow> good x pw s" for u
    by (subst sess_idle [OF that(1)], rule world_inv_session [OF inv]) (use that in \<open>auto simp: thread_ok_def\<close>)
  show ?thesis
  proof (cases c)
    case (OCheck wait q)
    with w_run ok go inv show ?thesis by (auto simp: thread_step_def thread_ok_def)
  next
    case (OEnter q)
    with w_run ok inv show ?thesis
      by (auto simp: thread_step_def thread_ok_def choice_ok_def intro: enter_inv)
  next
    case (OSave j s out pc)
    with w_run save_inv [OF inv] show ?thesis by (simp add: thread_step_def)
  next
    case (VOpen pu)
    with w_run open_inv [OF inv] show ?thesis by (simp add: thread_step_def)
  next
    case (VRead pu fd acc n)
    with w_run read_inv [OF inv] show ?thesis by (simp add: thread_step_def)
  next
    case (VDecode pu raw n)
    with w_run decode_inv [OF libs inv] show ?thesis by (simp add: thread_step_def)
  next
    case (UAdopt s n)
    with w_run sess [of "Some s"] D(3) [of s] ok inv show ?thesis
      by (auto simp: thread_step_def thread_ok_def)
  next
    case TLock
    with w_run sess [of None] inv show ?thesis by (auto simp: thread_step_def)
  qed (use w_run inv ok in \<open>auto simp: thread_step_def thread_ok_def\<close>)
qed

lemma world_inv_start: "world_start x p pw s0 w \<Longrightarrow> world_inv x p pw w"
  by (auto simp: world_start_def world_inv_def)

definition guarded_world :: "'x rpc_ext_scheme \<Rightarrow> Config \<Rightarrow> byte list \<Rightarrow> extra set \<Rightarrow> world \<Rightarrow> bool" where
  "guarded_world x cf pw K w \<longleftrightarrow>
     thread_libs x \<longrightarrow> XRotate \<notin> K \<longrightarrow> world_inv x (c_vault_path cf) pw w"

interpretation worlds: invariant_system "world_start x (c_vault_path cf) pw s0" "world_step x cf K"
  "guarded_world x cf pw K" for x cf pw s0 K
proof
  show "guarded_world x cf pw K w" if "world_start x (c_vault_path cf) pw s0 w" for w
    using that by (simp add: guarded_world_def world_inv_start)
  show "guarded_world x cf pw K w'" if "guarded_world x cf pw K w" "world_step x cf K w w'" for w w'
    using that world_inv_step by (auto simp: guarded_world_def)
qed

end
