(* ===== verification/KR_Linear.thy ===== *)
theory KR_Linear
  imports KR_Threads
begin

text \<open>
  Why the session mutex is enough when no rotation runs and every unlock adopts a file no one has
  rewritten since it was read: in every interleaving the requests that reached the session form one
  sequential history, and the file is the store after it.
\<close>

subsection \<open>Sequential histories\<close>

fun seq_run :: "'x rpc_ext_scheme \<Rightarrow> (nat \<times> u64 \<times> wop \<times> (err + json)) list \<Rightarrow> store \<Rightarrow> (err + json) list \<times> store" where
  "seq_run x [] st = ([], st)"
| "seq_run x ((t, ts, q, r) # h) st =
     (case op_spec x q ts st of (a, st1) \<Rightarrow> case seq_run x h st1 of (as, st2) \<Rightarrow> (a # as, st2))"

definition answers :: "(nat \<times> u64 \<times> wop \<times> (err + json)) list \<Rightarrow> (err + json) list" where
  "answers h = map (\<lambda>(t, ts, q, r). r) h"

text \<open>Run one after the other on \<open>st\<close>, the requests of \<open>h\<close> give the answers of \<open>h\<close> and end in \<open>st'\<close>.\<close>

definition explains :: "'x rpc_ext_scheme \<Rightarrow> (nat \<times> u64 \<times> wop \<times> (err + json)) list \<Rightarrow> store \<Rightarrow> store \<Rightarrow> bool" where
  "explains x h st st' \<longleftrightarrow> seq_run x h st = (answers h, st')"

lemma seq_run_snoc:
  "seq_run x h st = (as, st1) \<Longrightarrow> op_spec x q ts st1 = (a, st2) \<Longrightarrow>
   seq_run x (h @ [(t, ts, q, r)]) st = (as @ [a], st2)"
  by (induction h arbitrary: st as) (auto split: prod.splits)

lemma explains_Nil [simp]: "explains x [] st st' \<longleftrightarrow> st' = st"
  by (auto simp: explains_def answers_def)

lemma explains_snoc:
  "explains x h st st1 \<Longrightarrow> op_spec x q ts st1 = (r, st2) \<Longrightarrow> explains x (h @ [(t, ts, q, r)]) st st2"
  unfolding explains_def answers_def by (simp add: seq_run_snoc)

text \<open>The history only grows.\<close>

lemma thread_hist: "\<exists>h. hist (thread_step x cf ch t w) = hist w @ h"
  by (auto simp: thread_step_def enter_step_def save_step_def open_step_def read_step_def decode_step_def
      rotate_step_def Let_def split: option.split tpc.split sum.split prod.split wnext.split purpose.split)

lemma hist_grows: "(world_step x cf K)\<^sup>*\<^sup>* w w' \<Longrightarrow> \<exists>h. hist w' = hist w @ h"
proof (induction rule: rtranclp_induct)
  case (step v w')
  from step(2) have "\<exists>h. hist w' = hist v @ h" by cases (use thread_hist in auto)
  with step.IH show ?case by auto
qed simp

subsection \<open>The invariant\<close>

definition memory_ok :: "'x rpc_ext_scheme \<Rightarrow> store \<Rightarrow> world \<Rightarrow> bool" where
  "memory_ok x st0 w \<longleftrightarrow>
     (case guard w of
        None \<Rightarrow> (sess w = None \<or> sess w = Some (hd (past w))) \<and>
          explains x (hist w) st0 (store_of (hd (past w)))
      | Some t \<Rightarrow> \<exists>j s out c h ts q. wth w t = Some (OSave j s out c) \<and> hist w = h @ [(t, ts, q, Inr j)] \<and>
          explains x h st0 (store_of (hd (past w))) \<and> explains x (hist w) st0 (store_of s))"

text \<open>A request is in the history at most once, exactly from entering on, with the answer it gives.\<close>

definition once :: "world \<Rightarrow> bool" where
  "once w \<longleftrightarrow> distinct (map fst (hist w)) \<and>
     (\<forall>t ts q r. (t, ts, q, r) \<in> set (hist w) \<longrightarrow> wth w t = Some (Replied r) \<or> guard w = Some t) \<and>
     (\<forall>t r. wth w t = Some (Replied r) \<longrightarrow> r = Inl ELocked \<or> (\<exists>ts q. (t, ts, q, r) \<in> set (hist w)))"

text \<open>A reader whose version is still the current one has read the current file.\<close>

definition version_ok :: "'x rpc_ext_scheme \<Rightarrow> vpath \<Rightarrow> world \<Rightarrow> tpc \<Rightarrow> bool" where
  "version_ok x p w c =
     (case c of
        VRead pu fd acc n \<Rightarrow> n \<le> vers w \<and> (n = vers w \<longrightarrow> inode (vol w) (v_file p) = Some fd)
      | VDecode pu raw n \<Rightarrow> n \<le> vers w \<and> (n = vers w \<longrightarrow> seals x (hd (past w)) raw)
      | UAdopt s n \<Rightarrow> n \<le> vers w \<and> (n = vers w \<longrightarrow> s = hd (past w))
      | _ \<Rightarrow> True)"

definition calm_inv :: "'x rpc_ext_scheme \<Rightarrow> vpath \<Rightarrow> byte list \<Rightarrow> store \<Rightarrow> world \<Rightarrow> bool" where
  "calm_inv x p pw st0 w \<longleftrightarrow>
     world_inv x p pw w \<and> memory_ok x st0 w \<and> once w \<and> (\<forall>t c. wth w t = Some c \<longrightarrow> version_ok x p w c)"

lemma calm_invD:
  assumes "calm_inv x p pw st0 w"
  shows "world_inv x p pw w" "memory_ok x st0 w" "once w" "wth w t = Some c \<Longrightarrow> version_ok x p w c"
  using assms by (simp_all add: calm_inv_def)

lemma not_in_hist:
  assumes "once w" "guard w \<noteq> Some t" "\<And>r. wth w t \<noteq> Some (Replied r)"
  shows "t \<notin> fst ` set (hist w)"
  using assms unfolding once_def by fastforce

lemma version_ok_same:
  "vol w' = vol w \<Longrightarrow> past w' = past w \<Longrightarrow> vers w' = vers w \<Longrightarrow> version_ok x p w' c = version_ok x p w c"
  by (cases c) (simp_all add: version_ok_def)

text \<open>A step that changes only where a thread is, before it has answered.\<close>

lemma calm_goto:
  assumes inv: "calm_inv x p pw st0 w" and t: "guard w \<noteq> Some t" "\<And>r. wth w t \<noteq> Some (Replied r)"
    and c: "thread_ok x p w t c" "version_ok x p w c" "\<And>r. c = Replied r \<Longrightarrow> r = Inl ELocked"
  shows "calm_inv x p pw st0 (move t c w)"
proof -
  note D = calm_invD [OF inv]
  have "world_inv x p pw (move t c w)" by (rule world_inv_goto [OF D(1) t(1) c(1)])
  moreover have "memory_ok x st0 (move t c w)"
  proof (cases "guard w")
    case (Some u)
    with t(1) have "wth (move t c w) u = wth w u" by simp
    with Some D(2) show ?thesis by (simp add: memory_ok_def)
  qed (use D(2) in \<open>simp add: memory_ok_def\<close>)
  moreover have "once (move t c w)"
    using D(3) not_in_hist [OF D(3) t] c(3) unfolding once_def by (force split: if_splits)
  moreover have "version_ok x p (move t c w) d" if "wth (move t c w) u = Some d" for u d
    using that c(2) D(4) version_ok_same [of "move t c w" w x p d] by (auto split: if_splits)
  ultimately show ?thesis by (simp add: calm_inv_def)
qed

subsection \<open>Entering and saving\<close>

lemma calm_enter:
  assumes inv: "calm_inv x p pw st0 w" and th: "wth w t = Some (OEnter q)" and idle: "guard w = None"
    and ch: "length (ch_nonce ch) = NONCE_LEN" and tot: "sealing_total x"
  shows "calm_inv x p pw st0 (enter_step x ch t q w)"
proof (cases "sess w")
  case None
  have "calm_inv x p pw st0 (move t (Replied (Inl ELocked)) w)"
    by (rule calm_goto [OF inv]) (simp_all add: th idle thread_ok_def version_ok_def)
  with None show ?thesis by (simp add: enter_step_def)
next
  case (Some s)
  note D = calm_invD [OF inv] and W = world_invD [OF calm_invD(1) [OF inv]]
  have q: "op_valid q" using W(5) [OF th] by (simp add: thread_ok_def)
  have s: "s = hd (past w)" "explains x (hist w) st0 (store_of s)"
    using D(2) idle Some by (auto simp: memory_ok_def)
  have wf: "bt_wf (entries (body s))" using W(4) [OF Some] by (simp add: good_def session_ok_def)
  obtain r s1 sv where run: "op_run x q (ch_time ch) s = (r, s1, sv)" by (cases "op_run x q (ch_time ch) s")
  note op = op_run_spec [OF q wf run]
  let ?h = "hist w @ [(t, ch_time ch, q, r)]"
  have ex: "explains x ?h st0 (store_of s1)" by (rule explains_snoc [OF s(2) op(1)])
  have new: "t \<notin> fst ` set (hist w)" by (rule not_in_hist [OF D(3)]) (simp_all add: th idle)
  have world: "world_inv x p pw (enter_step x ch t q w)" by (rule enter_inv [OF D(1) idle q ch])
  have once: "once (move t c (w\<lparr>sess := Some s1, guard := g, hist := ?h\<rparr>))"
    if "c = Replied r \<or> \<not> (\<exists>a. c = Replied a) \<and> g = Some t" "g = None \<or> g = Some t" for c g
  proof -
    have "u \<noteq> t" if "(u, ts, q', r') \<in> set (hist w)" for u ts q' r' using new that by force
    then show ?thesis using D(3) idle new that unfolding once_def by (auto split: if_splits)
  qed
  have ver: "version_ok x p w' d" if "wth w' = (wth w)(t \<mapsto> c)" "wth w' u = Some d"
    "vol w' = vol w" "past w' = past w" "vers w' = vers w" "version_ok x p w c" for w' u d c
    using that(1,2,6) D(4) [of u d] version_ok_same [OF that(3-5), of x p d] by (auto split: if_splits)
  show ?thesis
  proof (cases sv)
    case False
    with op(7) have "s1 = s" by simp
    let ?w = "w\<lparr>sess := Some s1, hist := ?h\<rparr>"
    have e: "enter_step x ch t q w = move t (Replied r) ?w"
      using Some run False by (simp add: enter_step_def Let_def)
    have "memory_ok x st0 (move t (Replied r) ?w)"
      using idle ex s(1) \<open>s1 = s\<close> by (simp add: memory_ok_def)
    moreover have "once (move t (Replied r) ?w)" using once [of "Replied r" None] guard_idle [OF idle] by simp
    moreover have "version_ok x p (move t (Replied r) ?w) d" if "wth (move t (Replied r) ?w) u = Some d" for u d
      by (rule ver [where u = u and c = "Replied r"]) (use that in \<open>simp_all add: version_ok_def\<close>)
    ultimately show ?thesis using world unfolding e calm_inv_def by blast
  next
    case True
    obtain out where out: "seal_image x (ch_nonce ch) s1 = Inr out" using seal_image_total [OF tot] by blast
    let ?c = "OSave (op_reply q) s1 out CMkdir"
    let ?w = "w\<lparr>sess := Some s1, guard := Some t, hist := ?h\<rparr>"
    have e: "enter_step x ch t q w = move t ?c ?w"
      using Some run True out by (simp add: enter_step_def Let_def)
    have "memory_ok x st0 (move t ?c ?w)"
      using ex s op(6) [OF True] by (simp add: memory_ok_def)
    moreover have "once (move t ?c ?w)" using once [of ?c "Some t"] by simp
    moreover have "version_ok x p (move t ?c ?w) d" if "wth (move t ?c ?w) u = Some d" for u d
      by (rule ver [where u = u and c = ?c]) (use that in \<open>simp_all add: version_ok_def\<close>)
    ultimately show ?thesis using world unfolding e calm_inv_def by blast
  qed
qed

lemma write_call_ok:
  "wpc_ok p out v c \<Longrightarrow> write_call p out n None c v = (Stop r, v1) \<Longrightarrow> r = Inr ()"
  by (cases c) (auto simp: write_call_def wpc_ok_def tmp_holds_def rename_file_def Let_def
      split: if_splits prod.splits)

lemma calm_save:
  assumes inv: "calm_inv x p pw st0 w" and th: "wth w t = Some (OSave j s out c)" and ok: "ch_fault ch = None"
  shows "calm_inv x p pw st0 (save_step p ch t j s out c w)"
proof -
  note D = calm_invD [OF inv] and W = world_invD [OF calm_invD(1) [OF inv]]
  have held: "guard w = Some t" "sess w = Some s" "wpc_ok p out (vol w) c"
    using W(5) [OF th] by (simp_all add: thread_ok_def)
  from D(2) held(1) th obtain h ts q where h: "hist w = h @ [(t, ts, q, Inr j)]"
    and ex: "explains x h st0 (store_of (hd (past w)))" "explains x (hist w) st0 (store_of s)"
    by (auto simp: memory_ok_def)
  have world: "world_inv x p pw (save_step p ch t j s out c w)" by (rule save_inv [OF D(1) th])
  have "t \<notin> fst ` set h" using D(3) h by (simp add: once_def)
  then have fst_h: "u \<noteq> t" if "(u, ts', q', r') \<in> set h" for u ts' q' r' using that by force
  obtain r v where call: "write_call p out (ch_size ch) None c (vol w) = (r, v)"
    by (cases "write_call p out (ch_size ch) None c (vol w)")
  have eff: "call_effect p out (vol w) r v" by (rule write_call_effect [OF W(1) held(3) call])
  show ?thesis
  proof (cases r)
    case (Next c1)
    let ?w = "move t (OSave j s out c1) (w\<lparr>vol := v\<rparr>)"
    have e: "save_step p ch t j s out c w = ?w" using call ok Next by (simp add: save_step_def)
    have "inode v (v_file p) = inode (vol w) (v_file p)" using eff Next by (simp add: call_effect_def)
    then have same: "version_ok x p ?w d = version_ok x p w d" for d
      by (cases d) (simp_all add: version_ok_def)
    have "memory_ok x st0 ?w" using held h ex by (simp add: memory_ok_def)
    moreover have "once ?w" using D(3) th held(1) unfolding once_def by (auto split: if_splits)
    moreover have "version_ok x p ?w d" if "wth ?w u = Some d" for u d
      using that D(4) [of u d] unfolding same by (auto simp: version_ok_def split: if_splits)
    ultimately show ?thesis using world unfolding e calm_inv_def by blast
  next
    case (Stop q1)
    with call write_call_ok [OF held(3)] have r: "r = Stop (Inr ())" by blast
    let ?w = "move t (Replied (Inr j)) (installed s (w\<lparr>vol := v, guard := None\<rparr>))"
    have e: "save_step p ch t j s out c w = ?w" using call ok r by (simp add: save_step_def)
    have "memory_ok x st0 ?w" using held(2) ex(2) by (simp add: memory_ok_def)
    moreover have "once ?w"
      unfolding once_def
    proof (intro conjI allI impI)
      show "distinct (map fst (hist ?w))" using D(3) by (simp add: once_def)
      show "wth ?w u = Some (Replied r') \<or> guard ?w = Some u" if "(u, ts', q', r') \<in> set (hist ?w)" for u ts' q' r'
      proof (cases "(u, ts', q', r') \<in> set h")
        case True
        with D(3) h have "wth w u = Some (Replied r') \<or> guard w = Some u" unfolding once_def by auto
        with fst_h [OF True] held(1) show ?thesis by simp
      qed (use that h in simp)
      show "r' = Inl ELocked \<or> (\<exists>ts q. (u, ts, q, r') \<in> set (hist ?w))"
        if "wth ?w u = Some (Replied r')" for u r'
      proof (cases "u = t")
        case False
        with that D(3) show ?thesis unfolding once_def by simp
      qed (use that h in auto)
    qed
    moreover have "version_ok x p ?w d" if "wth ?w u = Some d" for u d
    proof (cases "u = t")
      case False
      with that have "version_ok x p w d" using D(4) [of u d] by simp
      then show ?thesis by (cases d) (simp_all add: version_ok_def)
    qed (use that in \<open>auto simp: version_ok_def\<close>)
    ultimately show ?thesis using world unfolding e calm_inv_def by blast
  qed
qed

subsection \<open>Every other step\<close>

lemma calm_read:
  assumes inv: "calm_inv x p pw st0 w" and th: "wth w t = Some (VRead pu fd acc n)"
  shows "calm_inv x p pw st0 (read_step p ch t pu fd acc n w)"
proof -
  note D = calm_invD [OF inv] and W = world_invD [OF calm_invD(1) [OF inv]]
  have idle: "guard w \<noteq> Some t" by (rule W(6) [OF th]) (simp add: is_save_def)
  note go = calm_goto [OF inv idle]
  have world: "world_inv x p pw (read_step p ch t pu fd acc n w)" by (rule read_inv [OF D(1) th])
  have ver: "n \<le> vers w" "n = vers w \<Longrightarrow> inode (vol w) (v_file p) = Some fd"
    using D(4) [OF th] by (simp_all add: version_ok_def)
  let ?bs = "pread fd (length acc) (max 1 (ch_size ch)) (vol w)"
  have same: "thread_ok x p w t c = thread_ok x p (move t c w) t c" for c
    by (rule thread_ok_same) simp_all
  have step: "calm_inv x p pw st0 (move t c w)"
    if "read_step p ch t pu fd acc n w = move t c w" "version_ok x p w c" "\<And>r. c \<noteq> Replied r" for c
    using that world world_invD(5) [of x p pw "move t c w" t c] th
    by (intro go) (auto simp: same)
  show ?thesis
  proof (cases "ch_fault ch")
    case (Some e)
    with step [of "TDone (Inl (ERead e))"] show ?thesis by (simp add: read_step_def version_ok_def)
  next
    case None
    show ?thesis
    proof (cases "?bs = []")
      case True
      have e: "read_step p ch t pu fd acc n w = move t (VDecode pu acc n) w"
        using None True by (simp add: read_step_def Let_def)
      obtain i where i: "inode (vol w) (v_file p) = Some i" "seals x (hd (past w)) (content (node (vol w) i))"
        using W(7) by blast
      obtain rest where rest: "content (node (vol w) fd) = acc @ rest"
        using W(5) [OF th] by (auto simp: thread_ok_def)
      with True have "content (node (vol w) fd) = acc" by (auto simp: pread_def)
      with ver i have "version_ok x p w (VDecode pu acc n)" by (auto simp: version_ok_def)
      with step [OF e] e show ?thesis by simp
    next
      case False
      have e: "read_step p ch t pu fd acc n w = move t (VRead pu fd (acc @ ?bs) n) w"
        using None False by (simp add: read_step_def Let_def)
      have "version_ok x p w (VRead pu fd (acc @ ?bs) n)" using ver by (simp add: version_ok_def)
      with step [OF e] e show ?thesis by simp
    qed
  qed
qed

lemma calm_decode:
  assumes libs: "thread_libs x" and inv: "calm_inv x p pw st0 w" and th: "wth w t = Some (VDecode pu raw n)"
  shows "calm_inv x p pw st0 (decode_step x k ch t pu raw n w)"
proof -
  note D = calm_invD [OF inv] and W = world_invD [OF calm_invD(1) [OF inv]]
  have idle: "guard w \<noteq> Some t" by (rule W(6) [OF th]) (simp add: is_save_def)
  note go = calm_goto [OF inv idle]
  obtain pw' where pu: "pu = ForUnlock pw'" and past: "sealed_past x raw w"
    using W(5) [OF th] by (auto simp: thread_ok_def)
  have ver: "n \<le> vers w" "n = vers w \<Longrightarrow> seals x (hd (past w)) raw"
    using D(4) [OF th] by (simp_all add: version_ok_def)
  show ?thesis
  proof (cases "decode_vault x (password_of pu) raw")
    case (Inl e)
    with go [of "TDone (Inl e)"] th show ?thesis by (simp add: decode_step_def thread_ok_def version_ok_def)
  next
    case (Inr s)
    have "s \<in> set (past w)" by (rule decode_past [OF libs D(1) past Inr])
    moreover have "s = hd (past w)" if "n = vers w"
      using libs decode_any [OF _ _ _ _ W(3) ver(2) [OF that] Inr] W(2) by (simp add: thread_libs_def)
    ultimately have "calm_inv x p pw st0 (move t (UAdopt s n) w)"
      using ver(1) th by (intro go) (auto simp: thread_ok_def version_ok_def)
    with Inr pu show ?thesis by (simp add: decode_step_def)
  qed
qed

lemma calm_open:
  assumes inv: "calm_inv x p pw st0 w" and th: "wth w t = Some (VOpen pu)"
  shows "calm_inv x p pw st0 (open_step p ch t pu w)"
proof -
  note D = calm_invD [OF inv] and W = world_invD [OF calm_invD(1) [OF inv]]
  have idle: "guard w \<noteq> Some t" by (rule W(6) [OF th]) (simp add: is_save_def)
  obtain i where i: "inode (vol w) (v_file p) = Some i" "seals x (hd (past w)) (content (node (vol w) i))"
    using W(7) by blast
  have pu: "\<exists>pw. pu = ForUnlock pw" using W(5) [OF th] by (simp add: thread_ok_def)
  have "calm_inv x p pw st0 (move t (VRead pu i [] (vers w)) w)"
    by (rule calm_goto [OF inv idle])
      (use th pu i W(2) vault_settled [OF W(1) i(1)] in \<open>auto simp: thread_ok_def sealed_past_def version_ok_def\<close>)
  moreover have "calm_inv x p pw st0 (move t (TDone r) w)" for r
    by (rule calm_goto [OF inv idle]) (simp_all add: th thread_ok_def version_ok_def)
  ultimately show ?thesis using i(1) by (simp add: open_step_def split: option.split)
qed

text \<open>Adopting the current session, or none, while the mutex is free.\<close>

lemma calm_session:
  assumes inv: "calm_inv x p pw st0 w" and idle: "guard w = None" and t: "\<And>r. wth w t \<noteq> Some (Replied r)"
    and u: "u = None \<or> u = Some (hd (past w))"
  shows "calm_inv x p pw st0 (move t (TDone (Inr ())) (w\<lparr>sess := u\<rparr>))"
proof -
  note D = calm_invD [OF inv] and W = world_invD [OF calm_invD(1) [OF inv]]
  let ?w = "move t (TDone (Inr ())) (w\<lparr>sess := u\<rparr>)"
  have "world_inv x p pw (move t (TDone (Inr ())) (w\<lparr>sess := u, guard := None, hist := hist w\<rparr>))"
    by (rule world_inv_session [OF D(1) idle]) (use u W(2,3) in \<open>auto simp: thread_ok_def\<close>)
  then have "world_inv x p pw ?w" by (simp add: sess_idle [OF idle, symmetric])
  moreover have "memory_ok x st0 ?w" using D(2) idle u by (auto simp: memory_ok_def)
  moreover have "once ?w"
    using D(3) not_in_hist [OF D(3) _ t] idle t unfolding once_def by (force split: if_splits)
  moreover have "version_ok x p ?w d" if "wth ?w r = Some d" for r d
    using that D(4) [of r d] version_ok_same [of ?w w x p d] by (auto simp: version_ok_def split: if_splits)
  ultimately show ?thesis by (simp add: calm_inv_def)
qed

lemma calm_step:
  assumes libs: "thread_libs x" "sealing_total x"
    and inv: "calm_inv x (c_vault_path cf) pw st0 w" and step: "world_step x cf {} w w'"
  shows "calm_inv x (c_vault_path cf) pw st0 w'"
  using step
proof cases
  case (w_spawn t c)
  have "guard w \<noteq> Some t" using inv w_spawn(2) by (auto simp: calm_inv_def world_inv_def)
  then show ?thesis
    unfolding w_spawn(1)
    by (rule calm_goto [OF inv])
      (use w_spawn(2,3) in \<open>auto simp: starts_def thread_ok_def version_ok_def split: tpc.splits purpose.splits\<close>)
next
  case (w_run t c ch)
  note D = calm_invD [OF inv] and W = world_invD [OF calm_invD(1) [OF inv]]
  have ok: "thread_ok x (c_vault_path cf) w t c" using w_run(2) by (rule W(5))
  have ch: "length (ch_nonce ch) = NONCE_LEN" "ch_fault ch = None"
    using w_run(3) by (simp_all add: choice_ok_def)
  note go = calm_goto [OF inv]
  show ?thesis
  proof (cases c)
    case (OCheck wait q)
    then have "op_valid q" using ok by (simp add: thread_ok_def)
    then have "calm_inv x (c_vault_path cf) pw st0 (move t d w)"
      if "guard w = None" "d = OEnter q \<or> d = Replied (Inl ELocked)" for d
      using that w_run(2) OCheck by (intro go) (auto simp: thread_ok_def version_ok_def)
    with OCheck w_run inv show ?thesis by (auto simp: thread_step_def)
  next
    case (OEnter q)
    with w_run calm_enter [OF inv _ _ ch(1) libs(2)] inv show ?thesis by (auto simp: thread_step_def)
  next
    case (OSave j s out pc)
    with w_run calm_save [OF inv _ ch(2)] show ?thesis by (simp add: thread_step_def)
  next
    case (VOpen pu)
    with w_run calm_open [OF inv] show ?thesis by (simp add: thread_step_def)
  next
    case (VRead pu fd acc n)
    with w_run calm_read [OF inv] show ?thesis by (simp add: thread_step_def)
  next
    case (VDecode pu raw n)
    with w_run calm_decode [OF libs(1) inv] show ?thesis by (simp add: thread_step_def)
  next
    case (UAdopt s n)
    then have "s = hd (past w)"
      using w_run(2,4) D(4) [of t c] by (auto simp: timely_def version_ok_def)
    with UAdopt w_run calm_session [OF inv, of t "Some s"] inv show ?thesis by (auto simp: thread_step_def)
  next
    case TLock
    with w_run calm_session [OF inv, of t None] inv show ?thesis by (auto simp: thread_step_def)
  qed (use w_run inv ok in \<open>auto simp: thread_step_def thread_ok_def\<close>)
qed

definition guarded_calm :: "'x rpc_ext_scheme \<Rightarrow> Config \<Rightarrow> byte list \<Rightarrow> store \<Rightarrow> world \<Rightarrow> bool" where
  "guarded_calm x cf pw st0 w \<longleftrightarrow>
     thread_libs x \<longrightarrow> sealing_total x \<longrightarrow> calm_inv x (c_vault_path cf) pw st0 w"

interpretation calm: invariant_system "world_start x (c_vault_path cf) pw s0" "world_step x cf {}"
  "guarded_calm x cf pw (store_of s0)" for x cf pw s0
proof
  show "guarded_calm x cf pw (store_of s0) w" if "world_start x (c_vault_path cf) pw s0 w" for w
    using that world_inv_start [OF that]
    by (auto simp: guarded_calm_def calm_inv_def memory_ok_def once_def world_start_def)
  show "guarded_calm x cf pw (store_of s0) w'"
    if "guarded_calm x cf pw (store_of s0) w" "world_step x cf {} w w'" for w w'
    using that calm_step by (auto simp: guarded_calm_def)
qed

end
