(* ===== verification/KR_Grain.thy ===== *)
theory KR_Grain
  imports KR_Linear
begin

text \<open>
  The two grains agree where nothing interferes: a request's thread of \<open>KR_Threads\<close> that runs alone does
  what its handler in \<open>KR_Handlers\<close> does in one step. The same runs are the building blocks of the
  interleavings in \<open>KR_ThreadProps\<close>.
\<close>

subsection \<open>Runs of one thread\<close>

abbreviation steps_of :: "'x rpc_ext_scheme \<Rightarrow> Config \<Rightarrow> nat \<Rightarrow> choice list \<Rightarrow> world \<Rightarrow> world" where
  "steps_of x cf t chs \<equiv> fold (\<lambda>ch. thread_step x cf ch t) chs"

lemma steps_replied: "wth w t = Some (Replied r) \<Longrightarrow> steps_of x cf t chs w = w"
  by (induction chs) (simp_all add: thread_step_def)

lemma move_twice: "move t c (w\<lparr>vol := v\<rparr>) = (move t c w)\<lparr>vol := v\<rparr>"
  "move t c (move t d w) = move t c w"
  "move t c (installed s ((move t d w)\<lparr>vol := v, guard := g\<rparr>)) = move t c (installed s (w\<lparr>vol := v, guard := g\<rparr>))"
  by (simp_all add: move_def installed_def)

text \<open>The calls of a save are the calls of \<open>write_run\<close>.\<close>

lemma steps_save:
  assumes "write_run (c_vault_path cf) out (map (\<lambda>ch. (ch_size ch, ch_fault ch)) chs) c (vol w) = (Stop (Inr u), v)"
    and "wth w t = Some (OSave j s out c)"
  shows "steps_of x cf t chs w = move t (Replied (Inr j)) (installed s (w\<lparr>vol := v, guard := None\<rparr>))"
  using assms
proof (induction chs arbitrary: c w)
  case (Cons ch chs)
  obtain r v1 where call: "write_call (c_vault_path cf) out (ch_size ch) (ch_fault ch) c (vol w) = (r, v1)"
    by (cases "write_call (c_vault_path cf) out (ch_size ch) (ch_fault ch) c (vol w)")
  show ?case
  proof (cases r)
    case (Next c1)
    let ?w = "move t (OSave j s out c1) (w\<lparr>vol := v1\<rparr>)"
    have "thread_step x cf ch t w = ?w" using Cons.prems(2) call Next by (simp add: thread_step_def save_step_def)
    moreover have "steps_of x cf t chs ?w = move t (Replied (Inr j)) (installed s (?w\<lparr>vol := v, guard := None\<rparr>))"
      by (rule Cons.IH) (use Cons.prems(1) call Next in simp_all)
    ultimately show ?thesis by (simp add: move_def installed_def)
  next
    case (Stop q)
    with Cons.prems(1) call have "q = Inr u" "v1 = v" by auto
    with Cons.prems(2) call Stop have "thread_step x cf ch t w =
        move t (Replied (Inr j)) (installed s (w\<lparr>vol := v, guard := None\<rparr>))"
      by (simp add: thread_step_def save_step_def)
    then show ?thesis using steps_replied [of "thread_step x cf ch t w" t "Inr j" x cf chs] by simp
  qed
qed simp

lemma write_alone:
  assumes "vfs_ok v" "length out + 7 \<le> length ns" "\<forall>(n, f) \<in> set ns. f = None"
  obtains v1 where "write_run p out ns CMkdir v = (Stop (Inr ()), v1)" "vfs_ok v1"
    "files_of v1 = files_after p out (files_of v)"
proof -
  obtain r v1 where run: "write_run p out ns CMkdir v = (Stop r, v1)"
    using write_run_stops [of out CMkdir ns p v] assms(2) by (auto simp: calls_left_def)
  have "r = Inr () \<and> files_of v1 = files_after p out (files_of v) \<and> vfs_ok v1"
    by (rule write_run_files [OF assms(1) _ _ assms(3) run]) (simp_all add: wpc_ok_def files_before_def)
  with run show thesis by (auto intro: that)
qed

text \<open>
  A request's thread alone on an unlocked world: the check, the entry, and the calls of the save if
  there is something to save.
\<close>

definition replied_world :: "nat \<Rightarrow> (nat \<times> u64 \<times> wop \<times> (err + json)) \<Rightarrow> Session \<Rightarrow> bool \<Rightarrow> vfs \<Rightarrow> world \<Rightarrow> world" where
  "replied_world t e s1 sv v w =
     (let w1 = w\<lparr>vol := v, sess := Some s1, guard := None, hist := hist w @ [e]\<rparr>
      in move t (Replied (snd (snd (snd e)))) (if sv then installed s1 w1 else w1))"

lemma replied_world_simps [simp]:
  "wth (replied_world t e s1 sv v w) = (wth w)(t \<mapsto> Replied (snd (snd (snd e))))"
  "sess (replied_world t e s1 sv v w) = Some s1" "guard (replied_world t e s1 sv v w) = None"
  "vol (replied_world t e s1 sv v w) = v" "hist (replied_world t e s1 sv v w) = hist w @ [e]"
  "past (replied_world t e s1 sv v w) = (if sv then s1 # past w else past w)"
  "vers (replied_world t e s1 sv v w) = (if sv then Suc (vers w) else vers w)"
  by (simp_all add: replied_world_def Let_def)

lemma op_thread_alone:
  assumes op: "op_valid q" and wf: "bt_wf (entries (body s))" and run: "op_run x q (ch_time cb) s = (r, s1, sv)"
    and out: "sv \<Longrightarrow> seal_image x (ch_nonce cb) s1 = Inr out"
    and w: "vfs_ok (vol w)" "guard w = None" "sess w = Some s" "wth w t = Some (OCheck wait q)"
    and chs: "sv \<Longrightarrow> length out + 7 \<le> length chs" "\<forall>ch \<in> set chs. ch_fault ch = None"
  obtains v where "steps_of x cf t (ca # cb # chs) w = replied_world t (t, ch_time cb, q, r) s1 sv v w"
    "vfs_ok v" "files_of v = (if sv then files_after (c_vault_path cf) out (files_of (vol w)) else files_of (vol w))"
proof -
  let ?h = "hist w @ [(t, ch_time cb, q, r)]"
  have enter: "thread_step x cf cb t (thread_step x cf ca t w) = enter_step x cb t q (move t (OEnter q) w)"
    using w by (simp add: thread_step_def)
  show thesis
  proof (cases sv)
    case False
    let ?w = "move t (Replied r) (w\<lparr>sess := Some s1, hist := ?h\<rparr>)"
    have "enter_step x cb t q (move t (OEnter q) w) = ?w"
      using w run False by (simp add: enter_step_def Let_def move_def)
    then have "steps_of x cf t (ca # cb # chs) w = ?w" by (simp add: enter steps_replied [of ?w t r])
    also have "\<dots> = replied_world t (t, ch_time cb, q, r) s1 sv (vol w) w"
      using w(2) False by (cases w) (simp add: replied_world_def Let_def)
    finally show thesis using w(1) False by (intro that) simp_all
  next
    case True
    with op_run_spec(6) [OF op wf run] have r: "r = Inr (op_reply q)" by simp
    let ?w = "move t (OSave (op_reply q) s1 out CMkdir) (w\<lparr>sess := Some s1, guard := Some t, hist := ?h\<rparr>)"
    have step: "enter_step x cb t q (move t (OEnter q) w) = ?w"
      using w run True out by (simp add: enter_step_def Let_def move_def)
    let ?ns = "map (\<lambda>ch. (ch_size ch, ch_fault ch)) chs"
    obtain v where v: "write_run (c_vault_path cf) out ?ns CMkdir (vol w) = (Stop (Inr ()), v)" "vfs_ok v"
      "files_of v = files_after (c_vault_path cf) out (files_of (vol w))"
      using write_alone [of "vol w" out ?ns "c_vault_path cf"] w(1) chs True by auto
    have "steps_of x cf t (ca # cb # chs) w = steps_of x cf t chs ?w" by (simp add: enter step)
    also have "\<dots> = move t (Replied (Inr (op_reply q))) (installed s1 (?w\<lparr>vol := v, guard := None\<rparr>))"
      by (rule steps_save) (use v(1) in simp_all)
    also have "\<dots> = replied_world t (t, ch_time cb, q, r) s1 sv v w"
      using r True by (cases w) (simp add: replied_world_def Let_def move_def installed_def)
    finally show thesis using v(2,3) True by (intro that) simp_all
  qed
qed

subsection \<open>The handler in one step\<close>

text \<open>How the handlers of \<open>KR_Handlers\<close> run such a request.\<close>

definition op_handler ::
  "'x rpc_ext_scheme \<Rightarrow> bool \<Rightarrow> wop \<Rightarrow> agent \<Rightarrow> ((err + json) \<times> agent) option" where
  "op_handler x wait q a =
     (case q of
        WGet n \<Rightarrow> read_session x wait quiet (\<lambda>ts s.
          bindS (get_entry_op n s) (\<lambda>e.
          Inr (JObj [(lit ''value'', JStr (e_value e)), (lit ''meta'', entry_meta e)]))) a
      | WTotp n \<Rightarrow> read_session x wait quiet (totp_op x n) a
      | WList \<Rightarrow> read_session x wait quiet (\<lambda>ts s.
          Inr (JObj [(lit ''entries'', JArr (map summary (entries (body s))))])) a
      | _ \<Rightarrow> reply (\<lambda>_. op_reply q) (with_session x wait quiet (change q) a))"

lemma change_eta [simp]:
  "change (WSet p) = set_op p" "change (WDelete n) = delete_op n" "change (WRename r) = rename_op r"
  "change (WUpsert n v) = upsert_op n v"
  by (rule ext, rule ext, simp)+

lemma op_handler_requests:
  "de_name x ps = Inr p \<Longrightarrow> secret_get x quiet ps a = op_handler x (np_wait p) (WGet (np_name p)) a"
  "de_set x ps = Inr q \<Longrightarrow> \<not> blank (sp_name q) \<Longrightarrow> secret_set x quiet ps a = op_handler x (sp_wait q) (WSet q) a"
  "de_name x ps = Inr p \<Longrightarrow> secret_delete x quiet ps a = op_handler x (np_wait p) (WDelete (np_name p)) a"
  "de_rename x ps = Inr r \<Longrightarrow> \<not> blank (rn_to r) \<Longrightarrow>
     secret_rename x quiet ps a = op_handler x (rn_wait r) (WRename r) a"
  "de_name x ps = Inr p \<Longrightarrow> secret_totp x quiet ps a = op_handler x (np_wait p) (WTotp (np_name p)) a"
  "de_wait x ps = Inr u \<Longrightarrow> secret_list x quiet ps a = op_handler x (wp_wait u) WList a"
  "de_generate x ps = Inr g \<Longrightarrow> gp_store_as g = Some n \<Longrightarrow> \<not> blank n \<Longrightarrow>
     generate_password (case gp_length g of None \<Rightarrow> 24 | Some k \<Rightarrow> k)
       (case gp_symbols g of None \<Rightarrow> True | Some b \<Rightarrow> b) (sys a) = (v, o1) \<Longrightarrow>
     secret_generate x quiet ps a = op_handler x True (WUpsert n v) (a\<lparr>sys := o1\<rparr>)"
proof -
  show "secret_list x quiet ps a = op_handler x (wp_wait u) WList a" if "de_wait x ps = Inr u"
    using that acquire_Some [of x "wp_wait u" quiet a]
    by (auto simp: op_handler_def secret_list_def read_session_def summaries_def Let_def
        split: option.split sum.split)
qed (simp_all add: op_handler_def op_reply_def secret_get_def secret_set_def secret_delete_def
      secret_rename_def secret_totp_def secret_generate_def Let_def)

text \<open>A save that cannot fail is the write of its image.\<close>

lemma vault_save_image:
  assumes "seal_image x (map (rng o0) [0..<NONCE_LEN]) s = Inr out"
  shows "vault_save x p s o0 = replace_file p out (o0\<lparr>rng := (\<lambda>i. rng o0 (NONCE_LEN + i))\<rparr>)"
  using assms
  by (auto simp: vault_save_def vault_write_eq seal_image_def bindS_eq_Inr bindE_def fill_bytes_def seal_def)

text \<open>C9. A request's thread that runs alone does what its handler does: if the world and the agent hold the
  same session and the same files, then after the check, the entry at the agent's clock with the
  agent's random bytes, and enough system calls split in any way, the thread has answered as the
  handler answers, and world and agent hold the same session and files again.\<close>

theorem op_thread_refines:
  assumes op: "op_valid q" and tot: "sealing_total x"
    and a: "session a = Some s" "session_ok s" "reliable (sys a)" "cfg a = cf"
    and w: "vfs_ok (vol w)" "guard w = None" "sess w = Some s" "files_of (vol w) = files (disk (sys a))"
      "wth w t = Some (OCheck wait q)"
    and c1: "ch_time c1 = unix (sys a)" "ch_nonce c1 = map (rng (sys a)) [0..<NONCE_LEN]"
  shows "\<exists>m r a'. op_handler x wait q a = Some (r, a') \<and>
    (\<forall>chs. m \<le> length chs \<and> (\<forall>ch \<in> set chs. ch_fault ch = None) \<longrightarrow>
      (let w' = steps_of x cf t (c0 # c1 # chs) w
       in wth w' t = Some (Replied r) \<and> sess w' = session a' \<and> guard w' = None \<and>
          files_of (vol w') = files (disk (sys a')) \<and> vfs_ok (vol w')))"
proof -
  let ?p = "c_vault_path cf"
  have wf: "bt_wf (entries (body s))" using a(2) by (simp add: session_ok_def)
  obtain r s1 sv where run: "op_run x q (ch_time c1) s = (r, s1, sv)" by (cases "op_run x q (ch_time c1) s")
  obtain out where out: "seal_image x (ch_nonce c1) s1 = Inr out" using seal_image_total [OF tot] by blast
  let ?o = "(sys a)\<lparr>rng := (\<lambda>i. rng (sys a) (NONCE_LEN + i))\<rparr>"
  obtain o1 where o1: "replace_file ?p out ?o = (Inr (), o1)" "files (disk o1) = files_after ?p out (files (disk ?o))"
    using replace_file_after [of ?o ?p out] a(3) by auto
  define a' where "a' = (if sv then a\<lparr>session := Some s1, sys := o1\<rparr> else a)"
  have h: "op_handler x wait q a = Some (r, a')"
  proof (cases sv)
    case False
    with run op_run_spec(7) [OF op wf run] a(1) c1(1) show ?thesis
      by (cases q) (auto simp: a'_def op_handler_def op_run_def read_session_unlocked with_session_unlocked
          split: sum.splits prod.splits)
  next
    case True
    have save: "vault_save x ?p s1 (sys a) = (Inr (), o1)"
      using o1(1) vault_save_image [of x "sys a" s1 out ?p] out c1(2) by simp
    have ch: "change q (unix (sys a)) s = (Inr (), s1)" "observe x q (unix (sys a)) s = None"
      using run True c1(1) by (auto simp: op_run_def split: option.splits sum.splits prod.splits)
    show ?thesis
    proof (cases q)
      case (WGet n)
      with ch(2) show ?thesis by simp
    next
      case (WTotp n)
      with ch(2) show ?thesis by simp
    next
      case WList
      with ch(2) show ?thesis by simp
    qed (use True ch(1) save a op_run_spec(6) [OF op wf run] in
        \<open>simp_all add: a'_def op_handler_def with_session_unlocked\<close>)
  qed
  have sess: "session a' = Some s1"
    using a(1) op_run_spec(7) [OF op wf run] by (simp add: a'_def)
  have files: "files (disk (sys a')) = (if sv then files_after ?p out (files_of (vol w)) else files_of (vol w))"
    using w(4) o1(2) by (simp add: a'_def)
  have "let w' = steps_of x cf t (c0 # c1 # chs) w
      in wth w' t = Some (Replied r) \<and> sess w' = session a' \<and> guard w' = None \<and>
         files_of (vol w') = files (disk (sys a')) \<and> vfs_ok (vol w')"
    if chs: "length out + 7 \<le> length chs \<and> (\<forall>ch \<in> set chs. ch_fault ch = None)" for chs
  proof -
    obtain v where "steps_of x cf t (c0 # c1 # chs) w = replied_world t (t, ch_time c1, q, r) s1 sv v w"
      "vfs_ok v" "files_of v = (if sv then files_after ?p out (files_of (vol w)) else files_of (vol w))"
      using op_thread_alone [OF op wf run, where chs = chs and cf = cf and ca = c0 and out = out
          and w = w and t = t and wait = wait] out w(1-3,5) chs by blast
    then show ?thesis using sess files by (simp add: Let_def)
  qed
  with h show ?thesis by blast
qed

subsection \<open>Runs as steps of the system\<close>

abbreviation world_run :: "'x rpc_ext_scheme \<Rightarrow> Config \<Rightarrow> extra set \<Rightarrow> world \<Rightarrow> world \<Rightarrow> bool" where
  "world_run x cf K \<equiv> (world_step x cf K)\<^sup>*\<^sup>*"

text \<open>A step's choice without a failure, with the clock and the size of a transfer.\<close>

definition plain :: "u64 \<Rightarrow> nat \<Rightarrow> choice" where
  "plain ts n = \<lparr>ch_time = ts, ch_nonce = replicate NONCE_LEN 0, ch_salt = replicate SALT_LEN 0,
     ch_size = n, ch_fault = None, ch_giveup = False\<rparr>"

lemma plain_simps [simp]:
  "ch_time (plain ts n) = ts" "ch_nonce (plain ts n) = replicate NONCE_LEN 0"
  "ch_salt (plain ts n) = replicate SALT_LEN 0" "ch_size (plain ts n) = n" "ch_fault (plain ts n) = None"
  "choice_ok K (plain ts n)"
  by (simp_all add: plain_def choice_ok_def)

lemma run_step:
  "wth w t = Some c \<Longrightarrow> timely K c w \<Longrightarrow> thread_step x cf (plain ts n) t w = w' \<Longrightarrow> world_run x cf K w w'"
  using w_run [of w t c K "plain ts n" x cf] by auto

lemma run_spawn: "wth w t = None \<Longrightarrow> starts K c \<Longrightarrow> world_run x cf K w (move t c w)"
  using w_spawn by blast

lemma run_trans: "world_run x cf K u v \<Longrightarrow> world_run x cf K v w \<Longrightarrow> world_run x cf K u w"
  by (rule rtranclp_trans)

lemma run_then:
  "world_run x cf K u w \<Longrightarrow> wth w t = Some c \<Longrightarrow> timely K c w \<Longrightarrow>
   thread_step x cf (plain ts n) t w = w' \<Longrightarrow> world_run x cf K u w'"
  by (rule run_trans [OF _ run_step])

lemma reach_run: "reach start (world_step x cf K) w \<Longrightarrow> world_run x cf K w w' \<Longrightarrow> reach start (world_step x cf K) w'"
  by (rotate_tac 1, induction rule: rtranclp_induct) (auto intro: reach_step)

text \<open>A reader reads the file to its end.\<close>

lemma run_reader:
  assumes "wth w t = None" "starts K (VOpen pu)" "inode (vol w) (v_file (c_vault_path cf)) = Some fd"
  shows "world_run x cf K w (move t (VDecode pu (content (node (vol w) fd)) (vers w)) w)"
proof -
  let ?c = "content (node (vol w) fd)"
  have "world_run x cf K w (move t (VOpen pu) w)" using assms(1,2) by (rule run_spawn)
  then have opened: "world_run x cf K w (move t (VRead pu fd [] (vers w)) w)"
    by (rule run_then [where t = t and c = "VOpen pu" and ts = 0 and n = 1])
      (use assms(3) in \<open>simp_all add: timely_def thread_step_def open_step_def move_twice\<close>)
  have "world_run x cf K w (move t (VRead pu fd ?c (vers w)) w)"
  proof (cases "?c = []")
    case False
    then show ?thesis
      by (intro run_then [OF opened, where t = t and c = "VRead pu fd [] (vers w)" and ts = 0 and n = "length ?c"])
        (simp_all add: timely_def thread_step_def read_step_def pread_def Let_def move_twice)
  qed (use opened in simp)
  then show ?thesis
    by (rule run_then [where t = t and c = "VRead pu fd ?c (vers w)" and ts = 0 and n = 1])
      (simp_all add: timely_def thread_step_def read_step_def pread_def Let_def move_twice)
qed

text \<open>A request that runs alone.\<close>

definition op_pc :: "tpc option \<Rightarrow> bool" where
  "op_pc c = (case c of Some (OCheck wait q) \<Rightarrow> True | Some (OEnter q) \<Rightarrow> True
     | Some (OSave j s out pc) \<Rightarrow> True | Some (Replied r) \<Rightarrow> True | _ \<Rightarrow> False)"

lemma op_pc_step: "op_pc (wth w t) \<Longrightarrow> op_pc (wth (thread_step x cf ch t w) t)"
  by (auto simp: op_pc_def thread_step_def enter_step_def save_step_def Let_def
      split: option.splits tpc.splits sum.splits prod.splits wnext.splits)

lemma run_steps:
  "op_pc (wth w t) \<Longrightarrow> \<forall>ch \<in> set chs. choice_ok K ch \<Longrightarrow> world_run x cf K w (steps_of x cf t chs w)"
proof (induction chs arbitrary: w)
  case (Cons ch chs)
  then obtain c where c: "wth w t = Some c" "timely K c w"
    by (auto simp: op_pc_def timely_def split: option.splits tpc.splits)
  have "world_step x cf K w (thread_step x cf ch t w)" using c Cons.prems(2) by (auto intro: w_run)
  then show ?case using Cons.IH [OF op_pc_step [OF Cons.prems(1)]] Cons.prems(2)
    by (auto intro: converse_rtranclp_into_rtranclp)
qed simp

lemma run_op:
  assumes op: "op_valid q" and wf: "bt_wf (entries (body s))" and run: "op_run x q ts s = (r, s1, sv)"
    and tot: "sealing_total x" and w: "vfs_ok (vol w)" "guard w = None" "sess w = Some s" "wth w t = None"
  obtains v out where "world_run x cf K w (replied_world t (t, ts, q, r) s1 sv v w)" "vfs_ok v"
    "seals x s1 out"
    "files_of v = (if sv then files_after (c_vault_path cf) out (files_of (vol w)) else files_of (vol w))"
proof -
  obtain out where out: "seal_image x (replicate NONCE_LEN 0) s1 = Inr out"
    using seal_image_total [OF tot] by blast
  let ?w = "move t (OCheck False q) w"
  define chs where "chs = replicate (length out + 7) (plain 0 1)"
  have chs: "length out + 7 \<le> length chs" "\<forall>ch \<in> set chs. ch_fault ch = None \<and> choice_ok K ch"
    by (simp_all add: chs_def)
  obtain v where v: "steps_of x cf t (plain 0 1 # plain ts 1 # chs) ?w =
      replied_world t (t, ts, q, r) s1 sv v ?w" "vfs_ok v"
    "files_of v = (if sv then files_after (c_vault_path cf) out (files_of (vol w)) else files_of (vol w))"
  proof (rule op_thread_alone [OF op wf, where cb = "plain ts 1" and ca = "plain 0 1" and w = ?w and t = t
        and chs = chs and cf = cf and out = out and r = r and sv = sv and wait = False and ?s1.0 = s1])
    show "op_run x q (ch_time (plain ts 1)) s = (r, s1, sv)" using run by simp
    show "seal_image x (ch_nonce (plain ts 1)) s1 = Inr out" using out by simp
    show "vfs_ok (vol ?w)" "guard ?w = None" "sess ?w = Some s" "wth ?w t = Some (OCheck False q)"
      using w by simp_all
    show "length out + 7 \<le> length chs" "\<forall>ch \<in> set chs. ch_fault ch = None" using chs by simp_all
  qed (simp only: plain_simps move_simps that)
  have start: "world_run x cf K w ?w" using w(4) op by (intro run_spawn) (simp_all add: starts_def)
  have "world_run x cf K ?w (steps_of x cf t (plain 0 1 # plain ts 1 # chs) ?w)"
    by (rule run_steps) (use chs(2) in \<open>simp_all add: op_pc_def\<close>)
  then have "world_run x cf K ?w (replied_world t (t, ts, q, r) s1 sv v ?w)"
    unfolding v(1) plain_simps .
  with start have "world_run x cf K w (replied_world t (t, ts, q, r) s1 sv v ?w)" by (rule run_trans)
  moreover have "replied_world t e s1 sv v ?w = replied_world t e s1 sv v w" for e
    by (cases w) (simp add: replied_world_def Let_def move_def installed_def)
  ultimately have "world_run x cf K w (replied_world t (t, ts, q, r) s1 sv v w)" by simp
  then show thesis using v(2,3) seal_image_Inr [OF out] by (intro that [of v out]) simp_all
qed

end
