(* ===== verification/KR_ThreadProps.thy ===== *)
theory KR_ThreadProps
  imports KR_Grain KR_StoreProps
begin

text \<open>
  Properties of the threads of \<open>KR_Threads\<close>: what every interleaving keeps, and what an unlock or a
  rotation beside a write can lose.
\<close>

subsection \<open>What every interleaving keeps\<close>

text \<open>C3. The vault file is never seen half written. Whatever requests, unlocks and locks run at the same
  time, split into whatever system calls, failing wherever they may, and even with unlocks that adopt
  outdated reads: as long as no rotation runs, the file at the vault's path opens at every moment, with
  the master password, to the session whose save was the last to be installed, and every unlock that
  has read the file to its end holds the complete image of a session that was once installed.\<close>

theorem vault_never_torn:
  assumes "thread_libs x" "XRotate \<notin> K"
    and "reach (world_start x (c_vault_path cf) pw s0) (world_step x cf K) w"
  shows "(\<exists>f. files_of (vol w) (v_file (c_vault_path cf)) = Some f \<and>
      decode_vault x pw (content f) = Inr (hd (past w))) \<and>
    (\<forall>t pu raw n. wth w t = Some (VDecode pu raw n) \<longrightarrow>
      (\<exists>s \<in> set (past w). decode_vault x pw raw = Inr s))"
proof -
  have inv: "world_inv x (c_vault_path cf) pw w"
    using worlds.reach_inv [OF assms(3)] assms(1,2) by (simp add: guarded_world_def)
  note W = world_invD [OF inv]
  have dec: "decode_vault x pw raw = Inr s" if "s \<in> set (past w)" "seals x s raw" for s raw
    using decode_sealed [OF _ _ _ _ that(2)] W(3) [OF that(1)] assms(1) by (simp add: thread_libs_def good_def)
  obtain i where i: "inode (vol w) (v_file (c_vault_path cf)) = Some i"
    "seals x (hd (past w)) (content (node (vol w) i))" using W(7) by blast
  have "decode_vault x pw (content (node (vol w) i)) = Inr (hd (past w))"
    by (rule dec [OF _ i(2)]) (simp add: W(2))
  moreover have "\<exists>s \<in> set (past w). decode_vault x pw raw = Inr s"
    if "wth w t = Some (VDecode pu raw n)" for t pu raw n
    using W(5) [OF that] dec by (auto simp: thread_ok_def sealed_past_def)
  ultimately show ?thesis using i(1) by (auto simp: files_of_def)
qed

text \<open>C2. The session mutex makes the requests a sequential history. In every interleaving of requests,
  locks and unlocks in which an unlock adopts only a file that was not replaced since it was read, the
  requests that reached the session, in the order in which they took the mutex, are answered as the
  abstract map answers them one after the other, each once; the session in memory is the map after
  all of them; and the vault file always opens to the map after a prefix of them which contains every
  request that has been answered. The order is that of real time: it only grows, at its end, and a
  request that has not arrived is not in it, so one answered before another arrives precedes it.\<close>

theorem requests_linearize:
  assumes "thread_libs x" "sealing_total x"
    and "reach (world_start x (c_vault_path cf) pw s0) (world_step x cf {}) w"
  shows "\<exists>f s n. files_of (vol w) (v_file (c_vault_path cf)) = Some f \<and>
    decode_vault x pw (content f) = Inr s \<and> explains x (take n (hist w)) (store_of s0) (store_of s) \<and>
    (\<forall>s'. sess w = Some s' \<longrightarrow> explains x (hist w) (store_of s0) (store_of s')) \<and>
    distinct (map fst (hist w)) \<and>
    (\<forall>t r. wth w t = Some (Replied r) \<longrightarrow>
       r = Inl ELocked \<or> (\<exists>ts q. (t, ts, q, r) \<in> set (take n (hist w)))) \<and>
    (\<forall>t. wth w t = None \<longrightarrow> t \<notin> fst ` set (hist w)) \<and>
    (\<forall>w'. world_run x cf {} w w' \<longrightarrow> (\<exists>h. hist w' = hist w @ h))"
proof -
  have inv: "calm_inv x (c_vault_path cf) pw (store_of s0) w"
    using calm.reach_inv [OF assms(3)] assms(1,2) by (simp add: guarded_calm_def)
  note D = calm_invD [OF inv] and W = world_invD [OF calm_invD(1) [OF inv]]
  let ?s = "hd (past w)"
  obtain i where i: "inode (vol w) (v_file (c_vault_path cf)) = Some i"
    "seals x ?s (content (node (vol w) i))" using W(7) by blast
  have dec: "decode_vault x pw (content (node (vol w) i)) = Inr ?s"
    using decode_sealed [OF _ _ _ _ i(2)] W(2,3) assms(1) by (simp add: thread_libs_def good_def)
  have reply: "r = Inl ELocked \<or> (\<exists>ts q. (t, ts, q, r) \<in> set (hist w))" if "wth w t = Some (Replied r)" for t r
    using D(3) that by (simp add: once_def)
  have dist: "distinct (map fst (hist w))" using D(3) by (simp add: once_def)
  have late: "t \<notin> fst ` set (hist w)" if "wth w t = None" for t
    using that W(8) by (intro not_in_hist [OF D(3)]) auto
  show ?thesis
  proof (cases "guard w")
    case None
    with D(2) have "sess w = None \<or> sess w = Some ?s" "explains x (hist w) (store_of s0) (store_of ?s)"
      by (simp_all add: memory_ok_def)
    with i(1) dec reply dist late hist_grows show ?thesis
      by (intro exI [of _ "node (vol w) i"] exI [of _ ?s] exI [of _ "length (hist w)"])
        (auto simp: files_of_def)
  next
    case (Some g)
    with D(2) obtain j s out c h ts q where g: "wth w g = Some (OSave j s out c)"
      "hist w = h @ [(g, ts, q, Inr j)]" "explains x h (store_of s0) (store_of ?s)"
      "explains x (hist w) (store_of s0) (store_of s)" by (auto simp: memory_ok_def)
    have "sess w = Some s" using W(5) [OF g(1)] by (simp add: thread_ok_def)
    moreover have "r = Inl ELocked \<or> (\<exists>ts q. (t, ts, q, r) \<in> set h)" if t: "wth w t = Some (Replied r)" for t r
    proof -
      have "t \<noteq> g" using t g(1) by auto
      with reply [OF t] g(2) show ?thesis by simp
    qed
    moreover have "\<exists>h'. hist w' = h @ (g, ts, q, Inr j) # h'" if "world_run x cf {} w w'" for w'
      using hist_grows [OF that] g(2) by simp
    ultimately show ?thesis
      using i(1) dec dist g late
      by (intro exI [of _ "node (vol w) i"] exI [of _ ?s] exI [of _ "length h"]) (auto simp: files_of_def)
  qed
qed

subsection \<open>Starting worlds\<close>

text \<open>An unlocked daemon over its vault file, and no thread yet.\<close>

definition first_vfs :: "vpath \<Rightarrow> byte list \<Rightarrow> vfs" where
  "first_vfs p img = \<lparr>inode = [v_file p \<mapsto> 0], node = (\<lambda>_. \<lparr>content = img, fmode = 384\<rparr>), fresh = 1, umode = 420\<rparr>"

definition first_world :: "vpath \<Rightarrow> Session \<Rightarrow> byte list \<Rightarrow> world" where
  "first_world p s img = \<lparr>vol = first_vfs p img, sess = Some s, guard = None, wth = (\<lambda>_. None),
     past = [s], vers = 0, hist = []\<rparr>"

lemma first_world_simps [simp]:
  "vol (first_world p s img) = first_vfs p img" "sess (first_world p s img) = Some s"
  "guard (first_world p s img) = None" "wth (first_world p s img) t = None"
  "vers (first_world p s img) = 0" "inode (first_vfs p img) (v_file p) = Some 0"
  "content (node (first_vfs p img) i) = img" "vfs_ok (first_vfs p img)"
  by (auto simp: first_world_def first_vfs_def vfs_ok_def split: if_splits)

lemma first_world_reach:
  "good x pw s \<Longrightarrow> seals x s img \<Longrightarrow> world_run x cf K (first_world (c_vault_path cf) s img) w \<Longrightarrow>
   reach (world_start x (c_vault_path cf) pw s) (world_step x cf K) w"
  by (rule reach_run [OF reach_init])
    (simp_all add: world_start_def, simp_all add: first_world_def first_vfs_def)

lemma files_after_vault [simp]: "files_after p out g (v_file p) = Some \<lparr>content = out, fmode = 384\<rparr>"
  by (simp add: files_after_def)

lemma run_save_op:
  assumes "op_valid q" "bt_wf (entries (body s))" "op_run x q ts s = (r, s1, True)" "sealing_total x"
    and "vfs_ok (vol w)" "guard w = None" "sess w = Some s" "wth w t = None"
  obtains v out where "world_run x cf K w (replied_world t (t, ts, q, r) s1 True v w)" "vfs_ok v"
    "seals x s1 out" "files_of v (v_file (c_vault_path cf)) = Some \<lparr>content = out, fmode = 384\<rparr>"
proof (rule run_op [OF assms, where cf = cf and K = K])
  fix v out
  assume v: "world_run x cf K w (replied_world t (t, ts, q, r) s1 True v w)" "vfs_ok v" "seals x s1 out"
    "files_of v = (if True then files_after (c_vault_path cf) out (files_of (vol w)) else files_of (vol w))"
  show thesis by (rule that [OF v(1-3)]) (simp add: v(4))
qed

lemma set_changes:
  assumes "\<not> blank (sp_name (p :: SetParam))" "sp_value p = Some v" "bt_wf (entries (body s))"
  obtains s1 e where "op_run x (WSet p) ts s = (Inr (JObj []), s1, True)"
    "store_of s1 = (store_of s)(sp_name p \<mapsto> e)" "e_value e = v"
proof -
  obtain s1 where run: "op_run x (WSet p) ts s = (Inr (JObj []), s1, True)"
    using assms(2) by (cases "bt_get (entries (body s)) (sp_name p)")
      (auto simp: op_run_def op_reply_def set_op_def Let_def split: option.splits)
  have "op_spec x (WSet p) ts (store_of s) = (Inr (JObj []), store_of s1)"
    by (rule op_run_spec(1) [OF _ assms(3) run]) (simp add: op_valid_def assms(1))
  then have st: "store_of s1 = snd (spec_set p ts (store_of s))" by (simp add: op_spec_def)
  moreover have "\<exists>e. snd (spec_set p ts (store_of s)) = (store_of s)(sp_name p \<mapsto> e) \<and> e_value e = v"
    using assms(1,2) by (cases "store_of s (sp_name p)")
      (simp add: spec_set_def, rule exI, rule conjI [OF refl], simp add: new_entry_def)+
  ultimately show thesis using that [OF run] by auto
qed

text \<open>The demonstration daemon and a request to store a secret.\<close>

lemma demo_thread_libs: "thread_libs demo_rpc"
  by (simp add: thread_libs_def demo_rpc_aead_ok demo_rpc_aead_auth demo_rpc_kdf_len demo_rpc_body_codec)

lemma demo_good: "good demo_rpc [1] (demo_session [1] [2])"
proof -
  have "keyed_by demo_rpc [1] (demo_session [1] [2])" by (subst demo_rpc_lib) (rule lib_keyed)
  with demo_session_ok show ?thesis by (simp add: good_def)
qed

lemma demo_reach:
  assumes "seals demo_rpc (demo_session [1] [2]) img"
    and "world_run demo_rpc demo_cfg K (first_world demo_path (demo_session [1] [2]) img) w"
  shows "reach (world_start demo_rpc demo_path [1] (demo_session [1] [2])) (world_step demo_rpc demo_cfg K) w"
  using first_world_reach [OF demo_good assms(1), of demo_cfg K w] assms(2) by simp

definition demo_set_param :: "string \<Rightarrow> SetParam" where
  "demo_set_param n = \<lparr>sp_name = lit n, sp_value = Some (lit ''t''), sp_meta = None, sp_wait = False\<rparr>"

lemma demo_set_param_simps [simp]:
  "sp_name (demo_set_param n) = lit n" "sp_value (demo_set_param n) = Some (lit ''t'')"
  by (simp_all add: demo_set_param_def)

lemma demo_image: obtains img where "seals demo_rpc (demo_session [1] [2]) img"
  using seal_image_total [OF demo_sealing_total] seal_image_Inr [of demo_rpc "replicate NONCE_LEN 0"] by fastforce

theorem op_thread_refines_witness:
  "\<exists>a w chs r a' w'. op_handler demo_rpc False (WDelete (lit ''db/prod'')) a = Some (r, a') \<and>
     wth w 1 = Some (OCheck False (WDelete (lit ''db/prod''))) \<and> w' = steps_of demo_rpc demo_cfg 1 chs w \<and>
     wth w' 1 = Some (Replied r) \<and> files_of (vol w') = files (disk (sys a'))"
proof -
  let ?q = "WDelete (lit ''db/prod'')"
  let ?w = "move 1 (OCheck False ?q) (first_world demo_path (demo_session [1] [2]) [])"
  let ?os = "demo_os\<lparr>disk := (disk demo_os)\<lparr>files := files_of (first_vfs demo_path [])\<rparr>\<rparr>"
  let ?c = "(plain (unix ?os) 1)\<lparr>ch_nonce := map (rng ?os) [0..<NONCE_LEN]\<rparr>"
  have rel: "reliable ?os" using demo_reliable by (simp add: reliable_def)
  from op_thread_refines [where q = ?q and x = demo_rpc and a = "demo_agent ?os" and cf = demo_cfg and w = ?w
      and ?c1.0 = ?c and t = 1 and wait = False and s = "demo_session [1] [2]" and ?c0.0 = "plain 0 1"]
  obtain m r a' where h: "op_handler demo_rpc False ?q (demo_agent ?os) = Some (r, a')"
    and run: "\<And>chs. m \<le> length chs \<and> (\<forall>ch \<in> set chs. ch_fault ch = None) \<Longrightarrow>
      let w' = steps_of demo_rpc demo_cfg 1 (plain 0 1 # ?c # chs) ?w
      in wth w' 1 = Some (Replied r) \<and> sess w' = session a' \<and> guard w' = None \<and>
         files_of (vol w') = files (disk (sys a')) \<and> vfs_ok (vol w')"
    using demo_sealing_total demo_session_ok rel by (auto simp: op_valid_def)
  define chs where "chs = plain 0 1 # ?c # replicate m (plain 0 1)"
  define w' where "w' = steps_of demo_rpc demo_cfg 1 chs ?w"
  have "m \<le> length (replicate m (plain 0 1)) \<and> (\<forall>ch \<in> set (replicate m (plain 0 1)). ch_fault ch = None)"
    by simp
  from run [OF this] have w': "wth w' 1 = Some (Replied r)" "files_of (vol w') = files (disk (sys a'))"
    unfolding w'_def chs_def by (simp_all only: Let_def)
  have "wth ?w 1 = Some (OCheck False ?q)" by simp
  with h w' w'_def show ?thesis by blast
qed

theorem vault_never_torn_witness:
  "\<exists>w raw. reach (world_start demo_rpc demo_path [1] (demo_session [1] [2])) (world_step demo_rpc demo_cfg {XFail, XStale}) w \<and>
     wth w 1 = Some (VDecode (ForUnlock [1]) raw 0) \<and> (\<exists>s \<in> set (past w). decode_vault demo_rpc [1] raw = Inr s)"
proof -
  obtain img where img: "seals demo_rpc (demo_session [1] [2]) img" by (rule demo_image)
  let ?init = "first_world demo_path (demo_session [1] [2]) img"
  let ?w = "move 1 (VDecode (ForUnlock [1]) img 0) ?init"
  have "world_run demo_rpc demo_cfg {XFail, XStale} ?init ?w"
    using run_reader [of ?init 1 "{XFail, XStale}" "ForUnlock [1]" demo_cfg 0 demo_rpc] by (simp add: starts_def)
  with img have r: "reach (world_start demo_rpc demo_path [1] (demo_session [1] [2]))
      (world_step demo_rpc demo_cfg {XFail, XStale}) ?w"
    by (rule demo_reach)
  have t: "wth ?w 1 = Some (VDecode (ForUnlock [1]) img 0)" by simp
  have "\<forall>t pu raw n. wth ?w t = Some (VDecode pu raw n) \<longrightarrow>
      (\<exists>s \<in> set (past ?w). decode_vault demo_rpc [1] raw = Inr s)"
    using vault_never_torn [OF demo_thread_libs, of "{XFail, XStale}" demo_cfg "[1]" "demo_session [1] [2]" ?w] r by simp
  with t have "\<exists>s \<in> set (past ?w). decode_vault demo_rpc [1] img = Inr s" by blast
  with t r show ?thesis by blast
qed

theorem requests_linearize_witness:
  "\<exists>w f s n. reach (world_start demo_rpc demo_path [1] (demo_session [1] [2])) (world_step demo_rpc demo_cfg {}) w \<and>
     wth w 1 = Some (Replied (Inr (JObj []))) \<and> (\<exists>ts q. (1, ts, q, Inr (JObj [])) \<in> set (take n (hist w))) \<and>
     files_of (vol w) (v_file demo_path) = Some f \<and> decode_vault demo_rpc [1] (content f) = Inr s \<and>
     explains demo_rpc (take n (hist w)) (store_of (demo_session [1] [2])) (store_of s)"
proof -
  obtain img where img: "seals demo_rpc (demo_session [1] [2]) img" by (rule demo_image)
  let ?init = "first_world demo_path (demo_session [1] [2]) img"
  have wf: "bt_wf (entries (body (demo_session [1] [2])))" using demo_session_ok by (simp add: session_ok_def)
  have blank: "\<not> blank (sp_name (demo_set_param ''git/h''))" by (simp add: blank_lit is_whitespace_def)
  obtain s1 where run: "op_run demo_rpc (WSet (demo_set_param ''git/h'')) 0 (demo_session [1] [2]) = (Inr (JObj []), s1, True)"
    using set_changes [OF blank demo_set_param_simps(2) wf] by metis
  let ?e = "(1, 0, WSet (demo_set_param ''git/h''), Inr (JObj []))"
  have valid: "op_valid (WSet (demo_set_param ''git/h''))" using blank by (simp add: op_valid_def)
  have pre: "vfs_ok (vol ?init)" "guard ?init = None" "sess ?init = Some (demo_session [1] [2])" "wth ?init 1 = None"
    by simp_all
  obtain v where "world_run demo_rpc demo_cfg {} ?init (replied_world 1 ?e s1 True v ?init)"
    by (rule run_save_op [OF valid wf run demo_sealing_total pre, where cf = demo_cfg and K = "{}"]) (rule that)
  with img have r: "reach (world_start demo_rpc demo_path [1] (demo_session [1] [2]))
      (world_step demo_rpc demo_cfg {}) (replied_world 1 ?e s1 True v ?init)" (is "reach _ _ ?w") by (rule demo_reach)
  have t: "wth ?w 1 = Some (Replied (Inr (JObj [])))" by simp
  from requests_linearize [OF demo_thread_libs demo_sealing_total, of demo_cfg "[1]" "demo_session [1] [2]" ?w] r
  obtain f s n where "files_of (vol ?w) (v_file demo_path) = Some f" "decode_vault demo_rpc [1] (content f) = Inr s"
    "explains demo_rpc (take n (hist ?w)) (store_of (demo_session [1] [2])) (store_of s)"
    and replies: "\<forall>t r. wth ?w t = Some (Replied r) \<longrightarrow>
       r = Inl ELocked \<or> (\<exists>ts q. (t, ts, q, r) \<in> set (take n (hist ?w)))" by auto
  moreover have "\<exists>ts q. (1, ts, q, Inr (JObj [])) \<in> set (take n (hist ?w))" using replies t by blast
  ultimately show ?thesis
    using r t by (intro exI [of _ ?w] exI [of _ f] exI [of _ s] exI [of _ n]) simp
qed

subsection \<open>An unlock beside a write\<close>

text \<open>C17. An unlock can lose an acknowledged write. \<open>unlock\<close> reads the vault file, spends the time of the
  key derivation on it, and only then replaces the session. If a \<open>secret.set\<close> is served in between - two
  editors prompted by the same request answer one after the other - its client is told that it succeeded
  and the file holds it, but the adopted session is the one from before; the next save of any other
  name writes that session, and the acknowledged secret is gone from the file as well.\<close>

theorem unlock_loses_write:
  assumes libs: "aead_ok x" "body_codec x" "sealing_total x" and s0: "good x pw s0"
    and set: "\<not> blank (sp_name (p :: SetParam))" "sp_value p = Some v"
    and other: "\<not> blank (sp_name (q :: SetParam))" "sp_value q = Some u" "sp_name q \<noteq> sp_name p"
  shows "\<exists>w w' f f' s1 s2.
    reach (world_start x (c_vault_path cf) pw s0) (world_step x cf {XStale}) w \<and>
    wth w 1 = Some (TDone (Inr ())) \<and> wth w 2 = Some (Replied (Inr (JObj []))) \<and>
    files_of (vol w) (v_file (c_vault_path cf)) = Some f \<and> decode_vault x pw (content f) = Inr s1 \<and>
    map_option e_value (store_of s1 (sp_name p)) = Some v \<and> sess w = Some s0 \<and>
    world_run x cf {XStale} w w' \<and> wth w' 3 = Some (Replied (Inr (JObj []))) \<and>
    files_of (vol w') (v_file (c_vault_path cf)) = Some f' \<and> decode_vault x pw (content f') = Inr s2 \<and>
    store_of s2 (sp_name p) = store_of s0 (sp_name p)"
proof -
  let ?p = "c_vault_path cf" and ?K = "{XStale} :: extra set"
  have wf: "bt_wf (entries (body s0))" using s0 by (simp add: good_def session_ok_def)
  obtain img where img: "seals x s0 img"
    using seal_image_total [OF libs(3)] seal_image_Inr [of x "replicate NONCE_LEN 0" s0] by fastforce
  have dec: "decode_vault x pw raw = Inr s" if "good x pw s" "seals x s raw" for s raw
    using decode_sealed [OF libs(1,2)] that by (simp add: good_def)
  obtain s1 e where set1: "op_run x (WSet p) 0 s0 = (Inr (JObj []), s1, True)"
    "store_of s1 = (store_of s0)(sp_name p \<mapsto> e)" "e_value e = v"
    using set wf by (rule set_changes)
  obtain s2 e' where set2: "op_run x (WSet q) 0 s0 = (Inr (JObj []), s2, True)"
    "store_of s2 = (store_of s0)(sp_name q \<mapsto> e')" using other(1,2) wf by (rule set_changes)
  have valid: "op_valid (WSet p)" "op_valid (WSet q)" using set(1) other(1) by (simp_all add: op_valid_def)
  have good: "good x pw s1" "good x pw s2"
    using good_op [OF s0 valid(1) set1(1)] good_op [OF s0 valid(2) set2(1)] by simp_all
  let ?w0 = "first_world ?p s0 img"
  let ?w1 = "move 1 (VDecode (ForUnlock pw) img 0) ?w0"
  have r1: "world_run x cf ?K ?w0 ?w1"
    using run_reader [of ?w0 1 ?K "ForUnlock pw" cf 0 x] by (simp add: starts_def)
  obtain v1 out1 where w2: "world_run x cf ?K ?w1 (replied_world 2 (2, 0, WSet p, Inr (JObj [])) s1 True v1 ?w1)"
    "vfs_ok v1" "seals x s1 out1" "files_of v1 (v_file ?p) = Some \<lparr>content = out1, fmode = 384\<rparr>"
  proof (rule run_save_op [OF valid(1) wf set1(1) libs(3), where w = ?w1 and t = 2 and cf = cf and K = ?K])
    show "vfs_ok (vol ?w1)" "guard ?w1 = None" "sess ?w1 = Some s0" "wth ?w1 2 = None" by simp_all
  qed
  let ?w2 = "replied_world 2 (2, 0, WSet p, Inr (JObj [])) s1 True v1 ?w1"
  let ?w3 = "move 1 (UAdopt s0 0) ?w2"
  let ?w4 = "move 1 (TDone (Inr ())) (?w3\<lparr>sess := Some s0\<rparr>)"
  have "world_run x cf ?K ?w0 ?w2" using r1 w2(1) by (rule run_trans)
  then have "world_run x cf ?K ?w0 ?w3"
    by (rule run_then [where t = 1 and c = "VDecode (ForUnlock pw) img 0" and ts = 0 and n = 1])
      (simp_all add: timely_def thread_step_def decode_step_def dec [OF s0 img])
  then have r4: "world_run x cf ?K ?w0 ?w4"
    by (rule run_then [where t = 1 and c = "UAdopt s0 0" and ts = 0 and n = 1])
      (simp_all add: timely_def thread_step_def)
  obtain v2 out2 where w5: "world_run x cf ?K ?w4 (replied_world 3 (3, 0, WSet q, Inr (JObj [])) s2 True v2 ?w4)"
    "vfs_ok v2" "seals x s2 out2" "files_of v2 (v_file ?p) = Some \<lparr>content = out2, fmode = 384\<rparr>"
  proof (rule run_save_op [OF valid(2) wf set2(1) libs(3), where w = ?w4 and t = 3 and cf = cf and K = ?K])
    show "vfs_ok (vol ?w4)" "guard ?w4 = None" "sess ?w4 = Some s0" "wth ?w4 3 = None"
      using w2(2) by simp_all
  qed
  show ?thesis
    by (intro exI [of _ ?w4] exI [of _ "replied_world 3 (3, 0, WSet q, Inr (JObj [])) s2 True v2 ?w4"]
        exI [of _ "\<lparr>content = out1, fmode = 384\<rparr>"] exI [of _ "\<lparr>content = out2, fmode = 384\<rparr>"]
        exI [of _ s1] exI [of _ s2])
      (use first_world_reach [OF s0 img r4] w2(4) w5(1,4) set1 set2(2) other(3)
         dec [OF good(1) w2(3)] dec [OF good(2) w5(3)] in simp)
qed

theorem unlock_loses_write_witness:
  "\<exists>w w' f s. reach (world_start demo_rpc demo_path [1] (demo_session [1] [2])) (world_step demo_rpc demo_cfg {XStale}) w \<and>
     wth w 2 = Some (Replied (Inr (JObj []))) \<and> world_run demo_rpc demo_cfg {XStale} w w' \<and>
     files_of (vol w') (v_file demo_path) = Some f \<and> decode_vault demo_rpc [1] (content f) = Inr s \<and>
     store_of s (lit ''git/h'') = None"
proof -
  have blank: "\<not> blank (sp_name (demo_set_param ''git/h''))" "\<not> blank (sp_name (demo_set_param ''git/g''))"
    by (simp_all add: blank_lit is_whitespace_def)
  have "store_of (demo_session [1] [2]) (lit ''git/h'') = None" by (simp add: store_of_def demo_session_def)
  with unlock_loses_write [OF demo_rpc_aead_ok demo_rpc_body_codec demo_sealing_total demo_good,
      of "demo_set_param ''git/h''" _ "demo_set_param ''git/g''" _ demo_cfg] blank
  show ?thesis by simp metis
qed

subsection \<open>A rotation beside a write\<close>

text \<open>Thread 1 saving and thread 2 rotating, each somewhere in its \<open>write\<close>, and their next calls.\<close>

definition duo :: "world \<Rightarrow> Session \<Rightarrow> byte list \<Rightarrow> Session \<Rightarrow> byte list \<Rightarrow> wpc \<times> wpc \<times> vfs \<Rightarrow> world" where
  "duo w s1 out1 s2 out2 = (\<lambda>(c1, c2, v). w\<lparr>vol := v,
     wth := (wth w)(1 \<mapsto> OSave (JObj []) s1 out1 c1, 2 \<mapsto> RSave s2 out2 c2)\<rparr>)"

fun duo_calls ::
  "vpath \<Rightarrow> byte list \<Rightarrow> byte list \<Rightarrow> (bool \<times> nat) list \<Rightarrow> wpc \<times> wpc \<times> vfs \<Rightarrow> (wpc \<times> wpc \<times> vfs) option" where
  "duo_calls p out1 out2 [] d = Some d"
| "duo_calls p out1 out2 ((first, n) # ns) (c1, c2, v) =
     (if first then (case write_call p out1 n None c1 v of
          (Next c, v1) \<Rightarrow> duo_calls p out1 out2 ns (c, c2, v1) | (Stop r, v1) \<Rightarrow> None)
      else (case write_call p out2 n None c2 v of
          (Next c, v1) \<Rightarrow> duo_calls p out1 out2 ns (c1, c, v1) | (Stop r, v1) \<Rightarrow> None))"

lemma duo_simps [simp]:
  "wth (duo w s1 out1 s2 out2 (c1, c2, v)) =
     (wth w)(1 \<mapsto> OSave (JObj []) s1 out1 c1, 2 \<mapsto> RSave s2 out2 c2)"
  "vol (duo w s1 out1 s2 out2 (c1, c2, v)) = v" "guard (duo w s1 out1 s2 out2 d) = guard w"
  by (cases d; simp add: duo_def)+

lemma duo_moves:
  "move 1 (OSave (JObj []) s1 out1 c) ((duo w s1 out1 s2 out2 (c1, c2, v))\<lparr>vol := v1\<rparr>) =
     duo w s1 out1 s2 out2 (c, c2, v1)"
  "move 2 (RSave s2 out2 c) ((duo w s1 out1 s2 out2 (c1, c2, v))\<lparr>vol := v1\<rparr>) =
     duo w s1 out1 s2 out2 (c1, c, v1)"
  by (simp_all add: duo_def move_def fun_upd_twist)

lemma duo_run:
  "duo_calls (c_vault_path cf) out1 out2 ns d = Some d' \<Longrightarrow>
   world_run x cf K (duo w s1 out1 s2 out2 d) (duo w s1 out1 s2 out2 d')"
proof (induction ns arbitrary: d)
  case (Cons bn ns)
  obtain b n c1 c2 v where d: "bn = (b, n)" "d = (c1, c2, v)" by (cases bn; cases d)
  let ?d = "duo w s1 out1 s2 out2"
  obtain e where e: "world_run x cf K (?d d) (?d e)" "duo_calls (c_vault_path cf) out1 out2 ns e = Some d'"
  proof (cases b)
    case True
    with Cons.prems d obtain c v1 where c: "write_call (c_vault_path cf) out1 n None c1 v = (Next c, v1)"
      "duo_calls (c_vault_path cf) out1 out2 ns (c, c2, v1) = Some d'"
      by (auto split: prod.splits wnext.splits)
    have step: "world_run x cf K (?d d) (?d (c, c2, v1))"
      by (rule run_step [where t = 1 and c = "OSave (JObj []) s1 out1 c1" and ts = 0 and n = n])
        (use c d in \<open>simp_all add: timely_def thread_step_def save_step_def duo_moves [simplified]\<close>)
    show thesis by (rule that [OF step c(2)])
  next
    case False
    with Cons.prems d obtain c v1 where c: "write_call (c_vault_path cf) out2 n None c2 v = (Next c, v1)"
      "duo_calls (c_vault_path cf) out1 out2 ns (c1, c, v1) = Some d'"
      by (auto split: prod.splits wnext.splits)
    have step: "world_run x cf K (?d d) (?d (c1, c, v1))"
      by (rule run_step [where t = 2 and c = "RSave s2 out2 c2" and ts = 0 and n = n])
        (use c d in \<open>simp_all add: timely_def thread_step_def rotate_step_def duo_moves [simplified]\<close>)
    show thesis by (rule that [OF step c(2)])
  qed
  show ?case by (rule run_trans [OF e(1) Cons.IH [OF e(2)]])
qed simp

text \<open>The two writes reach their first calls together.\<close>

lemma duo_start:
  assumes "sealing_total x" "aead_ok x" "body_codec x" "good x pw s0" "seals x s0 img"
    and set: "op_valid (WSet p)" "op_run x (WSet p) 0 s0 = (Inr (JObj []), s1, True)"
    and key: "derive_key x new (replicate SALT_LEN 0) (c_kdf cf) = Inr key"
  obtains w out1 s2 out2 where
    "world_run x cf {XRotate} (first_world (c_vault_path cf) s0 img)
       (duo w s1 out1 s2 out2 (CMkdir, CMkdir, first_vfs (c_vault_path cf) img))"
    "seals x s1 out1" "seals x s2 out2" "keyed_by x new s2" "store_of s2 = store_of s0"
proof -
  let ?p = "c_vault_path cf" and ?K = "{XRotate} :: extra set"
  let ?w0 = "first_world ?p s0 img"
  define s2 where "s2 = \<lparr>body = \<lparr>entries = entries (body s0)\<rparr>, skey = key, salt = replicate SALT_LEN 0,
    params = c_kdf cf\<rparr>"
  have s2: "keyed_by x new s2" "store_of s2 = store_of s0" using key by (simp_all add: s2_def keyed_by_def store_of_def)
  obtain out2 where out2: "seal_image x (replicate NONCE_LEN 0) s2 = Inr out2"
    using seal_image_total [OF assms(1)] by blast
  obtain out1 where out1: "seal_image x (replicate NONCE_LEN 0) s1 = Inr out1"
    using seal_image_total [OF assms(1)] by blast
  have dec: "decode_vault x pw img = Inr s0"
    using decode_sealed [OF assms(2,3) _ _ assms(5)] assms(4) by (simp add: good_def)
  let ?w1 = "move 2 (VDecode (ForRotate pw new) img 0) ?w0"
  have "world_run x cf ?K ?w0 ?w1"
    using run_reader [of ?w0 2 ?K "ForRotate pw new" cf 0 x] by (simp add: starts_def)
  then have "world_run x cf ?K ?w0 (move 2 (RSave s2 out2 CMkdir) ?w0)"
    by (rule run_then [where t = 2 and c = "VDecode (ForRotate pw new) img 0" and ts = 0 and n = 1])
      (simp_all add: timely_def thread_step_def decode_step_def reencrypt_def bindS_def dec key Let_def s2_def [symmetric] out2 move_twice)
  moreover have "world_run x cf ?K (move 2 (RSave s2 out2 CMkdir) ?w0)
      (move 1 (OCheck False (WSet p)) (move 2 (RSave s2 out2 CMkdir) ?w0))"
    by (rule run_spawn) (simp_all add: starts_def set(1))
  ultimately have "world_run x cf ?K ?w0 (move 1 (OCheck False (WSet p)) (move 2 (RSave s2 out2 CMkdir) ?w0))"
    by (rule run_trans)
  then have entered: "world_run x cf ?K ?w0 (move 1 (OEnter (WSet p)) (move 2 (RSave s2 out2 CMkdir) ?w0))"
    by (rule run_then [where t = 1 and c = "OCheck False (WSet p)" and ts = 0 and n = 1])
      (simp_all add: timely_def thread_step_def move_twice)
  define w where "w = ?w0\<lparr>sess := Some s1, guard := Some 1, hist := [(1, 0, WSet p, Inr (JObj []))]\<rparr>"
  let ?w2 = "move 1 (OEnter (WSet p)) (move 2 (RSave s2 out2 CMkdir) ?w0)"
  have "hist ?w2 = []" by (simp add: first_world_def)
  then have "thread_step x cf (plain 0 1) 1 ?w2 = move 1 (OSave (JObj []) s1 out1 CMkdir)
      (?w2\<lparr>sess := Some s1, guard := Some 1, hist := [(1, 0, WSet p, Inr (JObj []))]\<rparr>)"
    by (simp add: thread_step_def enter_step_def set(2) out1 Let_def op_reply_def)
  also have "\<dots> = duo w s1 out1 s2 out2 (CMkdir, CMkdir, first_vfs ?p img)"
    by (simp add: w_def duo_def move_def first_world_def fun_upd_twist)
  finally have "world_run x cf ?K ?w0 (duo w s1 out1 s2 out2 (CMkdir, CMkdir, first_vfs ?p img))"
    by (intro run_then [OF entered, where t = 1 and c = "OEnter (WSet p)" and ts = 0 and n = 1])
      (simp_all add: timely_def)
  then show thesis
    using that [of w out1 s2 out2] s2 seal_image_Inr [OF out1] seal_image_Inr [OF out2] by simp
qed

text \<open>Two schedules: the rotation truncates the written file before it is renamed, or writes over it.\<close>

lemmas vfs_calls = write_call_def open_trunc_def copy_file_def fchmod_def pwrite_def rename_file_def
  Let_def overlay_start

lemma whole_transfer [simp]: "out \<noteq> [] \<Longrightarrow> max (Suc 0) (length out) = length out"
  by (cases out) simp_all

lemma duo_early:
  assumes "out1 \<noteq> []"
  shows "\<exists>v. duo_calls p out1 out2 [(True, 1), (True, 1), (True, 1), (True, length out1), (True, 1),
      (False, 1), (False, 1), (True, 1), (True, 1)] (CMkdir, CMkdir, first_vfs p img) =
      Some (CRename, CMode 1, v) \<and> inode v (tmp_path p) = Some 1 \<and> content (node v 1) = []"
  using assms by (simp add: vfs_calls first_vfs_def)

lemma duo_late:
  assumes "out1 \<noteq> []" "out2 \<noteq> []"
  shows "\<exists>v. duo_calls p out1 out2 [(True, 1), (True, 1), (False, 1), (False, 1), (True, 1),
      (True, length out1), (True, 1), (False, 1), (False, length out2), (False, 1), (True, 1), (True, 1)]
      (CMkdir, CMkdir, first_vfs p img) = Some (CRename, CSync 1, v) \<and>
    inode v (tmp_path p) = Some 1 \<and> inode v (bak_path p) = Some 2 \<and>
    content (node v 1) = out2 @ drop (length out2) out1"
  using assms by (simp add: vfs_calls first_vfs_def)

text \<open>The write's rename, and what is left of the rotation after it.\<close>

definition wrote :: "world \<Rightarrow> Session \<Rightarrow> byte list \<Rightarrow> Session \<Rightarrow> byte list \<Rightarrow> vpath \<Rightarrow> wpc \<Rightarrow> vfs \<Rightarrow> world" where
  "wrote w s1 out1 s2 out2 p c2 v =
     move 1 (Replied (Inr (JObj []))) (installed s1 ((duo w s1 out1 s2 out2 (CRename, c2, v))
       \<lparr>vol := v\<lparr>inode := (inode v)(tmp_path p := None, v_file p \<mapsto> 1)\<rparr>, guard := None\<rparr>))"

lemma wrote_simps [simp]:
  "wth (wrote w s1 out1 s2 out2 p c2 v) = (wth w)(2 \<mapsto> RSave s2 out2 c2, 1 \<mapsto> Replied (Inr (JObj [])))"
  "vol (wrote w s1 out1 s2 out2 p c2 v) = v\<lparr>inode := (inode v)(tmp_path p := None, v_file p \<mapsto> 1)\<rparr>"
  by (simp_all add: wrote_def fun_upd_twist)

lemma run_wrote:
  assumes "inode v (tmp_path (c_vault_path cf)) = Some 1"
  shows "world_run x cf K (duo w s1 out1 s2 out2 (CRename, c2, v)) (wrote w s1 out1 s2 out2 (c_vault_path cf) c2 v)"
  by (rule run_step [where t = 1 and c = "OSave (JObj []) s1 out1 CRename" and ts = 0 and n = 1])
    (use assms in \<open>simp_all add: timely_def thread_step_def save_step_def vfs_calls wrote_def\<close>)

lemma run_rotate_fails:
  assumes w: "wth w 2 = Some (RSave s2 out2 (CSync 1))"
    and v: "inode (vol w) (v_file (c_vault_path cf)) = Some 1" "inode (vol w) (tmp_path (c_vault_path cf)) = None"
      "inode (vol w) (bak_path (c_vault_path cf)) = Some 2"
  obtains w' where "world_run x cf K w w'" "wth w' = (wth w)(2 \<mapsto> TDone (Inl (EReplace NOT_FOUND)))"
    "files_of (vol w') (v_file (c_vault_path cf)) = Some (node (vol w) 1)"
    "files_of (vol w') (bak_path (c_vault_path cf)) = Some (node (vol w) 1)"
proof -
  let ?p = "c_vault_path cf"
  let ?v = "(vol w)\<lparr>node := (node (vol w))(2 := node (vol w) 1)\<rparr>"
  have "world_run x cf K w (move 2 (RSave s2 out2 CBackup) w)"
    by (rule run_step [where t = 2 and c = "RSave s2 out2 (CSync 1)" and ts = 0 and n = 1])
      (use w in \<open>simp_all add: timely_def thread_step_def rotate_step_def write_call_def move_def\<close>)
  then have "world_run x cf K w (move 2 (RSave s2 out2 CRename) (w\<lparr>vol := ?v\<rparr>))"
    by (rule run_then [where t = 2 and c = "RSave s2 out2 CBackup" and ts = 0 and n = 1])
      (use v in \<open>simp_all add: timely_def thread_step_def rotate_step_def vfs_calls move_def\<close>)
  then have run: "world_run x cf K w (move 2 (TDone (Inl (EReplace NOT_FOUND))) (w\<lparr>vol := ?v\<rparr>))"
    by (rule run_then [where t = 2 and c = "RSave s2 out2 CRename" and ts = 0 and n = 1])
      (use v in \<open>simp_all add: timely_def thread_step_def rotate_step_def vfs_calls move_def\<close>)
  show thesis by (rule that [OF run]) (use v in \<open>simp_all add: files_of_def\<close>)
qed

text \<open>C16. A rotation beside a write can destroy the vault. \<open>rotate\<close> writes without the session mutex, to the
  same temporary file as every save. (1) If it truncates that file after a \<open>secret.set\<close> has written it
  and before the rename, the client of the set is told that it succeeded while the vault file is empty
  and opens with no password. (2) If it writes over it, the vault file ends as the rotated image
  followed by whatever of the other was longer; the set has succeeded, the rotation fails at its
  rename, and its backup step has replaced the backup by the same bytes.\<close>

theorem rotate_tears_vault:
  assumes libs: "sealing_total x" "aead_ok x" "body_codec x" and s0: "good x pw s0"
    and set: "\<not> blank (sp_name (p :: SetParam))" "sp_value p = Some u"
    and key: "derive_key x new (replicate SALT_LEN 0) (c_kdf cf) = Inr key"
  shows "(\<exists>w f. reach (world_start x (c_vault_path cf) pw s0) (world_step x cf {XRotate}) w \<and>
      wth w 1 = Some (Replied (Inr (JObj []))) \<and>
      files_of (vol w) (v_file (c_vault_path cf)) = Some f \<and> content f = [] \<and>
      (\<forall>pw' s. decode_vault x pw' (content f) \<noteq> Inr s)) \<and>
    (\<exists>w f s1 s2 out1 out2. reach (world_start x (c_vault_path cf) pw s0) (world_step x cf {XRotate}) w \<and>
      wth w 1 = Some (Replied (Inr (JObj []))) \<and> wth w 2 = Some (TDone (Inl (EReplace NOT_FOUND))) \<and>
      seals x s1 out1 \<and> map_option e_value (store_of s1 (sp_name p)) = Some u \<and>
      seals x s2 out2 \<and> keyed_by x new s2 \<and>
      files_of (vol w) (v_file (c_vault_path cf)) = Some f \<and>
      files_of (vol w) (bak_path (c_vault_path cf)) = Some f \<and>
      content f = out2 @ drop (length out2) out1)"
proof -
  let ?p = "c_vault_path cf"
  have wf: "bt_wf (entries (body s0))" using s0 by (simp add: good_def session_ok_def)
  obtain img where img: "seals x s0 img"
    using seal_image_total [OF libs(1)] seal_image_Inr [of x "replicate NONCE_LEN 0" s0] by fastforce
  obtain s1 e where set1: "op_run x (WSet p) 0 s0 = (Inr (JObj []), s1, True)"
    "store_of s1 = (store_of s0)(sp_name p \<mapsto> e)" "e_value e = u"
    using set wf by (rule set_changes)
  have valid: "op_valid (WSet p)" using set(1) by (simp add: op_valid_def)
  obtain w out1 s2 out2 where start: "world_run x cf {XRotate} (first_world ?p s0 img)
      (duo w s1 out1 s2 out2 (CMkdir, CMkdir, first_vfs ?p img))"
    and out: "seals x s1 out1" "seals x s2 out2" "keyed_by x new s2"
    by (rule duo_start [OF libs s0 img valid set1(1) key]) (rule that)
  have ne: "out1 \<noteq> []" "out2 \<noteq> []" using out(1,2) by (auto simp: seals_def NONCE_LEN_def)
  note go = first_world_reach [OF s0 img] and duo = run_trans [OF start duo_run]
  obtain v where v: "duo_calls ?p out1 out2 [(True, 1), (True, 1), (True, 1), (True, length out1), (True, 1),
      (False, 1), (False, 1), (True, 1), (True, 1)] (CMkdir, CMkdir, first_vfs ?p img) = Some (CRename, CMode 1, v)"
    "inode v (tmp_path ?p) = Some 1" "content (node v 1) = []"
    using duo_early [OF ne(1), of ?p out2 img] by blast
  have early: "reach (world_start x ?p pw s0) (world_step x cf {XRotate}) (wrote w s1 out1 s2 out2 ?p (CMode 1) v)"
    by (rule go [OF run_trans [OF duo [OF v(1)] run_wrote [OF v(2)]]])
  have "decode_vault x pw' [] \<noteq> Inr s" for pw' s
    by (simp add: decode_vault_def parse_def HEADER_LEN_def NONCE_LEN_def)
  then have first: "\<exists>w f. reach (world_start x ?p pw s0) (world_step x cf {XRotate}) w \<and>
      wth w 1 = Some (Replied (Inr (JObj []))) \<and> files_of (vol w) (v_file ?p) = Some f \<and> content f = [] \<and>
      (\<forall>pw' s. decode_vault x pw' (content f) \<noteq> Inr s)"
    using v(3) early by (intro exI [of _ "wrote w s1 out1 s2 out2 ?p (CMode 1) v"] exI [of _ "node v 1"])
      (simp add: files_of_def)
  obtain v' where v': "duo_calls ?p out1 out2 [(True, 1), (True, 1), (False, 1), (False, 1), (True, 1),
      (True, length out1), (True, 1), (False, 1), (False, length out2), (False, 1), (True, 1), (True, 1)]
      (CMkdir, CMkdir, first_vfs ?p img) = Some (CRename, CSync 1, v')"
    "inode v' (tmp_path ?p) = Some 1" "inode v' (bak_path ?p) = Some 2"
    "content (node v' 1) = out2 @ drop (length out2) out1"
    using duo_late [OF ne, of ?p img] by blast
  let ?w = "wrote w s1 out1 s2 out2 ?p (CSync 1) v'"
  obtain w' where w': "world_run x cf {XRotate} ?w w'" "wth w' = (wth ?w)(2 \<mapsto> TDone (Inl (EReplace NOT_FOUND)))"
    "files_of (vol w') (v_file ?p) = Some (node (vol ?w) 1)" "files_of (vol w') (bak_path ?p) = Some (node (vol ?w) 1)"
    by (rule run_rotate_fails [where w = ?w and cf = cf and x = x and K = "{XRotate}"])
      (use v'(3) in simp_all)
  have "reach (world_start x ?p pw s0) (world_step x cf {XRotate}) w'"
    by (rule go [OF run_trans [OF run_trans [OF duo [OF v'(1)] run_wrote [OF v'(2)]] w'(1)]])
  then have "\<exists>w f s1 s2 out1 out2. reach (world_start x ?p pw s0) (world_step x cf {XRotate}) w \<and>
      wth w 1 = Some (Replied (Inr (JObj []))) \<and> wth w 2 = Some (TDone (Inl (EReplace NOT_FOUND))) \<and>
      seals x s1 out1 \<and> map_option e_value (store_of s1 (sp_name p)) = Some u \<and>
      seals x s2 out2 \<and> keyed_by x new s2 \<and> files_of (vol w) (v_file ?p) = Some f \<and>
      files_of (vol w) (bak_path ?p) = Some f \<and> content f = out2 @ drop (length out2) out1"
    using w'(2-4) v'(4) out set1(2,3)
    by (intro exI [of _ w'] exI [of _ "node v' 1"] exI [of _ s1] exI [of _ s2] exI [of _ out1] exI [of _ out2]) simp
  with first show ?thesis by blast
qed

theorem rotate_tears_vault_witness:
  "\<exists>w f. reach (world_start demo_rpc demo_path [1] (demo_session [1] [2])) (world_step demo_rpc demo_cfg {XRotate}) w \<and>
     wth w 1 = Some (Replied (Inr (JObj []))) \<and> files_of (vol w) (v_file demo_path) = Some f \<and> content f = []"
proof -
  have blank: "\<not> blank (sp_name (demo_set_param ''git/h''))" by (simp add: blank_lit is_whitespace_def)
  have "\<exists>k. derive_key demo_rpc [7] (replicate SALT_LEN 0) (c_kdf demo_cfg) = Inr k"
    by (subst demo_rpc_lib) (simp add: demo_cfg_def lib_derives)
  then obtain k where k: "derive_key demo_rpc [7] (replicate SALT_LEN 0) (c_kdf demo_cfg) = Inr k" ..
  from rotate_tears_vault [OF demo_sealing_total demo_rpc_aead_ok demo_rpc_body_codec demo_good blank _ k]
  show ?thesis by simp blast
qed

end
