(* ===== verification/KR_ParkGrain.thy ===== *)
theory KR_ParkGrain
  imports KR_Concurrency KR_StoreProps
begin

text \<open>
  The two grains of parking agree. When the other calls run one at a time between a waiter's sleeps,
  the threads of \<open>KR_Concurrency\<close> do what \<open>wait_for_unlock\<close>, \<open>adopt\<close>, \<open>unlock_cancel\<close> and \<open>do_lock\<close> do
  in one step each.
\<close>

subsection \<open>One call alone\<close>

text \<open>The same lock state, generation and clock, no one inside the mutex, and the clients told so.\<close>

definition park_view :: "agent \<Rightarrow> park \<Rightarrow> bool" where
  "park_view a s \<longleftrightarrow> unlocked s = (session a \<noteq> None) \<and> gen s = unlock_gen a \<and> now s = mono (sys a) \<and>
     holder s = None \<and> announced s = unlocked s"

text \<open>What may happen while a waiter sleeps, on the agent and as the calls of a thread \<open>u\<close>.\<close>

datatype stir = SUnlock Session | SCancel | SLock | STime nat

fun stir_agent :: "'x rpc_ext_scheme \<Rightarrow> stir \<Rightarrow> agent \<Rightarrow> agent" where
  "stir_agent x (SUnlock ses) a = adopt x ses a"
| "stir_agent x SCancel a = snd (unlock_cancel a)"
| "stir_agent x SLock a = snd (do_lock x a)"
| "stir_agent x (STime d) a = a\<lparr>sys := (sys a)\<lparr>mono := mono (sys a) + d\<rparr>\<rparr>"

definition calls :: "nat \<Rightarrow> nat \<Rightarrow> park \<Rightarrow> park" where
  "calls n p = park_call p ^^ n"

fun stir_park :: "stir \<Rightarrow> nat \<Rightarrow> park \<Rightarrow> park" where
  "stir_park (SUnlock ses) u s = calls 3 u (goto u USet s)"
| "stir_park SCancel u s = calls 2 u (goto u CBump s)"
| "stir_park SLock u s = calls 2 u (goto u LTake s)"
| "stir_park (STime d) u s = s\<lparr>now := now s + d\<rparr>"

lemma calls_eq [simp]:
  "calls 0 p s = s" "calls 2 p s = park_call p (park_call p s)"
  "calls 3 p s = park_call p (park_call p (park_call p s))"
  by (simp_all add: calls_def numeral_eq_Suc)

lemma stir_effect:
  assumes "park_view a s" "thr s u = None"
  shows "park_view (stir_agent x e a) (stir_park e u s)"
    "q \<noteq> u \<Longrightarrow> thr (stir_park e u s) q \<in> {thr s q, map_option rouse (thr s q)}"
  using assms
  by (cases e; simp add: park_view_def park_steps adopt_def broadcast_state_def unlock_cancel_def
      do_lock_def lock_def)+

lemma calls_run: "park_step\<^sup>*\<^sup>* s (calls n p s)"
  by (induction n) (auto simp: calls_def intro: rtranclp.rtrancl_into_rtrancl park_run)

lemma stir_run:
  assumes "thr s u = None"
  shows "park_step\<^sup>*\<^sup>* s (stir_park e u s)"
proof -
  have "park_step\<^sup>*\<^sup>* s (calls n u (goto u c s))" if "c \<in> entry_points" for c n
    using park_spawn [OF assms that] calls_run [of "goto u c s" n u] by (rule converse_rtranclp_into_rtranclp)
  then show ?thesis
    by (cases e) (auto simp del: calls_eq simp: entry_points_def intro: park_tick)
qed

subsection \<open>A waiter and what happens while it sleeps\<close>

text \<open>The sleeper wakes - notified, by its timeout or for no reason - and looks again.\<close>

definition woken :: "nat \<Rightarrow> park \<Rightarrow> park" where
  "woken p s = (case thr s p of None \<Rightarrow> s | Some c \<Rightarrow> goto p (rouse c) s)"

fun park_rounds :: "nat \<Rightarrow> (nat \<times> stir) list \<Rightarrow> park \<Rightarrow> park" where
  "park_rounds p [] s = s"
| "park_rounds p ((u, e) # es) s = park_rounds p es (calls 4 p (woken p (stir_park e u s)))"

definition outcome :: "nat \<Rightarrow> u64 \<Rightarrow> bool option \<Rightarrow> pc" where
  "outcome d g r = (case r of Some b \<Rightarrow> WDone b | None \<Rightarrow> WAsleep d g)"

text \<open>The calls of a waiter when nobody is inside the mutex, one after the other.\<close>

lemma calls_Suc: "calls (Suc n) p s = calls n p (park_call p s)"
  unfolding calls_def by (simp only: funpow_Suc_right comp_def)

lemma goto_mutex [simp]:
  "goto p c (goto p d s) = goto p c s" "(goto p c s)\<lparr>holder := h\<rparr> = goto p c (s\<lparr>holder := h\<rparr>)"
  "s\<lparr>holder := h\<rparr>\<lparr>holder := h'\<rparr> = s\<lparr>holder := h'\<rparr>" "thr s p = Some c \<Longrightarrow> goto p c s = s"
  by (cases s; auto simp: goto_def fun_upd_idem)+

lemma holder_idem [simp]: "holder s = h \<Longrightarrow> s\<lparr>holder := h\<rparr> = s"
  by (cases s) simp

lemma waiter_call:
  "thr s p = Some WStart \<Longrightarrow> park_call p s = goto p (if unlocked s then WDone True else WPrompt) s"
  "thr s p = Some WPrompt \<Longrightarrow> park_call p s = goto p (WCapture (now s + UNLOCK_WAIT)) s"
  "thr s p = Some (WCapture d) \<Longrightarrow> holder s = None \<Longrightarrow>
     park_call p s = goto p (WCheck d (gen s)) (s\<lparr>holder := Some p\<rparr>)"
  "thr s p = Some (WWake d g) \<Longrightarrow> holder s = None \<Longrightarrow>
     park_call p s = goto p (WCheck d g) (s\<lparr>holder := Some p\<rparr>)"
  "thr s p = Some (WCheck d g) \<Longrightarrow> park_call p s =
     (if unlocked s then goto p (WDone True) (s\<lparr>holder := None\<rparr>) else goto p (WGen d g) s)"
  "thr s p = Some (WGen d g) \<Longrightarrow> park_call p s =
     (if gen s \<noteq> g then goto p (WDone False) (s\<lparr>holder := None\<rparr>) else goto p (WTime d g) s)"
  "thr s p = Some (WTime d g) \<Longrightarrow> park_call p s =
     goto p (if d \<le> now s then WDone False else WAsleep d g) (s\<lparr>holder := None\<rparr>)"
  by (simp_all add: park_steps)

lemma done_stays: "thr s p = Some (WDone b) \<Longrightarrow> calls n p s = s"
  by (induction n) (simp_all add: calls_def park_steps)

lemma look_round:
  assumes "thr s p = Some (WCheck d g)" "holder s = Some p"
  shows "calls 3 p s = goto p (if unlocked s then WDone True else if gen s \<noteq> g then WDone False
    else if d \<le> now s then WDone False else WAsleep d g) (s\<lparr>holder := None\<rparr>)"
proof -
  have three: "calls 3 p s = calls 2 p (park_call p s)" "calls 2 p t = calls 1 p (park_call p t)"
    "calls 1 p t = park_call p t" for t
    by (simp_all add: calls_def numeral_eq_Suc)
  note three = this [unfolded One_nat_def] this
  consider "unlocked s" | "\<not> unlocked s" "gen s \<noteq> g" | "\<not> unlocked s" "gen s = g" by blast
  then show ?thesis
  proof cases
    case 1
    with assms(1) show ?thesis by (simp add: three(1) waiter_call(5) done_stays del: calls_eq)
  next
    case 2
    with assms(1) show ?thesis
      by (simp add: three(1,2) waiter_call(5,6) done_stays del: calls_eq)
  next
    case 3
    with assms(1) show ?thesis by (simp add: three waiter_call(5-7) del: calls_eq)
  qed
qed

lemma wait_round:
  assumes "park_view a s" "thr s p = Some (WWake d g)"
  shows "calls 4 p s = goto p (outcome d g (wait_check g d a)) s"
proof -
  have "calls 4 p s = calls 3 p (park_call p s)" using calls_Suc [of 3 p s] by simp
  with assms show ?thesis
    by (simp add: waiter_call(4) look_round park_view_def wait_check_def outcome_def is_locked_def del: calls_eq)
qed

lemma wait_begin:
  assumes "park_view a s" "thr s p = Some WStart"
  shows "calls 6 p s = goto p (if is_locked a then WAsleep (mono (sys a) + UNLOCK_WAIT) (unlock_gen a) else WDone True) s"
proof (cases "is_locked a")
  case False
  then have "park_call p s = goto p (WDone True) s"
    using assms by (simp add: waiter_call(1) park_view_def is_locked_def)
  moreover have "calls 6 p s = calls 5 p (park_call p s)" using calls_Suc [of 5 p s] by simp
  ultimately show ?thesis using False by (simp add: done_stays)
next
  case True
  have "0 < UNLOCK_WAIT" by (simp add: UNLOCK_WAIT_def NANOS_def)
  moreover have "calls 6 p s = calls 3 p (park_call p (park_call p (park_call p s)))"
    using calls_Suc [of 5 p s] calls_Suc [of 4 p "park_call p s"] calls_Suc [of 3 p "park_call p (park_call p s)"]
    by simp
  ultimately show ?thesis
    using assms True by (simp add: waiter_call(1-3) look_round park_view_def is_locked_def del: calls_eq)
qed

lemma park_view_goto [simp]: "park_view a (goto p c s) = park_view a s"
  by (simp add: park_view_def)

lemma woken_view [simp]: "park_view a (woken p s) = park_view a s"
  by (simp add: woken_def split: option.split)

lemma woken_run: "park_step\<^sup>*\<^sup>* s (woken p s)"
proof (cases "thr s p")
  case (Some c)
  show ?thesis
  proof (cases "\<exists>d g. c = WAsleep d g")
    case True
    then obtain d g where c: "c = WAsleep d g" by blast
    with Some have "park_step s (goto p (WWake d g) s)" by (intro park_spurious) simp
    with Some c show ?thesis by (simp add: woken_def r_into_rtranclp)
  next
    case False
    then have "rouse c = c" by (cases c) auto
    with Some have "woken p s = s" by (cases s) (auto simp: woken_def goto_def fun_upd_idem)
    then show ?thesis by simp
  qed
qed (simp add: woken_def)

text \<open>One round of the waiter \<open>p\<close>: what happens during its sleep, and its look at the lock state.\<close>

lemma round_effect:
  fixes e :: stir
  assumes view: "park_view a s" and u: "thr s u = None" "u \<noteq> p"
    and p: "thr s p = Some (WAsleep d g) \<or> thr s p = Some (WDone b)"
  defines "t \<equiv> calls 4 p (woken p (stir_park e u s))"
  shows "park_view (stir_agent x e a) t" "park_step\<^sup>*\<^sup>* s t"
    "thr s p = Some (WAsleep d g) \<Longrightarrow> thr t p = Some (outcome d g (wait_check g d (stir_agent x e a)))"
    "thr s p = Some (WDone b) \<Longrightarrow> thr t p = Some (WDone b)"
    "q \<noteq> u \<Longrightarrow> thr s q = None \<Longrightarrow> thr t q = None"
proof -
  let ?a = "stir_agent x e a" and ?s1 = "woken p (stir_park e u s)"
  note eff = stir_effect [OF view u(1), where e = e]
  have view1: "park_view ?a ?s1" using eff(1) by simp
  have other: "thr ?s1 q = None" if "thr s q = None" "q \<noteq> u" for q
    using eff(2) [of q] that p by (auto simp: woken_def split: option.split)
  have moved: "calls 4 p ?s1 = goto p c ?s1" if "thr ?s1 p = Some (WDone b)" "c = WDone b" for c
    using that by (simp add: done_stays)
  have wake: "thr ?s1 p = Some (WWake d g)" if "thr s p = Some (WAsleep d g)"
    using eff(2) [of p] u(2) that by (auto simp: woken_def)
  have same: "thr ?s1 p = Some (WDone b)" if "thr s p = Some (WDone b)"
    using eff(2) [of p] u(2) that by (auto simp: woken_def)
  have t: "\<exists>c. t = goto p c ?s1"
    using p wait_round [OF view1 wake] moved [OF same] unfolding t_def by blast
  then show "park_view ?a t" using view1 by auto
  show "park_step\<^sup>*\<^sup>* s t"
    unfolding t_def using stir_run [OF u(1)] woken_run calls_run by (meson rtranclp_trans)
  show "thr t p = Some (outcome d g (wait_check g d ?a))" if "thr s p = Some (WAsleep d g)"
    using wait_round [OF view1 wake [OF that]] by (simp add: t_def)
  show "thr t p = Some (WDone b)" if "thr s p = Some (WDone b)"
    using moved [OF same [OF that] refl] by (simp add: t_def)
  show "thr t q = None" if "q \<noteq> u" "thr s q = None"
  proof -
    have "q \<noteq> p" using p that(2) by auto
    with t other [OF that(2,1)] show ?thesis by auto
  qed
qed

definition verdict :: "nat \<Rightarrow> u64 \<Rightarrow> (bool \<times> agent) option \<Rightarrow> pc" where
  "verdict d g r = outcome d g (map_option fst r)"

lemma rounds_done:
  assumes "park_view a s" "thr s p = Some (WDone b)"
    and "distinct (p # map fst es)" "\<forall>u \<in> set (map fst es). thr s u = None"
  shows "park_view (fold (stir_agent x) (map snd es) a) (park_rounds p es s) \<and>
    park_step\<^sup>*\<^sup>* s (park_rounds p es s) \<and> thr (park_rounds p es s) p = Some (WDone b)"
  using assms
proof (induction es arbitrary: a s)
  case (Cons ue es)
  obtain u e where ue: "ue = (u, e)" by (cases ue)
  let ?t = "calls 4 p (woken p (stir_park e u s))"
  have u: "thr s u = None" "u \<noteq> p" using Cons.prems(3,4) ue by auto
  note eff = round_effect [OF Cons.prems(1) u disjI2 [OF Cons.prems(2)], where e = e]
  have "\<forall>v \<in> set (map fst es). thr ?t v = None"
  proof
    fix v assume v: "v \<in> set (map fst es)"
    have "v \<noteq> u" "thr s v = None" using v Cons.prems(3,4) ue by auto
    then show "thr ?t v = None" by (rule eff(5))
  qed
  from Cons.IH [OF eff(1) [where x = x] eff(4) [OF Cons.prems(2)] _ this] Cons.prems(3) ue
  show ?case by (auto intro: rtranclp_trans [OF eff(2)])
qed simp

lemma rounds_asleep:
  assumes "park_view a s" "thr s p = Some (WAsleep d g)" "wait_check g d a = None"
    and "distinct (p # map fst es)" "\<forall>u \<in> set (map fst es). thr s u = None"
  shows "park_view (fold (stir_agent x) (map snd es) a) (park_rounds p es s) \<and>
    park_step\<^sup>*\<^sup>* s (park_rounds p es s) \<and>
    thr (park_rounds p es s) p = Some (verdict d g (wait_loop g d (map (stir_agent x) (map snd es)) a))"
  using assms
proof (induction es arbitrary: a s)
  case (Cons ue es)
  obtain u e where ue: "ue = (u, e)" by (cases ue)
  let ?t = "calls 4 p (woken p (stir_park e u s))" and ?a = "stir_agent x e a"
  have u: "thr s u = None" "u \<noteq> p" using Cons.prems(4,5) ue by auto
  note eff = round_effect [OF Cons.prems(1) u disjI1 [OF Cons.prems(2)], where e = e]
  have rest: "\<forall>v \<in> set (map fst es). thr ?t v = None"
  proof
    fix v assume v: "v \<in> set (map fst es)"
    have "v \<noteq> u" "thr s v = None" using v Cons.prems(4,5) ue by auto
    then show "thr ?t v = None" by (rule eff(5))
  qed
  have dist: "distinct (p # map fst es)" using Cons.prems(4) ue by auto
  have loop: "wait_loop g d (map (stir_agent x) (map snd (ue # es))) a =
      wait_loop g d (map (stir_agent x) (map snd es)) ?a"
    using Cons.prems(3) ue by (simp add: wait_loop_Cons)
  show ?case
  proof (cases "wait_check g d ?a")
    case None
    then have t: "thr ?t p = Some (WAsleep d g)" using eff(3) [OF Cons.prems(2), where x = x] by (simp add: outcome_def)
    from Cons.IH [OF eff(1) [where x = x] t None dist rest] ue show ?thesis
      unfolding loop by (auto intro: rtranclp_trans [OF eff(2)])
  next
    case (Some b)
    then have t: "thr ?t p = Some (WDone b)" using eff(3) [OF Cons.prems(2), where x = x] by (simp add: outcome_def)
    have "wait_loop g d ws ?a = Some (b, ?a)" for ws
      by (subst wait_loop.simps) (simp add: Some)
    with rounds_done [OF eff(1) [where x = x] t dist rest, where x = x] ue show ?thesis
      unfolding loop by (auto simp: verdict_def outcome_def intro: rtranclp_trans [OF eff(2)])
  qed
qed (simp add: wait_loop_Nil verdict_def outcome_def)

text \<open>C14. The grains agree on parking. A thread that calls \<open>wait_for_unlock\<close> while unlocks, cancels, locks
  and the clock do what they do one at a time between its sleeps ends as the one-step
  \<open>wait_for_unlock\<close> does under the same schedule - answered with the same result, or still asleep with
  the deadline and generation it captured. The threads make a run of the transition system, and after
  it both models agree on lock state, generation and clock, and the clients were last told the truth.\<close>

theorem park_wait_refines:
  assumes view: "park_view a s" and p: "thr s p = Some WStart"
    and fresh: "distinct (p # map fst es)" "\<forall>u \<in> set (map fst es). thr s u = None"
  shows "let t = park_rounds p es (calls 6 p s);
      b = (if is_locked a then broadcast_unlock_needed x a else a)
    in park_step\<^sup>*\<^sup>* s t \<and> park_view (fold (stir_agent x) (map snd es) b) t \<and>
      thr t p = Some (verdict (mono (sys a) + UNLOCK_WAIT) (unlock_gen a)
        (wait_for_unlock x (map (stir_agent x) (map snd es)) a))"
proof (cases "is_locked a")
  case False
  then have begin': "calls 6 p s = goto p (WDone True) s" using wait_begin [OF view p] by simp
  have other: "\<forall>u \<in> set (map fst es). thr (goto p (WDone True) s) u = None" using fresh by auto
  have "park_view (fold (stir_agent x) (map snd es) a) (park_rounds p es (goto p (WDone True) s)) \<and>
      park_step\<^sup>*\<^sup>* (goto p (WDone True) s) (park_rounds p es (goto p (WDone True) s)) \<and>
      thr (park_rounds p es (goto p (WDone True) s)) p = Some (WDone True)"
    by (rule rounds_done [OF _ _ fresh(1) other]) (simp_all add: view)
  with False show ?thesis
    using rtranclp_trans [OF calls_run [of s 6 p]] unfolding begin'
    by (simp add: Let_def verdict_def outcome_def wait_for_unlock_def)
next
  case True
  let ?d = "mono (sys a) + UNLOCK_WAIT" and ?g = "unlock_gen a" and ?b = "broadcast_unlock_needed x a"
  let ?s = "goto p (WAsleep ?d ?g) s"
  have begin': "calls 6 p s = ?s" using wait_begin [OF view p] True by simp
  have other: "\<forall>u \<in> set (map fst es). thr ?s u = None" using fresh by auto
  have b: "sys ?b = sys a" "unlock_gen ?b = unlock_gen a" "session ?b = session a"
    by (simp_all add: broadcast_unlock_needed_def)
  have view': "park_view ?b ?s" using view b by (simp add: park_view_def)
  have "wait_check ?g ?d ?b = None"
    using True b by (simp add: wait_check_Some is_locked_def UNLOCK_WAIT_def NANOS_def)
  from rounds_asleep [OF view' _ this fresh(1) other, where x = x] True b show ?thesis
    using rtranclp_trans [OF calls_run [of s 6 p]] unfolding begin'
    by (simp add: Let_def wait_for_unlock_def)
qed

theorem park_wait_refines_witness:
  "\<exists>a s t. park_view a s \<and> thr s 1 = Some WStart \<and> park_step\<^sup>*\<^sup>* s t \<and>
     thr t 1 = Some (verdict (mono (sys a) + UNLOCK_WAIT) (unlock_gen a)
       (wait_for_unlock demo_rpc [stir_agent demo_rpc SLock, stir_agent demo_rpc (SUnlock (demo_session [1] [2]))] a)) \<and>
     thr t 1 = Some (WDone True)"
proof -
  let ?a = "Server_new demo_cfg demo_os" and ?es = "[(2 :: nat, SLock), (3, SUnlock (demo_session [1] [2]))]"
  let ?s = "\<lparr>unlocked = False, gen = unlock_gen ?a, holder = None, announced = False, now = mono (sys ?a),
    thr = [1 \<mapsto> WStart]\<rparr>"
  have view: "park_view ?a ?s" by (simp add: park_view_def Server_new_def)
  have t: "thr ?s 1 = Some WStart" "distinct (1 # map fst ?es)" "\<forall>u \<in> set (map fst ?es). thr ?s u = None"
    by simp_all
  have "wait_for_unlock demo_rpc (map (stir_agent demo_rpc) (map snd ?es)) ?a \<noteq> None \<and>
      fst (the (wait_for_unlock demo_rpc (map (stir_agent demo_rpc) (map snd ?es)) ?a))"
    by (simp add: wait_for_unlock_def Let_def wait_loop_Cons wait_loop_Nil wait_check_def is_locked_def
        Server_new_def do_lock_def lock_def adopt_def broadcast_state_def broadcast_unlock_needed_def
        UNLOCK_WAIT_def NANOS_def)
  then have "verdict d g (wait_for_unlock demo_rpc (map (stir_agent demo_rpc) (map snd ?es)) ?a) = WDone True" for d g
    by (auto simp: verdict_def outcome_def)
  with park_wait_refines [OF view t, of demo_rpc] view t(1) show ?thesis
    unfolding Let_def list.map snd_conv by metis
qed

end
