(* ===== verification/KR_ResponseProps.thy ===== *)
theory KR_ResponseProps
  imports KR_StdioProps KR_LockProps "HOL-Library.Multiset"
begin

text \<open>
  Responses of the socket daemon, whatever parks, resumes and interleaves: the runs of \<open>KR_System\<close> with
  the requests that arrive in them, and what becomes of each request.
\<close>

subsection \<open>Runs with their arrivals\<close>

datatype event = Arrives u64 Request | Connects u64 | Disconnects u64 | Internal

inductive daemon_event :: "'x rpc_ext_scheme \<Rightarrow> event \<Rightarrow> system \<Rightarrow> system \<Rightarrow> bool" for x where
  ev_serve: "handle x quiet i req (ag s) = Some a' \<Longrightarrow> daemon_event x (Arrives i req) s (s\<lparr>ag := a'\<rparr>)"
| ev_park: "handle x quiet i req (ag s) = None \<Longrightarrow> daemon_event x (Arrives i req) s
    (s\<lparr>ag := parked_state x req (ag s), parked := (i, req, ag s) # parked s\<rparr>)"
| ev_resume: "(i, req, a0) \<in> set (parked s) \<Longrightarrow> handle x (wake_to (ag s)) i req a0 = Some a' \<Longrightarrow>
    daemon_event x Internal s (s\<lparr>ag := a', parked := remove1 (i, req, a0) (parked s)\<rparr>)"
| ev_tick: "daemon_event x Internal s (s\<lparr>ag := snd (autolock_tick x (ag s))\<rparr>)"
| ev_clock: "daemon_event x Internal s
    (s\<lparr>ag := (ag s)\<lparr>sys := (sys (ag s))\<lparr>mono := mono (sys (ag s)) + d, unix := u\<rparr>\<rparr>\<rparr>)"
| ev_connect: "register_client (ag s) = (i, a') \<Longrightarrow> daemon_event x (Connects i) s (s\<lparr>ag := a'\<rparr>)"
| ev_disconnect: "daemon_event x (Disconnects i) s (s\<lparr>ag := snd (unregister_client i (ag s))\<rparr>)"

lemma daemon_events: "daemon_step x s t \<longleftrightarrow> (\<exists>e. daemon_event x e s t)"
proof
  assume "daemon_step x s t"
  then show "\<exists>e. daemon_event x e s t"
  proof cases
    case connect
    have "register_client (ag s) = (fst (register_client (ag s)), snd (register_client (ag s)))" by simp
    from ev_connect [OF this] connect show ?thesis by metis
  qed (auto intro: daemon_event.intros)
next
  assume "\<exists>e. daemon_event x e s t"
  then obtain e where "daemon_event x e s t" ..
  then show "daemon_step x s t"
  proof cases
    case (ev_connect i a')
    then show ?thesis using daemon_step.connect [of x s] by simp
  qed (auto intro: daemon_step.intros)
qed

inductive daemon_run :: "'x rpc_ext_scheme \<Rightarrow> event list \<Rightarrow> system \<Rightarrow> system \<Rightarrow> bool" for x where
  run_start: "daemon_run x [] s s"
| run_event: "daemon_run x es s t \<Longrightarrow> daemon_event x e t u \<Longrightarrow> daemon_run x (es @ [e]) s u"

text \<open>The ids of the requests that arrive for a client, and of its requests that are parked.\<close>

fun asked_id :: "u64 \<Rightarrow> event \<Rightarrow> int multiset" where
  "asked_id i (Arrives j req) = (if j = i then {#uint (r_id req)#} else {#})"
| "asked_id i _ = {#}"

definition asked :: "u64 \<Rightarrow> event list \<Rightarrow> int multiset" where
  "asked i es = sum_list (map (asked_id i) es)"

definition parked_id :: "u64 \<Rightarrow> u64 \<times> Request \<times> agent \<Rightarrow> int multiset" where
  "parked_id i = (\<lambda>(j, req, a0). asked_id i (Arrives j req))"

definition waiting :: "u64 \<Rightarrow> system \<Rightarrow> int multiset" where
  "waiting i s = sum_list (map (parked_id i) (parked s))"

definition answered :: "'x rpc_ext_scheme \<Rightarrow> u64 \<Rightarrow> agent \<Rightarrow> int multiset" where
  "answered x i a = mset (response_ids x (queue_of i a))"

lemma asked_simps [simp]: "asked i [] = {#}" "asked i (es @ [e]) = asked i es + asked_id i e"
  by (simp_all add: asked_def)

lemma sum_list_remove1:
  "y \<in> set xs \<Longrightarrow> sum_list (map f xs) = f y + sum_list (map f (remove1 y xs) :: int multiset list)"
  by (induction xs) auto

subsection \<open>What each step sends\<close>

text \<open>Every client is sent the same notifications, and client \<open>i\<close> a response after them.\<close>

definition note_lines :: "'x rpc_ext_scheme \<Rightarrow> rstring set" where
  "note_lines x = insert (unlock_needed_line x) (range (state_line x))"

definition delivers :: "'x rpc_ext_scheme \<Rightarrow> (u64 \<Rightarrow> rstring list) \<Rightarrow> agent \<Rightarrow> agent \<Rightarrow> bool" where
  "delivers x out a b \<longleftrightarrow>
     (\<exists>ns. set ns \<subseteq> note_lines x \<and> clients b = map (\<lambda>(j, q). (j, q @ ns @ out j)) (clients a))"

lemma note_ids:
  assumes "json_codec x" "set ns \<subseteq> note_lines x"
  shows "response_ids x ns = []"
proof -
  have "json_parse x l = Some v \<longrightarrow> json_get (lit ''id'') v = None" if "l \<in> set ns" for l v
  proof -
    from that assms(2) have "l \<in> note_lines x" by blast
    then obtain m p where "l = notification x m p"
      by (auto simp: note_lines_def state_line_def unlock_needed_line_def)
    with assms(1) show ?thesis by (auto simp: notification_def json_codecD)
  qed
  then show ?thesis
    by (fastforce simp: response_ids_def List.map_filter_def filter_empty_conv split: bind_splits)
qed

lemma delivers_ids:
  assumes "json_codec x" "delivers x out a b" "map_of (clients a) i \<noteq> None"
  shows "map_of (clients b) i \<noteq> None"
    "answered x i b = answered x i a + mset (response_ids x (out i))"
proof -
  from assms(2) obtain ns where ns: "set ns \<subseteq> note_lines x"
    and b: "clients b = map (\<lambda>(j, q). (j, q @ ns @ out j)) (clients a)" by (auto simp: delivers_def)
  have m: "map_of (clients b) i = map_option (\<lambda>q. q @ ns @ out i) (map_of (clients a) i)"
    unfolding b by (rule map_of_queues)
  with assms(3) show "map_of (clients b) i \<noteq> None" by simp
  from m assms(3) show "answered x i b = answered x i a + mset (response_ids x (out i))"
    by (auto simp: answered_def queue_of_def note_ids [OF assms(1) ns])
qed

lemma delivers_tells: "tells x a b \<Longrightarrow> delivers x (\<lambda>_. []) a b"
  by (fastforce simp: tells_def delivers_def note_lines_def)

lemma delivers_same: "clients b = clients a \<Longrightarrow> delivers x (\<lambda>_. []) a b"
  by (rule delivers_tells) (rule tells_same)

definition response_line :: "'x rpc_ext_scheme \<Rightarrow> Request \<Rightarrow> err + json \<Rightarrow> rstring" where
  "response_line x req r = (case r of Inr v \<Rightarrow> response_ok x (r_id req) v
     | Inl e \<Rightarrow> response_err x (r_id req) (show_err e))"

definition only_to :: "u64 \<Rightarrow> rstring \<Rightarrow> u64 \<Rightarrow> rstring list" where
  "only_to i l = (\<lambda>j. if j = i then [l] else [])"

lemma response_line_id: "json_codec x \<Longrightarrow> response_ids x [response_line x req r] = [uint (r_id req)]"
  by (cases r) (simp_all add: response_line_def response_ids_answer)

lemma delivers_send: "tells x a b \<Longrightarrow> delivers x (only_to i l) a (send_to i l b)"
  by (fastforce simp: tells_def delivers_def note_lines_def clients_send_map only_to_def)

lemma serve_delivers:
  assumes "handle x quiet i req a = Some b"
  shows "\<exists>r. delivers x (only_to i (response_line x req r)) a b"
proof -
  from assms obtain r c where d: "dispatch x quiet (r_method req) (r_params req) a = Some (r, c)"
    and b: "b = send_to i (response_line x req r) c"
    by (auto simp: handle_def response_line_def)
  from delivers_send [OF dispatch_tells [OF d]] show ?thesis unfolding b by blast
qed

lemma park_delivers: "delivers x (\<lambda>_. []) a (parked_state x req a)"
proof -
  obtain o1 where "parked_state x req a = broadcast_unlock_needed x ((touch a)\<lparr>sys := o1\<rparr>)"
    using parked_state_eq by blast
  then show ?thesis
    by (auto simp: delivers_def note_lines_def broadcast_unlock_needed_def clients_broadcast_map
        intro!: exI [of _ "[unlock_needed_line x]"])
qed

text \<open>A resumed request has told the others nothing.\<close>

lemma resumed_same:
  "with_session x w quiet f a = None \<Longrightarrow> with_session x w (wake_to b) f a = Some (r, a1) \<Longrightarrow> clients a1 = clients b"
  "read_session x w quiet g a = None \<Longrightarrow> read_session x w (wake_to b) g a = Some (q, a1) \<Longrightarrow> clients a1 = clients b"
  "acquire x w quiet a = None \<Longrightarrow> acquire x w (wake_to b) a = Some (c, a1) \<Longrightarrow> clients a1 = clients b"
proof -
  show "clients a1 = clients b" if "with_session x w quiet f a = None"
    "with_session x w (wake_to b) f a = Some (r, a1)"
    using quiet_None(1) [OF that(1)] that resumed_sessions(1) [of a x b f] quiet_sessions_same(1) [of x _ f b]
    by fastforce
  show "clients a1 = clients b" if "read_session x w quiet g a = None"
    "read_session x w (wake_to b) g a = Some (q, a1)"
    using quiet_None(2) [OF that(1)] that resumed_sessions(2) [of a x b g] quiet_sessions_same(2) [of x _ g b]
    by fastforce
  show "clients a1 = clients b" if "acquire x w quiet a = None" "acquire x w (wake_to b) a = Some (c, a1)"
    using acquire_quiet_None [OF that(1)] that resumed_acquire [of a x b] acquire_quiet_same [of x _ b]
    by fastforce
qed

lemma resumed_ops_same:
  "secret_get x quiet ps a = None \<Longrightarrow> secret_get x (wake_to b) ps a = Some (r, a1) \<Longrightarrow> clients a1 = clients b"
  "secret_set x quiet ps a = None \<Longrightarrow> secret_set x (wake_to b) ps a = Some (r, a1) \<Longrightarrow> clients a1 = clients b"
  "secret_delete x quiet ps a = None \<Longrightarrow> secret_delete x (wake_to b) ps a = Some (r, a1) \<Longrightarrow> clients a1 = clients b"
  "secret_rename x quiet ps a = None \<Longrightarrow> secret_rename x (wake_to b) ps a = Some (r, a1) \<Longrightarrow> clients a1 = clients b"
  "secret_totp x quiet ps a = None \<Longrightarrow> secret_totp x (wake_to b) ps a = Some (r, a1) \<Longrightarrow> clients a1 = clients b"
  "secret_list x quiet ps a = None \<Longrightarrow> secret_list x (wake_to b) ps a = Some (r, a1) \<Longrightarrow> clients a1 = clients b"
  "secret_generate x quiet ps a = None \<Longrightarrow> secret_generate x (wake_to b) ps a = Some (r, a1) \<Longrightarrow>
     clients a1 = clients b"
  by (auto simp: secret_get_def secret_set_def secret_delete_def secret_rename_def secret_totp_def
      secret_list_def secret_generate_def Let_def
      split: sum.splits if_splits option.splits prod.splits
      intro: resumed_same dest!: reply_SomeD)

lemma resume_delivers:
  assumes "handle x quiet i req a = None" "handle x (wake_to b) i req a = Some a1"
  shows "\<exists>r. delivers x (only_to i (response_line x req r)) b a1"
proof -
  let ?m = "r_method req" and ?ps = "r_params req"
  have none: "dispatch x quiet ?m ?ps a = None" using assms(1) by (simp add: handle_def)
  from assms(2) obtain r c where d: "dispatch x (wake_to b) ?m ?ps a = Some (r, c)"
    and a1: "a1 = send_to i (response_line x req r) c"
    by (auto simp: handle_def response_line_def)
  have "clients c = clients b"
    using none d resumed_ops_same [of x ?ps "touch a" b r c]
    unfolding dispatch_def Let_def by (simp split: if_splits add: no_touch_def)
  then show ?thesis unfolding a1 by (intro exI [of _ r] delivers_send tells_same)
qed

lemma tick_delivers: "delivers x (\<lambda>_. []) a (snd (autolock_tick x a))"
proof -
  have "tells x a (broadcast_state x True (a\<lparr>session := None\<rparr>))"
    by (rule tells_state [where v = True]) (simp add: broadcast_state_def broadcast_def)
  then show ?thesis
    by (auto simp: autolock_tick_def Let_def lock_def intro: delivers_same delivers_tells)
qed

subsection \<open>Each request once\<close>

definition accounts ::
  "'x rpc_ext_scheme \<Rightarrow> u64 \<Rightarrow> int multiset \<Rightarrow> system \<Rightarrow> system \<Rightarrow> bool" where
  "accounts x i new s t \<longleftrightarrow>
     map_of (clients (ag t)) i \<noteq> None \<and> (\<exists>ls. queue_of i (ag t) = queue_of i (ag s) @ ls) \<and>
     answered x i (ag t) + waiting i t = answered x i (ag s) + waiting i s + new"

lemma accounts_trans: "accounts x i m s t \<Longrightarrow> accounts x i n t u \<Longrightarrow> accounts x i (m + n) s u"
  by (auto simp: accounts_def union_assoc)

lemma accounts_delivers:
  assumes "json_codec x" "delivers x out (ag s) (ag t)" "map_of (clients (ag s)) i \<noteq> None"
    and "mset (response_ids x (out i)) + waiting i t = waiting i s + new"
  shows "accounts x i new s t"
proof -
  note d = delivers_ids [OF assms(1-3)]
  obtain ns where "clients (ag t) = map (\<lambda>(j, q). (j, q @ ns @ out j)) (clients (ag s))"
    using assms(2) by (auto simp: delivers_def)
  then have "map_of (clients (ag t)) i = map_option (\<lambda>q. q @ ns @ out i) (map_of (clients (ag s)) i)"
    by (simp only: map_of_queues)
  then have "\<exists>ls. queue_of i (ag t) = queue_of i (ag s) @ ls"
    using assms(3) by (auto simp: queue_of_def)
  then show ?thesis using d assms(4) by (simp add: accounts_def union_assoc)
qed

lemma event_accounts:
  assumes json: "json_codec x" and ev: "daemon_event x e s t" "e \<noteq> Connects i" "e \<noteq> Disconnects i"
    and i: "map_of (clients (ag s)) i \<noteq> None"
    and parked: "\<And>j req a0. (j, req, a0) \<in> set (parked s) \<Longrightarrow> handle x quiet j req a0 = None"
  shows "accounts x i (asked_id i e) s t"
  using ev(1)
proof cases
  case (ev_serve j req a')
  obtain r where "delivers x (only_to j (response_line x req r)) (ag s) a'"
    using serve_delivers [OF ev_serve(3)] by blast
  then show ?thesis
    by (intro accounts_delivers [OF json _ i, where out = "only_to j (response_line x req r)"])
      (auto simp: ev_serve(1,2) only_to_def response_line_id [OF json] waiting_def)
next
  case (ev_park j req)
  show ?thesis
    by (rule accounts_delivers [OF json _ i, where out = "\<lambda>_. []"])
      (auto simp: ev_park park_delivers waiting_def parked_id_def)
next
  case (ev_resume j req a0 a')
  obtain r where "delivers x (only_to j (response_line x req r)) (ag s) a'"
    using resume_delivers [OF parked [OF ev_resume(3)] ev_resume(4)] by blast
  moreover have "waiting i s = parked_id i (j, req, a0) + waiting i t"
    unfolding waiting_def ev_resume(2) by (simp add: sum_list_remove1 [OF ev_resume(3)])
  ultimately show ?thesis
    by (intro accounts_delivers [OF json _ i, where out = "only_to j (response_line x req r)"])
      (auto simp: ev_resume(1,2) only_to_def response_line_id [OF json] parked_id_def)
next
  case ev_tick
  show ?thesis
    by (rule accounts_delivers [OF json _ i, where out = "\<lambda>_. []"])
      (auto simp: ev_tick tick_delivers waiting_def)
next
  case (ev_clock u d)
  show ?thesis
    by (rule accounts_delivers [OF json _ i, where out = "\<lambda>_. []"])
      (auto simp: ev_clock waiting_def intro: delivers_same)
next
  case (ev_connect j a')
  have "map_of (filter (\<lambda>(k, _). k \<noteq> j) cs) i = map_of cs i" if "i \<noteq> j" for cs :: "(u64 \<times> rstring list) list"
    using that by (induction cs) auto
  with ev_connect ev(2) i show ?thesis
    by (auto simp: accounts_def register_client_def Let_def answered_def queue_of_def waiting_def)
next
  case (ev_disconnect j)
  have "map_of (filter (\<lambda>(k, _). k \<noteq> j) cs) i = map_of cs i" if "i \<noteq> j" for cs :: "(u64 \<times> rstring list) list"
    using that by (induction cs) auto
  with ev_disconnect ev(3) i show ?thesis
    by (auto simp: accounts_def unregister_client_def Let_def answered_def queue_of_def waiting_def)
qed

lemma run_reach:
  "daemon_run x es s t \<Longrightarrow> reach start (daemon_step x) s \<Longrightarrow> reach start (daemon_step x) t"
proof (induction rule: daemon_run.induct)
  case (run_event es s t e u)
  then have "daemon_step x t u" using daemon_events by blast
  with run_event show ?case by (auto intro: reach_step)
qed

text \<open>C7. Every request is answered exactly once, to the client that sent it, under its id. While client
  \<open>i\<close> is connected, whatever is served, parked, resumed, timed, connected or closed in between, its
  lines only grow, and the ids of the responses among them together with those of its parked requests
  are those it had at first together with those of the requests it sent: none is lost, answered twice
  or answered to another client.\<close>

theorem responses_exactly_once:
  assumes "libs_ok x" "reach (system_start c) (daemon_step x) s" "map_of (clients (ag s)) i \<noteq> None"
    and "daemon_run x es s t" "Connects i \<notin> set es" "Disconnects i \<notin> set es"
  shows "(\<exists>ls. queue_of i (ag t) = queue_of i (ag s) @ ls) \<and>
    mset (response_ids x (queue_of i (ag t))) + waiting i t =
    mset (response_ids x (queue_of i (ag s))) + waiting i s + asked i es"
proof -
  have "accounts x i (asked i es) s t"
    using assms(4-6,2,3)
  proof (induction rule: daemon_run.induct)
    case (run_start s)
    then show ?case by (simp add: accounts_def)
  next
    case (run_event es s t e u)
    then have st: "accounts x i (asked i es) s t" by simp
    have "reach (system_start c) (daemon_step x) t" using run_event by (auto intro: run_reach)
    then have "system_inv x c t" using daemon.reach_inv assms(1) by (auto simp: guarded_inv_def)
    then have "handle x quiet j req a0 = None" if "(j, req, a0) \<in> set (parked t)" for j req a0
      using that by (auto simp: system_inv_def)
    then have "accounts x i (asked_id i e) t u"
      using run_event st by (intro event_accounts [OF libs_okD(1) [OF assms(1)]]) (auto simp: accounts_def)
    with st show ?case by (auto intro: accounts_trans)
  qed
  then show ?thesis by (simp add: accounts_def answered_def)
qed

theorem responses_exactly_once_witness:
  "\<exists>(s :: system) t. daemon_run demo_rpc
       [Arrives 1 \<lparr>r_id = 5, r_method = lit ''rpc.hello'', r_params = JObj []\<rparr>,
        Arrives 1 \<lparr>r_id = 7, r_method = lit ''secret.get'', r_params = JObj [(lit ''name'', JStr (lit ''a''))]\<rparr>] s t \<and>
     mset (response_ids demo_rpc (queue_of 1 (ag t))) + waiting 1 t = {#5, 7#}"
proof -
  let ?hello = "\<lparr>r_id = 5, r_method = lit ''rpc.hello'', r_params = JObj []\<rparr>"
  let ?get = "\<lparr>r_id = 7, r_method = lit ''secret.get'', r_params = JObj [(lit ''name'', JStr (lit ''a''))]\<rparr>"
  let ?init = "\<lparr>ag = Server_new demo_cfg demo_os, parked = []\<rparr>"
  let ?s = "?init\<lparr>ag := snd (register_client (ag ?init))\<rparr>"
  let ?es = "[Arrives 1 ?hello, Arrives 1 ?get]"
  have "system_start demo_cfg ?init" by (auto simp: system_start_def)
  then have reach: "reach (system_start demo_cfg) (daemon_step demo_rpc) ?s"
    by (rule reach_step [OF reach_init]) (rule daemon_step.connect)
  have s: "map_of (clients (ag ?s)) 1 \<noteq> None" "response_ids demo_rpc (queue_of 1 (ag ?s)) = []"
    "waiting 1 ?s = {#}" "session (ag ?s) = None"
    by (simp_all add: register_client_def Server_new_def queue_of_def waiting_def Let_def)
  obtain a where a: "handle demo_rpc quiet 1 ?hello (ag ?s) = Some a" "session a = None"
    using s(4) by (simp add: handle_def dispatch_methods hello_def Let_def)
  have n: "de_name demo_rpc (r_params ?get) = Inr \<lparr>np_name = lit ''a'', np_wait = True\<rparr>"
    by (simp add: demo_name_def field_str_def field_wait_def field_bool_def default_true_def)
  let ?t = "?s\<lparr>ag := a\<rparr>"
  have h: "handle demo_rpc quiet 1 ?get (ag ?t) = None"
    using n a(2) by (simp add: handle_def dispatch_methods secret_get_def read_session_def acquire_quiet)
  let ?u = "?t\<lparr>ag := parked_state demo_rpc ?get (ag ?t), parked := (1, ?get, ag ?t) # parked ?t\<rparr>"
  have "daemon_run demo_rpc (([] @ [Arrives 1 ?hello]) @ [Arrives 1 ?get]) ?s ?u"
    by (rule run_event [OF run_event [OF run_start ev_serve [OF a(1)]] ev_park [OF h]])
  then have run: "daemon_run demo_rpc ?es ?s ?u" by simp
  have "asked 1 ?es = {#5, 7#}" by (simp add: asked_def)
  with responses_exactly_once [OF demo_libs_ok reach s(1) run] s(2,3)
  have "mset (response_ids demo_rpc (queue_of 1 (ag ?u))) + waiting 1 ?u = {#5, 7#}" by simp
  with run show ?thesis by blast
qed

end
