(* ===== verification/Spec2Isabelle.thy ===== *)
theory Spec2Isabelle
  imports KR_MainProps KR_StdioProps KR_RaceProps KR_ThreadProps KR_ParkGrain KR_ResponseProps
begin

text \<open>
  The lvim-keyring daemon: a per-user agent that keeps secrets in an encrypted file and answers
  newline-delimited JSON requests of editors and of a \<open>git-credential\<close> helper over a unix socket.
  This development translates the Rust sources under \<open>native/src\<close> and proves what makes them correct.

  \<^bold>\<open>The program and its model.\<close>

  \<^item> \<open>crypto.rs\<close>: \<open>KR_Crypto\<close>. KDF parameters and their validation, the key buffer, \<open>derive_key\<close>,
    \<open>seal\<close>, \<open>open\<close>. \<open>totp.rs\<close>: \<open>KR_Totp\<close>, with RFC 4226's arithmetic definition beside the code's bit
    operations on words.

  \<^item> \<open>vault.rs\<close>: \<open>KR_Vault\<close> (the data, the byte format, \<open>create\<close>, \<open>unlock\<close>, \<open>save\<close>, \<open>rotate\<close>),
    \<open>KR_VaultWrite\<close> (the images a write can leave on disk), \<open>KR_VaultProps\<close>. The map of entries is the
    sorted association list of \<open>KR_Btree\<close> (\<open>BTreeMap\<close>).

  \<^item> \<open>rpc.rs\<close>: \<open>KR_Rpc\<close>, the JSON values, the request, the two responses and the notification.

  \<^item> \<open>server.rs\<close>: \<open>KR_Agent\<close> (the state \<open>Inner\<close>, clients, broadcasts, lock state, idle timer, parking),
    \<open>KR_Handlers\<close> (every handler, \<open>dispatch\<close>, \<open>handle\<close>), \<open>KR_Server\<close> (the abstract store and the
    refinement to it), \<open>KR_System\<close> (the daemon as a transition system: requests served, parked and
    resumed, timer, clock, connections), \<open>KR_Concurrency\<close> (the same lock state one mutex access at a
    time). Properties: \<open>KR_StoreProps\<close>, \<open>KR_LockProps\<close>, \<open>KR_SecretProps\<close>, \<open>KR_RaceProps\<close>,
    \<open>KR_ParkGrain\<close> (a waiter among calls made one at a time is \<open>KR_Agent\<close>'s wait), \<open>KR_ResponseProps\<close>.

  \<^item> \<open>vault.rs\<close> and \<open>server.rs\<close> together, one system call at a time: \<open>KR_Files\<close> (names, inodes and the
    calls of \<open>write\<close>), \<open>KR_Threads\<close> (requests, unlocks, locks and rotations as threads around the session
    mutex and the file), \<open>KR_Linear\<close> (their history), \<open>KR_Grain\<close> (a thread alone is its handler),
    \<open>KR_ThreadProps\<close>.

  \<^item> \<open>main.rs\<close>: \<open>KR_Main\<close> (modes, configuration, the life of a connection and of the daemon, the start
    on a socket path with its lock file), \<open>KR_MainProps\<close>, \<open>KR_StdioProps\<close>.

  \<^item> \<open>credential.rs\<close>: \<open>KR_Credential\<close> (attributes, the socket exchange byte by byte, lookup and the
    three operations, and the daemon behind the socket), \<open>KR_CredentialProps\<close>.

  \<^item> The standard library and the operating system: \<open>KR_Prelude\<close> (strings, white space, UTF-8 encoding,
    decimal numbers, state and error plumbing, two shared contracts), \<open>KR_Utf8\<close> (lossy decoding, lines),
    \<open>KR_Os\<close> (files, randomness and clocks), \<open>KR_Error\<close> (errors and their texts).

  \<^bold>\<open>State and operations.\<close> A struct is a record of the same fields, an operation on it a function that
  returns the result and the new state; errors are the type \<open>err\<close> on the left of a sum, and state
  changed before an error stays changed. \<open>u32\<close> and \<open>u64\<close> are words. A string is the list of its scalar
  values. The file system is a map from paths to contents and modes; every call that changes it adds
  the images a crash could leave to the list \<open>crash\<close>, a partial write included; whether a call fails
  is read from \<open>faults\<close>. A handler takes a schedule: what other threads do while it sleeps on the
  condition variable and between its lock check and taking the session (\<open>quiet\<close>: nothing). \<open>None\<close>
  is a request still parked when the schedule ends.

  \<^bold>\<open>Parameters.\<close> Code that is not under \<open>native/src\<close> is a field of the records \<open>crypto_ext\<close>,
  \<open>totp_ext\<close>, \<open>vault_ext\<close>, \<open>rpc_ext\<close>: Argon2id, XChaCha20-Poly1305, base32, HMAC-SHA1, \<open>serde_json\<close>
  and the derived decoders. What is relied on is stated as named predicates: \<open>aead_ok\<close> (decryption
  inverts encryption), \<open>aead_tight\<close> (what decrypts was encrypted so), \<open>aead_auth\<close> (an encryption under
  other keys or headers does not decrypt), \<open>kdf_len\<close>, \<open>hmac_len\<close>, \<open>body_codec\<close>, \<open>json_codec\<close>,
  \<open>request_codec\<close>, \<open>serde_name\<close>, \<open>serde_set\<close>. \<open>KR_Instance\<close> and \<open>KR_RpcInstance\<close> are a concrete
  instance of them all, on which each property with a hypothesis is applied.

  \<^bold>\<open>Contracts.\<close> \<open>ordered_map\<close> (\<open>KR_Btree\<close>), \<open>codec\<close> (little-endian words, the vault header),
  \<open>invariant_system\<close> (the daemon, its life around connections, the processes on a socket path, the
  parking threads, the threads on the vault file with and without failures and late unlocks) and
  \<open>prompt_agent\<close> (what the credential helper needs of an agent never to block
  git, provided by the modelled daemon).

  \<^bold>\<open>What is shown.\<close>

  \<^item> Storage: the daemon answers any sequence of requests as an abstract map and the file opens to that
    map; a new daemon recovers it; a save or a rotation interrupted anywhere leaves the old vault or
    the new one; unlocking authenticates the whole header; other passwords and altered headers are
    refused; what each update may change.

  \<^item> Threads: however the system calls of requests, unlocks and locks interleave, the vault file is the
    whole image of the session saved last, and requests are answered as the abstract map answers them
    in the order of the session mutex; a request's thread that runs alone does what its handler does.

  \<^item> Lock state: a locked daemon refuses at once or parks; a parked request ends at its first decisive
    wake-up, by the deadline at the latest; clients that read their lines know the state; failures
    back off; the idle timer locks in time; the daemon never exits unlocked.

  \<^item> Processes: of any number of daemons started on a path one serves; a start ends; the helper always
    returns to git, and prints what is stored; every request is answered exactly once, on a socket
    whatever parks and resumes meanwhile, on standard input whatever the order of the tasks.

  \<^item> What is left open, as theorems: a change that could not be saved stays in memory; an unlock or a
    cancel can miss a request about to sleep; announcements can arrive against the order of their
    causes; a write during a rotation is lost and undoes it, or the two write the same temporary file and
    tear the vault; an unlock that read the file before a write forgets the write; a client can be cut off by the count or
    the timer of an earlier one; a stored line feed becomes attributes for git; generated characters
    are not quite uniform.

  \<^bold>\<open>Three grains of interleaving.\<close> In \<open>KR_System\<close> a step is a whole handler, except that a parked
  request sleeps between steps; what is proved there of the order of announcements holds for handlers
  that do not overlap. \<open>KR_Concurrency\<close> takes lock, unlock, cancel and waiting apart into their accesses
  of the two mutexes, where that order can be violated. \<open>KR_Threads\<close> takes requests, unlocks, locks
  and rotations apart into the sections of the session mutex and the system calls on the vault file: a
  save is made under the mutex, reading the file for an unlock and all of a rotation are not. Each
  thread is one request; the steps of a system may include failing calls, unlocks that adopt what they
  read before a later save, and rotations (\<open>extra\<close>), and each property names those it allows. The
  vault file exists from the start, so \<open>create\<close> refuses and is no thread there. Where nothing comes
  between, the finer grains are the coarse one: \<open>op_thread_refines\<close> for the requests and the file,
  \<open>park_wait_refines\<close> for the parking. In \<open>KR_Main\<close> the request of a connection takes any schedule.

  \<^bold>\<open>Termination and fuel.\<close> Every function here is total. The only fuel is in the demonstration parser
  of \<open>KR_RpcInstance\<close> (the length of its input, enough by \<open>jdec_jenc\<close>). Waiting on the condition
  variable is a list of wake-ups; reading from a socket that stays silent is the value \<open>Blocks\<close>.
  A \<open>write\<close> that runs alone ends within seven calls more than its image has bytes (\<open>write_run_stops\<close>).

  \<^bold>\<open>Not modelled.\<close> The asynchronous runtime (tasks are the steps above); \<open>prctl\<close>; whether \<open>mlock\<close>
  succeeds; the memory the compiler may copy a secret to; directory modes beyond \<open>0700\<close> on the vault's
  parent and file modes beyond \<open>0600\<close>; failure of the write to a client's connection, which only ends
  its writer; a response that is ready only after its client's input has ended, which the code may
  still deliver (the model has dropped the client's queue); a panic in a handler; in \<open>KR_Files\<close> what a crash leaves and directories (\<open>KR_Vault\<close> has
  them), in \<open>KR_Threads\<close> the lines sent to clients and the failure count of unlocks (\<open>KR_Handlers\<close> has
  them). The editor plugin under \<open>lua\<close> and the build files are not part of
  this program. The \<open>#[cfg(test)]\<close> modules of the sources are tests, not implementation.
\<close>

end
